theory Spec2Isabelle
  imports Complex_Main "HOL-Library.Word" "HOL-Library.Signed_Division"
begin

unbundle bit_operations_syntax

section \<open>Machine types and library helpers\<close>

text \<open>
  The torus type \<open>T\<close> (uint32 or uint64) is \<open>'a word\<close>; Go's \<open>int\<close> is \<open>int\<close>
  with the 64-bit two's-complement wrap-around written out where a product is formed;
  a \<open>float64\<close> that is only compared with zero, stored and serialised is its IEEE-754
  bit pattern.
\<close>

type_synonym float64 = "64 word"
type_synonym byte = "8 word"

datatype panic =
    Panic string
  | IndexOutOfRange int int
  | SliceBoundsOutOfRange int int
  | DivideByZero

definition wrap64 :: "int \<Rightarrow> int" where
  "wrap64 x = signed_take_bit 63 x"

definition int64_range :: "int \<Rightarrow> bool" where
  "int64_range x = (- (2 ^ 63) \<le> x \<and> x < 2 ^ 63)"

text \<open>\<open>x <= 0\<close> on a float64: false for a NaN, true for both zeros and for every
  value with the sign bit set.\<close>

definition f64_is_nan :: "float64 \<Rightarrow> bool" where
  "f64_is_nan f = (take_bit 11 (drop_bit 52 f) = 2047 \<and> take_bit 52 f \<noteq> 0)"

definition f64_le_zero :: "float64 \<Rightarrow> bool" where
  "f64_le_zero f = (\<not> f64_is_nan f \<and> (bit f 63 \<or> take_bit 63 f = 0))"

definition f64_gt_zero :: "float64 \<Rightarrow> bool" where
  "f64_gt_zero f = (\<not> f64_is_nan f \<and> \<not> bit f 63 \<and> take_bit 63 f \<noteq> 0)"

text \<open>\<open>math.Exp2(float64(n))\<close> for \<open>0 \<le> n \<le> 1023\<close>: exponent field \<open>1023 + n\<close>,
  mantissa zero.\<close>

definition f64_exp2 :: "nat \<Rightarrow> float64" where
  "f64_exp2 n = push_bit 52 (word_of_nat (1023 + n))"

text \<open>Modelled from the spec: the helpers of package \<open>num\<close> (\<open>SizeT\<close>, \<open>IsPowerOfTwo\<close>,
  \<open>Log2\<close>, \<open>DivRound\<close>) are not among the sources. \<open>SizeT\<close> is the bit size of \<open>T\<close>,
  \<open>IsPowerOfTwo\<close> tests for a power of two, \<open>Log2\<close> is the exponent of a power of two
  (the position of the highest set bit), \<open>DivRound x y\<close> is \<open>round(x/y)\<close>.\<close>

definition SizeT :: "'a::len itself \<Rightarrow> int" where
  "SizeT t = int LENGTH('a)"

definition IsPowerOfTwo :: "int \<Rightarrow> bool" where
  "IsPowerOfTwo x = (\<exists>k \<in> {0..<64::nat}. x = 2 ^ k)"

fun log2_nat :: "nat \<Rightarrow> nat" where
  "log2_nat n = (if n < 2 then 0 else Suc (log2_nat (n div 2)))"

definition Log2 :: "int \<Rightarrow> int" where
  "Log2 x = int (log2_nat (nat x))"

definition DivRound :: "int \<Rightarrow> int \<Rightarrow> int" where
  "DivRound x y = (2 * x + y) div (2 * y)"

definition DivRoundT :: "'a::len word \<Rightarrow> 'a word \<Rightarrow> 'a word" where
  "DivRoundT x y = word_of_int (DivRound (uint x) (uint y))"

section \<open>Gadget parameters\<close>

record (overloaded) 'a GadgetParametersLiteral =
  Base :: "'a word"
  Level :: int

record (overloaded) 'a GadgetParameters =
  base :: "'a word"
  logBase :: int
  level :: int
  sizeT :: int

definition GadgetParametersLiteral_Compile ::
  "'a::len GadgetParametersLiteral \<Rightarrow> panic + 'a GadgetParameters" where
  "GadgetParametersLiteral_Compile p =
    (if Base p < 2 then Inl (Panic ''Base smaller than two'')
     else if \<not> IsPowerOfTwo (uint (Base p)) then Inl (Panic ''Base not power of two'')
     else if Level p \<le> 0 then Inl (Panic ''Level smaller than zero'')
     else if SizeT TYPE('a) < wrap64 (Log2 (uint (Base p)) * Level p)
       then Inl (Panic ''Base * Level larger than Q'')
     else Inr \<lparr> base = Base p, logBase = Log2 (uint (Base p)), level = Level p,
                sizeT = SizeT TYPE('a) \<rparr>)"

definition GadgetParameters_Literal :: "'a::len GadgetParameters \<Rightarrow> 'a GadgetParametersLiteral" where
  "GadgetParameters_Literal p = \<lparr> Base = base p, Level = level p \<rparr>"

section \<open>Parameters\<close>

type_synonym BootstrapOrder = int

definition OrderKeySwitchBlindRotate :: BootstrapOrder where
  "OrderKeySwitchBlindRotate = 0"

definition OrderBlindRotateKeySwitch :: BootstrapOrder where
  "OrderBlindRotateKeySwitch = 1"

record (overloaded) 'a ParametersLiteral =
  LWEDimension :: int
  GLWERank :: int
  PolyDegree :: int
  LookUpTableSize :: int
  LWEStdDev :: float64
  GLWEStdDev :: float64
  BlockSize :: int
  MessageModulus :: "'a word"
  BlindRotateParameters :: "'a GadgetParametersLiteral"
  KeySwitchParameters :: "'a GadgetParametersLiteral"
  BootstrapOrder :: BootstrapOrder

record (overloaded) 'a Parameters =
  lweDimension :: int
  glweDimension :: int
  glweRank :: int
  polyDegree :: int
  logPolyDegree :: int
  lookUpTableSize :: int
  polyExtendFactor :: int
  lweStdDev :: float64
  glweStdDev :: float64
  blockSize :: int
  blockCount :: int
  messageModulus :: "'a word"
  scale :: "'a word"
  logQ :: int
  floatQ :: float64
  blindRotateParameters :: "'a GadgetParameters"
  keySwitchParameters :: "'a GadgetParameters"
  bootstrapOrder :: BootstrapOrder

text \<open>The two defaults applied at the head of \<open>ParametersLiteral.Compile\<close>.\<close>

definition apply_defaults :: "'a::len ParametersLiteral \<Rightarrow> 'a ParametersLiteral" where
  "apply_defaults p =
    (let p1 = (if LookUpTableSize p = 0 then p\<lparr>LookUpTableSize := PolyDegree p\<rparr> else p)
     in (if BlockSize p1 = 0 then p1\<lparr>BlockSize := 1\<rparr> else p1))"

text \<open>The \<open>switch\<close> of \<open>ParametersLiteral.Compile\<close>, on the literal after defaulting:
  the first case that holds panics.\<close>

definition compile_checks :: "'a::len ParametersLiteral \<Rightarrow> panic option" where
  "compile_checks p =
    (if LWEDimension p \<le> 0 then Some (Panic ''LWEDimension smaller than zero'')
     else if LWEDimension p > wrap64 (GLWERank p * PolyDegree p)
       then Some (Panic ''LWEDimension larger than GLWEDimension'')
     else if GLWERank p \<le> 0 then Some (Panic ''GLWERank smaller than zero'')
     else if LookUpTableSize p < PolyDegree p
       then Some (Panic ''LookUpTableSize smaller than PolyDegree'')
     else if f64_le_zero (LWEStdDev p) then Some (Panic ''LWEStdDev smaller than zero'')
     else if f64_le_zero (GLWEStdDev p) then Some (Panic ''GLWEStdDev smaller than zero'')
     else if BlockSize p \<le> 0 then Some (Panic ''BlockSize smaller than zero'')
     else if LWEDimension p smod BlockSize p \<noteq> 0
       then Some (Panic ''LWEDimension not multiple of BlockSize'')
     else if PolyDegree p = 0 then Some DivideByZero
     else if LookUpTableSize p smod PolyDegree p \<noteq> 0
       then Some (Panic ''LookUpTableSize not multiple of PolyDegree'')
     else if \<not> IsPowerOfTwo (PolyDegree p) then Some (Panic ''PolyDegree not power of two'')
     else if \<not> (BootstrapOrder p = OrderKeySwitchBlindRotate
                \<or> BootstrapOrder p = OrderBlindRotateKeySwitch)
       then Some (Panic ''BootstrapOrder not valid'')
     else None)"

definition ParametersLiteral_Compile :: "'a::len ParametersLiteral \<Rightarrow> panic + 'a Parameters" where
  "ParametersLiteral_Compile p0 =
    (let p = apply_defaults p0 in
     case compile_checks p of
       Some e \<Rightarrow> Inl e
     | None \<Rightarrow>
        (case GadgetParametersLiteral_Compile (BlindRotateParameters p) of
           Inl e \<Rightarrow> Inl e
         | Inr br \<Rightarrow>
            (case GadgetParametersLiteral_Compile (KeySwitchParameters p) of
               Inl e \<Rightarrow> Inl e
             | Inr ks \<Rightarrow>
                Inr \<lparr> lweDimension = LWEDimension p,
                      glweDimension = wrap64 (GLWERank p * PolyDegree p),
                      glweRank = GLWERank p,
                      polyDegree = PolyDegree p,
                      logPolyDegree = Log2 (PolyDegree p),
                      lookUpTableSize = LookUpTableSize p,
                      polyExtendFactor = LookUpTableSize p sdiv PolyDegree p,
                      lweStdDev = LWEStdDev p,
                      glweStdDev = GLWEStdDev p,
                      blockSize = BlockSize p,
                      blockCount = LWEDimension p sdiv BlockSize p,
                      messageModulus = MessageModulus p,
                      scale = DivRoundT (push_bit (nat (SizeT TYPE('a) - 1)) 1) (MessageModulus p) * 2,
                      logQ = SizeT TYPE('a),
                      floatQ = f64_exp2 (nat (SizeT TYPE('a))),
                      blindRotateParameters = br,
                      keySwitchParameters = ks,
                      bootstrapOrder = BootstrapOrder p \<rparr>)))"

definition Parameters_Literal :: "'a::len Parameters \<Rightarrow> 'a ParametersLiteral" where
  "Parameters_Literal p =
    \<lparr> LWEDimension = lweDimension p, GLWERank = glweRank p, PolyDegree = polyDegree p,
      LookUpTableSize = lookUpTableSize p, LWEStdDev = lweStdDev p, GLWEStdDev = glweStdDev p,
      BlockSize = blockSize p, MessageModulus = messageModulus p,
      BlindRotateParameters = GadgetParameters_Literal (blindRotateParameters p),
      KeySwitchParameters = GadgetParameters_Literal (keySwitchParameters p),
      BootstrapOrder = bootstrapOrder p \<rparr>"

section \<open>Compile: panics and invariants\<close>

declare log2_nat.simps [simp del]

lemma log2_nat_pow: "log2_nat (2 ^ k) = k"
proof (induction k)
  case 0
  show ?case by (simp add: log2_nat.simps)
next
  case (Suc k)
  have "log2_nat (2 ^ Suc k) = Suc (log2_nat (2 ^ Suc k div 2))"
    by (subst log2_nat.simps) simp
  then show ?case using Suc by simp
qed

lemma Log2_pow: "Log2 (2 ^ k) = int k"
  by (simp add: Log2_def log2_nat_pow nat_power_eq)

lemma pow2_lt_63: "(2::int) ^ k < 2 ^ 63 \<Longrightarrow> k < 64"
  using power_less_imp_less_exp [of "2::int" k 63] by simp

lemma IsPowerOfTwo_iff:
  assumes "int64_range x"
  shows "IsPowerOfTwo x \<longleftrightarrow> (\<exists>k. x = 2 ^ k)"
proof
  assume "IsPowerOfTwo x"
  then show "\<exists>k. x = 2 ^ k" unfolding IsPowerOfTwo_def by blast
next
  assume "\<exists>k. x = 2 ^ k"
  then obtain k where k: "x = 2 ^ k" by blast
  with assms have "(2::int) ^ k < 2 ^ 63" unfolding int64_range_def by simp
  then have "k < 64" by (rule pow2_lt_63)
  with k show "IsPowerOfTwo x" unfolding IsPowerOfTwo_def by auto
qed

lemma IsPowerOfTwo_word_iff:
  fixes w :: "'a::len word"
  assumes "LENGTH('a) \<le> 64"
  shows "IsPowerOfTwo (uint w) \<longleftrightarrow> (\<exists>k. uint w = 2 ^ k)"
proof
  assume "IsPowerOfTwo (uint w)"
  then show "\<exists>k. uint w = 2 ^ k" unfolding IsPowerOfTwo_def by blast
next
  assume "\<exists>k. uint w = 2 ^ k"
  then obtain k where k: "uint w = 2 ^ k" by blast
  have "uint w < 2 ^ LENGTH('a)" by (rule uint_lt2p)
  with k have "(2::int) ^ k < 2 ^ LENGTH('a)" by simp
  then have "k < LENGTH('a)" using power_less_imp_less_exp [of "2::int" k "LENGTH('a)"] by simp
  with assms have "k < 64" by simp
  with k show "IsPowerOfTwo (uint w)" unfolding IsPowerOfTwo_def by auto
qed

lemma wrap64_id: "int64_range x \<Longrightarrow> wrap64 x = x"
  unfolding wrap64_def int64_range_def
  by (simp add: signed_take_bit_int_eq_self)

lemma smod_pos: "0 \<le> (a::int) \<Longrightarrow> 0 < b \<Longrightarrow> a smod b = a mod b"
  by (simp add: smod_int_alt_def sgn_if)

lemma sdiv_pos: "0 \<le> (a::int) \<Longrightarrow> 0 < b \<Longrightarrow> a sdiv b = a div b"
  by (simp add: signed_divide_int_def sgn_if)

definition gadget_invariants :: "'a::len GadgetParametersLiteral \<Rightarrow> bool" where
  "gadget_invariants g =
    (\<exists>\<beta>::nat. uint (Base g) = 2 ^ \<beta> \<and> 2 \<le> uint (Base g) \<and> 0 < Level g
        \<and> int \<beta> * Level g \<le> int LENGTH('a))"

definition claimed_invariants :: "'a::len ParametersLiteral \<Rightarrow> bool" where
  "claimed_invariants p =
    (0 < LWEDimension p \<and> LWEDimension p \<le> GLWERank p * PolyDegree p \<and> 0 < GLWERank p
     \<and> PolyDegree p \<le> LookUpTableSize p \<and> LookUpTableSize p mod PolyDegree p = 0
     \<and> (\<exists>k::nat. PolyDegree p = 2 ^ k)
     \<and> LWEDimension p mod BlockSize p = 0
     \<and> gadget_invariants (BlindRotateParameters p)
     \<and> gadget_invariants (KeySwitchParameters p)
     \<and> f64_gt_zero (LWEStdDev p) \<and> f64_gt_zero (GLWEStdDev p)
     \<and> (BootstrapOrder p = OrderKeySwitchBlindRotate \<or> BootstrapOrder p = OrderBlindRotateKeySwitch))"

definition compile_invariants :: "'a::len ParametersLiteral \<Rightarrow> bool" where
  "compile_invariants p = (claimed_invariants p \<and> 0 < BlockSize p)"

definition no_overflow :: "'a::len ParametersLiteral \<Rightarrow> bool" where
  "no_overflow p =
    (int64_range (PolyDegree p) \<and> int64_range (GLWERank p * PolyDegree p)
     \<and> int64_range (Log2 (uint (Base (BlindRotateParameters p))) * Level (BlindRotateParameters p))
     \<and> int64_range (Log2 (uint (Base (KeySwitchParameters p))) * Level (KeySwitchParameters p))
     \<and> \<not> f64_is_nan (LWEStdDev p) \<and> \<not> f64_is_nan (GLWEStdDev p))"

lemma word_less_2_iff:
  fixes w :: "'a::len word"
  assumes "2 \<le> LENGTH('a)"
  shows "w < 2 \<longleftrightarrow> uint w < 2"
proof -
  have "(2::int) ^ 2 \<le> 2 ^ LENGTH('a)" using assms by (intro power_increasing) auto
  with assms have "uint (2 :: 'a word) = 2" by (simp add: uint_word_of_int take_bit_int_eq_self)
  then show ?thesis by (simp add: word_less_def)
qed

lemma gadget_compile_ok_iff:
  fixes g :: "'a::len GadgetParametersLiteral"
  assumes len: "2 \<le> LENGTH('a)" "LENGTH('a) \<le> 64"
    and rng: "int64_range (Log2 (uint (Base g)) * Level g)"
  shows "(\<exists>q. GadgetParametersLiteral_Compile g = Inr q) \<longleftrightarrow> gadget_invariants g"
proof
  assume "\<exists>q. GadgetParametersLiteral_Compile g = Inr q"
  then have a: "\<not> Base g < 2" "IsPowerOfTwo (uint (Base g))" "0 < Level g"
      "\<not> SizeT TYPE('a) < wrap64 (Log2 (uint (Base g)) * Level g)"
    by (auto simp: GadgetParametersLiteral_Compile_def split: if_splits)
  from a(2) obtain k :: nat where k: "uint (Base g) = 2 ^ k"
    unfolding IsPowerOfTwo_def by blast
  have "Log2 (uint (Base g)) = int k" by (simp add: k Log2_pow)
  with a(4) rng have "int k * Level g \<le> int LENGTH('a)"
    by (simp add: wrap64_id SizeT_def)
  moreover from a(1) have "2 \<le> uint (Base g)" by (simp add: word_less_2_iff [OF len(1)])
  ultimately show "gadget_invariants g" unfolding gadget_invariants_def using k a(3) by blast
next
  assume "gadget_invariants g"
  then obtain k :: nat where k: "uint (Base g) = 2 ^ k" "2 \<le> uint (Base g)" "0 < Level g"
      "int k * Level g \<le> int LENGTH('a)"
    unfolding gadget_invariants_def by blast
  have l: "Log2 (uint (Base g)) = int k" by (simp add: k(1) Log2_pow)
  have p: "IsPowerOfTwo (uint (Base g))"
    using IsPowerOfTwo_word_iff [OF len(2), of "Base g"] k(1) by blast
  have b: "\<not> Base g < 2" using k(2) by (simp add: word_less_2_iff [OF len(1)])
  have w: "\<not> SizeT TYPE('a) < wrap64 (Log2 (uint (Base g)) * Level g)"
    using rng k(4) l by (simp add: wrap64_id SizeT_def)
  show "\<exists>q. GadgetParametersLiteral_Compile g = Inr q"
    using b p k(3) w by (simp add: GadgetParametersLiteral_Compile_def)
qed

lemma pos_of_mult_pos: "0 < (k::int) \<Longrightarrow> 0 < k * n \<Longrightarrow> 0 < n"
  by (simp add: zero_less_mult_iff)

lemma compile_checks_None_iff:
  fixes p :: "'a::len ParametersLiteral"
  assumes rng: "int64_range (PolyDegree p)" "int64_range (GLWERank p * PolyDegree p)"
    and nan: "\<not> f64_is_nan (LWEStdDev p)" "\<not> f64_is_nan (GLWEStdDev p)"
  shows "compile_checks p = None \<longleftrightarrow>
    (0 < LWEDimension p \<and> LWEDimension p \<le> GLWERank p * PolyDegree p \<and> 0 < GLWERank p
     \<and> PolyDegree p \<le> LookUpTableSize p \<and> LookUpTableSize p mod PolyDegree p = 0
     \<and> (\<exists>k::nat. PolyDegree p = 2 ^ k)
     \<and> LWEDimension p mod BlockSize p = 0 \<and> 0 < BlockSize p
     \<and> f64_gt_zero (LWEStdDev p) \<and> f64_gt_zero (GLWEStdDev p)
     \<and> (BootstrapOrder p = OrderKeySwitchBlindRotate \<or> BootstrapOrder p = OrderBlindRotateKeySwitch))"
    (is "?L \<longleftrightarrow> ?R")
proof
  assume ?L
  then have c: "0 < LWEDimension p" "LWEDimension p \<le> GLWERank p * PolyDegree p"
      "0 < GLWERank p" "PolyDegree p \<le> LookUpTableSize p"
      "\<not> f64_le_zero (LWEStdDev p)" "\<not> f64_le_zero (GLWEStdDev p)" "0 < BlockSize p"
      "LWEDimension p smod BlockSize p = 0" "LookUpTableSize p smod PolyDegree p = 0"
      "IsPowerOfTwo (PolyDegree p)"
      "BootstrapOrder p = OrderKeySwitchBlindRotate \<or> BootstrapOrder p = OrderBlindRotateKeySwitch"
    using rng(2) by (auto simp: compile_checks_def wrap64_id split: if_splits)
  have N: "0 < PolyDegree p" using c(1,2,3) pos_of_mult_pos [of "GLWERank p" "PolyDegree p"] by linarith
  have "LookUpTableSize p mod PolyDegree p = 0" using c(9) c(4) N by (simp add: smod_pos)
  moreover have "LWEDimension p mod BlockSize p = 0" using c(8) c(1) c(7) by (simp add: smod_pos)
  moreover have "\<exists>k::nat. PolyDegree p = 2 ^ k" using c(10) IsPowerOfTwo_iff [OF rng(1)] by simp
  moreover have "f64_gt_zero (LWEStdDev p)" "f64_gt_zero (GLWEStdDev p)"
    using c(5,6) nan by (auto simp: f64_le_zero_def f64_gt_zero_def)
  ultimately show ?R using c by blast
next
  assume r: ?R
  then have N: "0 < PolyDegree p" using pos_of_mult_pos [of "GLWERank p" "PolyDegree p"] by linarith
  from r have "IsPowerOfTwo (PolyDegree p)" using IsPowerOfTwo_iff [OF rng(1)] by simp
  moreover from r N have "LookUpTableSize p smod PolyDegree p = 0" by (simp add: smod_pos)
  moreover from r have "LWEDimension p smod BlockSize p = 0" by (simp add: smod_pos)
  moreover from r have "\<not> f64_le_zero (LWEStdDev p)" "\<not> f64_le_zero (GLWEStdDev p)"
    by (auto simp: f64_le_zero_def f64_gt_zero_def)
  ultimately show ?L using r N rng(2)
    by (simp add: compile_checks_def wrap64_id)
qed


definition ParamsEBS5 :: "64 ParametersLiteral" where
  "ParamsEBS5 =
    \<lparr> LWEDimension = 1160, GLWERank = 1, PolyDegree = 2048, LookUpTableSize = 2048 * 2,
      LWEStdDev = 0x3E2FD22CFDEB9769, GLWEStdDev = 0x3CB905C5A891BF8C,
      BlockSize = 1, MessageModulus = push_bit 5 1,
      BlindRotateParameters = \<lparr> Base = push_bit 22 1, Level = 1 \<rparr>,
      KeySwitchParameters = \<lparr> Base = push_bit 7 1, Level = 3 \<rparr>,
      BootstrapOrder = OrderKeySwitchBlindRotate \<rparr>"

lemma apply_defaults_fields [simp]:
  "LWEDimension (apply_defaults p) = LWEDimension p"
  "GLWERank (apply_defaults p) = GLWERank p"
  "PolyDegree (apply_defaults p) = PolyDegree p"
  "LWEStdDev (apply_defaults p) = LWEStdDev p"
  "GLWEStdDev (apply_defaults p) = GLWEStdDev p"
  "MessageModulus (apply_defaults p) = MessageModulus p"
  "BlindRotateParameters (apply_defaults p) = BlindRotateParameters p"
  "KeySwitchParameters (apply_defaults p) = KeySwitchParameters p"
  "BootstrapOrder (apply_defaults p) = BootstrapOrder p"
  "LookUpTableSize (apply_defaults p) = (if LookUpTableSize p = 0 then PolyDegree p else LookUpTableSize p)"
  "BlockSize (apply_defaults p) = (if BlockSize p = 0 then 1 else BlockSize p)"
  by (simp_all add: apply_defaults_def Let_def)

lemma Compile_ok_iff:
  fixes p :: "'a::len ParametersLiteral"
  assumes len: "LENGTH('a) = 32 \<or> LENGTH('a) = 64" and ov: "no_overflow p"
  shows "(\<exists>q. ParametersLiteral_Compile p = Inr q) \<longleftrightarrow> compile_invariants (apply_defaults p)"
proof -
  let ?d = "apply_defaults p"
  from len have l: "2 \<le> LENGTH('a)" "LENGTH('a) \<le> 64" by auto
  from ov have rng: "int64_range (PolyDegree ?d)" "int64_range (GLWERank ?d * PolyDegree ?d)"
      and nan: "\<not> f64_is_nan (LWEStdDev ?d)" "\<not> f64_is_nan (GLWEStdDev ?d)"
      and g1: "int64_range (Log2 (uint (Base (BlindRotateParameters ?d))) * Level (BlindRotateParameters ?d))"
      and g2: "int64_range (Log2 (uint (Base (KeySwitchParameters ?d))) * Level (KeySwitchParameters ?d))"
    by (simp_all add: no_overflow_def)
  note c = compile_checks_None_iff [OF rng nan]
  note b = gadget_compile_ok_iff [OF l g1]
  note k = gadget_compile_ok_iff [OF l g2]
  have "(\<exists>q. ParametersLiteral_Compile p = Inr q) \<longleftrightarrow>
      (compile_checks ?d = None
        \<and> (\<exists>q. GadgetParametersLiteral_Compile (BlindRotateParameters ?d) = Inr q)
        \<and> (\<exists>q. GadgetParametersLiteral_Compile (KeySwitchParameters ?d) = Inr q))"
    by (auto simp: ParametersLiteral_Compile_def Let_def split: option.splits sum.splits)
  also have "\<dots> \<longleftrightarrow> compile_invariants ?d"
    unfolding c b k compile_invariants_def claimed_invariants_def by blast
  finally show ?thesis .
qed

text \<open>
  Claim C5, amended. For a literal of type uint32 or uint64 whose products \<open>k * N\<close> and
  \<open>log2 B * l\<close> fit a 64-bit int and whose standard deviations are not NaN,
  \<open>ParametersLiteral.Compile\<close> panics if and only if one of the compile invariants is
  violated on the literal after defaulting, and returns normally when all of them hold.
  The invariants are those of the specification together with \<open>b > 0\<close>: the code has
  its own guard for a block size below zero, which \<open>n mod b = 0\<close> does not imply.
\<close>

theorem Compile_panics_iff_invariant_violated:
  fixes p :: "'a::len ParametersLiteral"
  assumes "LENGTH('a) = 32 \<or> LENGTH('a) = 64" and "no_overflow p"
  shows "((\<exists>e. ParametersLiteral_Compile p = Inl e) \<longleftrightarrow> \<not> compile_invariants (apply_defaults p))
       \<and> (compile_invariants (apply_defaults p) \<longrightarrow> (\<exists>q. ParametersLiteral_Compile p = Inr q))"
proof -
  have "(\<exists>e. ParametersLiteral_Compile p = Inl e) \<longleftrightarrow> \<not> (\<exists>q. ParametersLiteral_Compile p = Inr q)"
    by (cases "ParametersLiteral_Compile p") auto
  then show ?thesis using Compile_ok_iff [OF assms] by simp
qed

lemma ParamsEBS5_fields:
  "LWEDimension ParamsEBS5 = 1160" "GLWERank ParamsEBS5 = 1" "PolyDegree ParamsEBS5 = 2048"
  "LookUpTableSize ParamsEBS5 = 4096" "LWEStdDev ParamsEBS5 = 0x3E2FD22CFDEB9769"
  "GLWEStdDev ParamsEBS5 = 0x3CB905C5A891BF8C" "BlockSize ParamsEBS5 = 1"
  "MessageModulus ParamsEBS5 = 32"
  "Base (BlindRotateParameters ParamsEBS5) = 4194304" "Level (BlindRotateParameters ParamsEBS5) = 1"
  "Base (KeySwitchParameters ParamsEBS5) = 128" "Level (KeySwitchParameters ParamsEBS5) = 3"
  "BootstrapOrder ParamsEBS5 = 0"
  by (simp_all add: ParamsEBS5_def OrderKeySwitchBlindRotate_def)

lemma uint_consts: "uint (4194304 :: 64 word) = 2 ^ 22" "uint (128 :: 64 word) = 2 ^ 7"
  by simp_all

lemma Log2_consts: "Log2 4194304 = 22" "Log2 128 = 7" "Log2 2048 = 11"
  using Log2_pow [of 22] Log2_pow [of 7] Log2_pow [of 11] by simp_all

lemma int64_range_consts: "int64_range 2048" "int64_range 22" "int64_range 21"
  by (simp_all add: int64_range_def)

lemma stddev_consts:
  "f64_gt_zero 0x3E2FD22CFDEB9769" "f64_gt_zero 0x3CB905C5A891BF8C"
  "\<not> f64_is_nan 0x3E2FD22CFDEB9769" "\<not> f64_is_nan 0x3CB905C5A891BF8C"
  by code_simp+

lemma ParamsEBS5_no_overflow: "no_overflow (ParamsEBS5\<lparr>BlockSize := b\<rparr>)"
  by (simp add: no_overflow_def ParamsEBS5_fields stddev_consts Log2_consts int64_range_consts)

lemma ParamsEBS5_gadgets:
  "gadget_invariants (BlindRotateParameters ParamsEBS5)"
  "gadget_invariants (KeySwitchParameters ParamsEBS5)"
  unfolding gadget_invariants_def ParamsEBS5_fields uint_consts
  by (rule exI [of _ 22], simp) (rule exI [of _ 7], simp)

lemma ParamsEBS5_claimed: "claimed_invariants (ParamsEBS5\<lparr>BlockSize := b\<rparr>) \<longleftrightarrow> 1160 mod b = 0"
proof -
  have "\<exists>k::nat. (2048::int) = 2 ^ k" by (rule exI [of _ 11]) simp
  then show ?thesis
    using ParamsEBS5_gadgets
    by (simp add: claimed_invariants_def ParamsEBS5_fields stddev_consts
        OrderKeySwitchBlindRotate_def)
qed

lemma ParamsEBS5_defaults:
  "b \<noteq> 0 \<Longrightarrow> apply_defaults (ParamsEBS5\<lparr>BlockSize := b\<rparr>) = ParamsEBS5\<lparr>BlockSize := b\<rparr>"
  by (simp add: apply_defaults_def ParamsEBS5_fields)

theorem Compile_panics_iff_invariant_violated_witness:
  "no_overflow (ParamsEBS5\<lparr>BlockSize := 1\<rparr>)
    \<and> compile_invariants (apply_defaults (ParamsEBS5\<lparr>BlockSize := 1\<rparr>))
    \<and> (\<exists>q. ParametersLiteral_Compile (ParamsEBS5\<lparr>BlockSize := 1\<rparr>) = Inr q)"
proof -
  have i: "compile_invariants (apply_defaults (ParamsEBS5\<lparr>BlockSize := 1\<rparr>))"
    by (simp add: ParamsEBS5_defaults compile_invariants_def ParamsEBS5_claimed)
  have l: "LENGTH(64) = 32 \<or> LENGTH(64) = 64" by simp
  from Compile_panics_iff_invariant_violated [OF l ParamsEBS5_no_overflow [of 1]] i
  have "\<exists>q. ParametersLiteral_Compile (ParamsEBS5\<lparr>BlockSize := 1\<rparr>) = Inr q" by blast
  with i ParamsEBS5_no_overflow [of 1] show ?thesis by blast
qed

text \<open>
  Claim C5 as stated fails: with \<open>BlockSize = -1\<close> every listed invariant holds
  (\<open>1160 mod -1 = 0\<close>), yet \<open>Compile\<close> panics.
\<close>

theorem Compile_negative_BlockSize_counterexample:
  "claimed_invariants (apply_defaults (ParamsEBS5\<lparr>BlockSize := - 1\<rparr>))
    \<and> ParametersLiteral_Compile (ParamsEBS5\<lparr>BlockSize := - 1\<rparr>)
        = Inl (Panic ''BlockSize smaller than zero'')"
proof -
  let ?p = "ParamsEBS5\<lparr>BlockSize := - 1\<rparr>"
  have d: "apply_defaults ?p = ?p" by (simp add: ParamsEBS5_defaults)
  have c: "claimed_invariants ?p" by (simp add: ParamsEBS5_claimed)
  have w: "wrap64 2048 = 2048" by (rule wrap64_id) (simp add: int64_range_def)
  have z: "\<not> f64_le_zero 0x3E2FD22CFDEB9769" "\<not> f64_le_zero 0x3CB905C5A891BF8C"
    by code_simp+
  have "compile_checks ?p = Some (Panic ''BlockSize smaller than zero'')"
    by (simp add: compile_checks_def ParamsEBS5_fields w z)
  then have "ParametersLiteral_Compile ?p = Inl (Panic ''BlockSize smaller than zero'')"
    by (simp add: ParametersLiteral_Compile_def d)
  with c d show ?thesis by simp
qed

section \<open>Binary serialisation\<close>

text \<open>
  \<open>binary.BigEndian.PutUint64\<close> and \<open>binary.BigEndian.Uint64\<close> on an 8-byte buffer.
\<close>

definition PutUint64 :: "64 word \<Rightarrow> byte list" where
  "PutUint64 v =
    [ucast (drop_bit 56 v), ucast (drop_bit 48 v), ucast (drop_bit 40 v), ucast (drop_bit 32 v),
     ucast (drop_bit 24 v), ucast (drop_bit 16 v), ucast (drop_bit 8 v), ucast v]"

definition Uint64 :: "byte list \<Rightarrow> 64 word" where
  "Uint64 b =
    ucast (b ! 7) OR push_bit 8 (ucast (b ! 6)) OR push_bit 16 (ucast (b ! 5))
    OR push_bit 24 (ucast (b ! 4)) OR push_bit 32 (ucast (b ! 3)) OR push_bit 40 (ucast (b ! 2))
    OR push_bit 48 (ucast (b ! 1)) OR push_bit 56 (ucast (b ! 0))"

text \<open>
  The byte stream is a \<open>bytes.Buffer\<close>, as in \<open>MarshalBinary\<close> and \<open>UnmarshalBinary\<close>:
  a writer is the list of bytes written so far and takes every slice whole; a reader is
  the list of bytes still unread. \<open>io.ReadFull\<close> of \<open>n > 0\<close> bytes fails with \<open>EOF\<close> on
  an empty reader and with \<open>ErrUnexpectedEOF\<close> on a short one, reporting the bytes read.
\<close>

datatype io_error = EOF | ErrUnexpectedEOF | ErrShortWrite

datatype 'v read_result =
    ReadPanic panic
  | ReadError int io_error
  | ReadOK 'v int "byte list"

definition ReadFull :: "byte list \<Rightarrow> nat \<Rightarrow> (nat \<times> io_error) + (byte list \<times> byte list)" where
  "ReadFull r n =
    (if n \<le> length r then Inr (take n r, drop n r)
     else if r = [] then Inl (0, EOF)
     else Inl (length r, ErrUnexpectedEOF))"

text \<open>One step of \<open>ReadFrom\<close>: \<open>io.ReadFull(r, buf[:])\<close>, the early return on an error,
  \<open>n += int64(nRead)\<close>, and \<open>binary.BigEndian.Uint64(buf[:])\<close>.\<close>

definition read_u64 :: "byte list \<Rightarrow> int \<Rightarrow> (64 word) read_result" where
  "read_u64 r n =
    (case ReadFull r 8 of
       Inl (nRead, err) \<Rightarrow> ReadError (n + int nRead) err
     | Inr (buf, r') \<Rightarrow> ReadOK (Uint64 buf) (n + 8) r')"

definition read_byte :: "byte list \<Rightarrow> int \<Rightarrow> byte read_result" where
  "read_byte r n =
    (case ReadFull r 1 of
       Inl (nRead, err) \<Rightarrow> ReadError (n + int nRead) err
     | Inr (buf, r') \<Rightarrow> ReadOK (buf ! 0) (n + 1) r')"

text \<open>Sequencing: a panic or an error return ends the function.\<close>

definition rbind :: "'v read_result \<Rightarrow> ('v \<Rightarrow> int \<Rightarrow> byte list \<Rightarrow> 'w read_result) \<Rightarrow> 'w read_result" where
  "rbind m f =
    (case m of
       ReadPanic e \<Rightarrow> ReadPanic e
     | ReadError n e \<Rightarrow> ReadError n e
     | ReadOK v n r \<Rightarrow> f v n r)"

definition GadgetParameters_ByteSize :: "'a::len GadgetParameters \<Rightarrow> int" where
  "GadgetParameters_ByteSize p = 16"

definition GadgetParameters_WriteTo ::
  "'a::len GadgetParameters \<Rightarrow> byte list \<Rightarrow> byte list \<times> int \<times> io_error option" where
  "GadgetParameters_WriteTo p w =
    (let w1 = w @ PutUint64 (ucast (base p)); n1 = 0 + 8;
         w2 = w1 @ PutUint64 (word_of_int (level p)); n2 = n1 + 8
     in if n2 < GadgetParameters_ByteSize p then (w2, n2, Some ErrShortWrite)
        else (w2, n2, None))"

definition GadgetParameters_ReadFrom :: "byte list \<Rightarrow> ('a::len GadgetParameters) read_result" where
  "GadgetParameters_ReadFrom r =
    rbind (read_u64 r 0) (\<lambda>b n r.
    rbind (read_u64 r n) (\<lambda>l n r.
      (case GadgetParametersLiteral_Compile \<lparr> Base = ucast b, Level = sint l \<rparr> of
         Inl e \<Rightarrow> ReadPanic e
       | Inr g \<Rightarrow> ReadOK g n r)))"

definition Parameters_ByteSize :: "'a::len Parameters \<Rightarrow> int" where
  "Parameters_ByteSize p =
    8 * 8 + GadgetParameters_ByteSize (blindRotateParameters p)
      + GadgetParameters_ByteSize (keySwitchParameters p) + 1"

definition Parameters_WriteTo ::
  "'a::len Parameters \<Rightarrow> byte list \<Rightarrow> byte list \<times> int \<times> io_error option" where
  "Parameters_WriteTo p w =
    (let w1 = w @ PutUint64 (word_of_int (lweDimension p)); n1 = 0 + 8;
         w2 = w1 @ PutUint64 (word_of_int (glweRank p)); n2 = n1 + 8;
         w3 = w2 @ PutUint64 (word_of_int (polyDegree p)); n3 = n2 + 8;
         w4 = w3 @ PutUint64 (word_of_int (lookUpTableSize p)); n4 = n3 + 8;
         w5 = w4 @ PutUint64 (lweStdDev p); n5 = n4 + 8;
         w6 = w5 @ PutUint64 (glweStdDev p); n6 = n5 + 8;
         w7 = w6 @ PutUint64 (word_of_int (blockSize p)); n7 = n6 + 8;
         w8 = w7 @ PutUint64 (ucast (messageModulus p)); n8 = n7 + 8
     in case GadgetParameters_WriteTo (blindRotateParameters p) w8 of
          (w9, k9, Some err) \<Rightarrow> (w9, n8 + k9, Some err)
        | (w9, k9, None) \<Rightarrow>
            (case GadgetParameters_WriteTo (keySwitchParameters p) w9 of
               (w10, k10, Some err) \<Rightarrow> (w10, n8 + k9 + k10, Some err)
             | (w10, k10, None) \<Rightarrow>
                 (let w11 = w10 @ [word_of_int (bootstrapOrder p)]; n11 = n8 + k9 + k10 + 1
                  in if n11 < Parameters_ByteSize p then (w11, n11, Some ErrShortWrite)
                     else (w11, n11, None))))"

definition Parameters_ReadFrom :: "byte list \<Rightarrow> ('a::len Parameters) read_result" where
  "Parameters_ReadFrom r =
    rbind (read_u64 r 0) (\<lambda>lweDimension' n r.
    rbind (read_u64 r n) (\<lambda>glweRank' n r.
    rbind (read_u64 r n) (\<lambda>polyDegree' n r.
    rbind (read_u64 r n) (\<lambda>lookUpTableSize' n r.
    rbind (read_u64 r n) (\<lambda>lweStdDev' n r.
    rbind (read_u64 r n) (\<lambda>glweStdDev' n r.
    rbind (read_u64 r n) (\<lambda>blockSize' n r.
    rbind (read_u64 r n) (\<lambda>messageModulus' n r.
    rbind (case GadgetParameters_ReadFrom r of
             ReadPanic e \<Rightarrow> ReadPanic e
           | ReadError k e \<Rightarrow> ReadError (n + k) e
           | ReadOK g k r' \<Rightarrow> ReadOK g (n + k) r') (\<lambda>blindRotateParameters' n r.
    rbind (case GadgetParameters_ReadFrom r of
             ReadPanic e \<Rightarrow> ReadPanic e
           | ReadError k e \<Rightarrow> ReadError (n + k) e
           | ReadOK g k r' \<Rightarrow> ReadOK g (n + k) r') (\<lambda>keySwitchParameters' n r.
    rbind (read_byte r n) (\<lambda>bootstrapOrder' n r.
      (case ParametersLiteral_Compile
          \<lparr> LWEDimension = sint lweDimension', GLWERank = sint glweRank',
            PolyDegree = sint polyDegree', LookUpTableSize = sint lookUpTableSize',
            LWEStdDev = lweStdDev', GLWEStdDev = glweStdDev',
            BlockSize = sint blockSize', MessageModulus = ucast messageModulus',
            BlindRotateParameters = GadgetParameters_Literal blindRotateParameters',
            KeySwitchParameters = GadgetParameters_Literal keySwitchParameters',
            BootstrapOrder = uint bootstrapOrder' \<rparr> of
         Inl e \<Rightarrow> ReadPanic e
       | Inr p \<Rightarrow> ReadOK p n r))))))))))))"

lemma Uint64_bit:
  assumes n: "n < 64"
  shows "bit (Uint64 (PutUint64 v)) n \<longleftrightarrow>
         (n < 8 \<and> bit v n \<or>
          8 \<le> n \<and> n - 8 < 64 \<and> n - 8 < 8 \<and> bit v (8 + (n - 8)) \<or>
          16 \<le> n \<and> n - 16 < 64 \<and> n - 16 < 8 \<and> bit v (16 + (n - 16)) \<or>
          24 \<le> n \<and> n - 24 < 64 \<and> n - 24 < 8 \<and> bit v (24 + (n - 24)) \<or>
          32 \<le> n \<and> n - 32 < 64 \<and> n - 32 < 8 \<and> bit v (32 + (n - 32)) \<or>
          40 \<le> n \<and> n - 40 < 64 \<and> n - 40 < 8 \<and> bit v (40 + (n - 40)) \<or>
          48 \<le> n \<and> n - 48 < 64 \<and> n - 48 < 8 \<and> bit v (48 + (n - 48)) \<or>
          56 \<le> n \<and> n - 56 < 64 \<and> n - 56 < 8 \<and> bit v (56 + (n - 56)))"
  using n unfolding Uint64_def PutUint64_def by (simp add: bit_simps)

lemma Uint64_PutUint64: "Uint64 (PutUint64 v) = v"
proof (rule bit_word_eqI)
  fix n assume "n < LENGTH(64)"
  then have n: "n < 64" by simp
  then consider "n < 8" | "8 \<le> n" "n < 16" | "16 \<le> n" "n < 24" | "24 \<le> n" "n < 32"
    | "32 \<le> n" "n < 40" | "40 \<le> n" "n < 48" | "48 \<le> n" "n < 56" | "56 \<le> n" "n < 64"
    by linarith
  then show "bit (Uint64 (PutUint64 v)) n = bit v n"
  proof cases
    case 1 then show ?thesis unfolding Uint64_bit [OF n] by (simp add: less_diff_conv2)
  next
    case 2 then show ?thesis unfolding Uint64_bit [OF n] by (simp add: less_diff_conv2)
  next
    case 3 then show ?thesis unfolding Uint64_bit [OF n] by (simp add: less_diff_conv2)
  next
    case 4 then show ?thesis unfolding Uint64_bit [OF n] by (simp add: less_diff_conv2)
  next
    case 5 then show ?thesis unfolding Uint64_bit [OF n] by (simp add: less_diff_conv2)
  next
    case 6 then show ?thesis unfolding Uint64_bit [OF n] by (simp add: less_diff_conv2)
  next
    case 7 then show ?thesis unfolding Uint64_bit [OF n] by (simp add: less_diff_conv2)
  next
    case 8 then show ?thesis unfolding Uint64_bit [OF n] by (simp add: less_diff_conv2)
  qed
qed

lemma length_PutUint64: "length (PutUint64 v) = 8"
  by (simp add: PutUint64_def)


lemma ReadFull_append:
  "length b = n \<Longrightarrow> ReadFull (b @ rest) n = Inr (b, rest)"
  by (simp add: ReadFull_def)

lemma read_u64_PutUint64 [simp]:
  "read_u64 (PutUint64 v @ rest) n = ReadOK v (n + 8) rest"
  by (simp add: read_u64_def ReadFull_append length_PutUint64 Uint64_PutUint64)

lemma read_byte_Cons [simp]: "read_byte (b # rest) n = ReadOK b (n + 1) rest"
  by (simp add: read_byte_def ReadFull_def)

lemma rbind_ReadOK [simp]: "rbind (ReadOK v n r) f = f v n r"
  by (simp add: rbind_def)

lemma sint_word_of_int_64: "int64_range x \<Longrightarrow> sint (word_of_int x :: 64 word) = x"
  unfolding int64_range_def
  by (simp add: sint_sbintrunc' signed_take_bit_int_eq_self)

lemma ucast_ucast_64:
  fixes w :: "'a::len word"
  assumes "LENGTH('a) \<le> 64"
  shows "(ucast (ucast w :: 64 word) :: 'a word) = w"
  by (rule ucast_up_ucast_id) (simp add: is_up assms)

lemma order_byte: "x = 0 \<or> x = 1 \<Longrightarrow> uint (word_of_int x :: byte) = x"
  by auto

lemma gadget_compiled_fields:
  assumes "GadgetParametersLiteral_Compile lit = Inr g"
  shows "base g = Base lit" "level g = Level lit" "GadgetParameters_Literal g = lit"
  using assms
  by (auto simp: GadgetParametersLiteral_Compile_def GadgetParameters_Literal_def split: if_splits)

lemma GadgetParameters_WriteTo_eq:
  "GadgetParameters_WriteTo g w =
    (w @ PutUint64 (ucast (base g)) @ PutUint64 (word_of_int (level g)), 16, None)"
  by (simp add: GadgetParameters_WriteTo_def GadgetParameters_ByteSize_def Let_def)

lemma GadgetParameters_ReadFrom_written:
  fixes g :: "'a::len GadgetParameters"
  assumes c: "GadgetParametersLiteral_Compile lit = Inr g"
    and len: "LENGTH('a) \<le> 64" and rng: "int64_range (level g)"
  shows "GadgetParameters_ReadFrom
      (PutUint64 (ucast (base g)) @ PutUint64 (word_of_int (level g)) @ rest) = ReadOK g 16 rest"
proof -
  have "\<lparr> Base = (ucast (ucast (base g) :: 64 word) :: 'a word),
           Level = sint (word_of_int (level g) :: 64 word) \<rparr> = lit"
    using gadget_compiled_fields [OF c] rng
    by (simp add: ucast_ucast_64 [OF len] sint_word_of_int_64)
  then show ?thesis
    by (simp add: GadgetParameters_ReadFrom_def c)
qed


lemma apply_defaults_idem: "apply_defaults (apply_defaults p) = apply_defaults p"
  by (simp add: apply_defaults_def Let_def)

lemma Compile_apply_defaults:
  "ParametersLiteral_Compile (apply_defaults p) = ParametersLiteral_Compile p"
  by (simp add: ParametersLiteral_Compile_def apply_defaults_idem)

lemma compiled_gadgets:
  assumes "ParametersLiteral_Compile lit = Inr p"
  shows "GadgetParametersLiteral_Compile (BlindRotateParameters lit) = Inr (blindRotateParameters p)"
    "GadgetParametersLiteral_Compile (KeySwitchParameters lit) = Inr (keySwitchParameters p)"
  using assms
  by (auto simp: ParametersLiteral_Compile_def Let_def split: option.splits sum.splits)

lemma compiled_order:
  assumes "ParametersLiteral_Compile lit = Inr p"
  shows "bootstrapOrder p = 0 \<or> bootstrapOrder p = 1"
proof -
  from assms have c: "compile_checks (apply_defaults lit) = None"
      and b: "bootstrapOrder p = BootstrapOrder lit"
    by (auto simp: ParametersLiteral_Compile_def Let_def split: option.splits sum.splits)
  from c have "BootstrapOrder lit = OrderKeySwitchBlindRotate \<or> BootstrapOrder lit = OrderBlindRotateKeySwitch"
    by (auto simp: compile_checks_def split: if_splits)
  with b show ?thesis by (simp add: OrderKeySwitchBlindRotate_def OrderBlindRotateKeySwitch_def)
qed

lemma compiled_Literal:
  assumes "ParametersLiteral_Compile lit = Inr p"
  shows "Parameters_Literal p = apply_defaults lit"
proof -
  note g = compiled_gadgets [OF assms]
  have "GadgetParameters_Literal (blindRotateParameters p) = BlindRotateParameters (apply_defaults lit)"
    "GadgetParameters_Literal (keySwitchParameters p) = KeySwitchParameters (apply_defaults lit)"
    using gadget_compiled_fields(3) [OF g(1)] gadget_compiled_fields(3) [OF g(2)] by simp_all
  moreover from assms have "lweDimension p = LWEDimension (apply_defaults lit)"
    "glweRank p = GLWERank (apply_defaults lit)" "polyDegree p = PolyDegree (apply_defaults lit)"
    "lookUpTableSize p = LookUpTableSize (apply_defaults lit)"
    "lweStdDev p = LWEStdDev (apply_defaults lit)" "glweStdDev p = GLWEStdDev (apply_defaults lit)"
    "blockSize p = BlockSize (apply_defaults lit)" "messageModulus p = MessageModulus (apply_defaults lit)"
    "bootstrapOrder p = BootstrapOrder (apply_defaults lit)"
    by (auto simp: ParametersLiteral_Compile_def Let_def split: option.splits sum.splits)
  ultimately show ?thesis
    unfolding Parameters_Literal_def by simp
qed

lemma Compile_Literal:
  assumes "ParametersLiteral_Compile lit = Inr p"
  shows "ParametersLiteral_Compile (Parameters_Literal p) = Inr p"
  using assms by (simp add: compiled_Literal [OF assms] Compile_apply_defaults)


definition gadget_layout :: "'a::len GadgetParameters \<Rightarrow> byte list" where
  "gadget_layout g = PutUint64 (ucast (base g)) @ PutUint64 (word_of_int (level g))"

definition parameters_layout :: "'a::len Parameters \<Rightarrow> byte list" where
  "parameters_layout p =
    PutUint64 (word_of_int (lweDimension p)) @ PutUint64 (word_of_int (glweRank p))
    @ PutUint64 (word_of_int (polyDegree p)) @ PutUint64 (word_of_int (lookUpTableSize p))
    @ PutUint64 (lweStdDev p) @ PutUint64 (glweStdDev p)
    @ PutUint64 (word_of_int (blockSize p)) @ PutUint64 (ucast (messageModulus p))
    @ gadget_layout (blindRotateParameters p) @ gadget_layout (keySwitchParameters p)
    @ [word_of_int (bootstrapOrder p)]"

definition fits_int64 :: "'a::len Parameters \<Rightarrow> bool" where
  "fits_int64 p =
    (int64_range (lweDimension p) \<and> int64_range (glweRank p) \<and> int64_range (polyDegree p)
     \<and> int64_range (lookUpTableSize p) \<and> int64_range (blockSize p)
     \<and> int64_range (level (blindRotateParameters p))
     \<and> int64_range (level (keySwitchParameters p)))"

lemma length_gadget_layout: "length (gadget_layout g) = 16"
  by (simp add: gadget_layout_def length_PutUint64)

lemma length_parameters_layout: "length (parameters_layout p) = 97"
  by (simp add: parameters_layout_def length_PutUint64 length_gadget_layout)

lemma Parameters_WriteTo_eq:
  "Parameters_WriteTo p w = (w @ parameters_layout p, 97, None)"
  by (simp add: Parameters_WriteTo_def GadgetParameters_WriteTo_eq Parameters_ByteSize_def
      GadgetParameters_ByteSize_def parameters_layout_def gadget_layout_def Let_def)

lemma Parameters_ReadFrom_written:
  fixes p :: "'a::len Parameters"
  assumes c: "ParametersLiteral_Compile lit = Inr p"
    and len: "LENGTH('a) \<le> 64" and rng: "fits_int64 p"
  shows "Parameters_ReadFrom (parameters_layout p @ rest) = ReadOK p 97 rest"
proof -
  note g = compiled_gadgets [OF c]
  from rng have r: "int64_range (lweDimension p)" "int64_range (glweRank p)"
      "int64_range (polyDegree p)" "int64_range (lookUpTableSize p)" "int64_range (blockSize p)"
      "int64_range (level (blindRotateParameters p))" "int64_range (level (keySwitchParameters p))"
    by (simp_all add: fits_int64_def)
  have br: "\<And>rest. GadgetParameters_ReadFrom (gadget_layout (blindRotateParameters p) @ rest)
      = ReadOK (blindRotateParameters p) 16 rest"
    using GadgetParameters_ReadFrom_written [OF g(1) len r(6)] by (simp add: gadget_layout_def)
  have ks: "\<And>rest. GadgetParameters_ReadFrom (gadget_layout (keySwitchParameters p) @ rest)
      = ReadOK (keySwitchParameters p) 16 rest"
    using GadgetParameters_ReadFrom_written [OF g(2) len r(7)] by (simp add: gadget_layout_def)
  have lit': "\<lparr> LWEDimension = sint (word_of_int (lweDimension p) :: 64 word),
            GLWERank = sint (word_of_int (glweRank p) :: 64 word),
            PolyDegree = sint (word_of_int (polyDegree p) :: 64 word),
            LookUpTableSize = sint (word_of_int (lookUpTableSize p) :: 64 word),
            LWEStdDev = lweStdDev p, GLWEStdDev = glweStdDev p,
            BlockSize = sint (word_of_int (blockSize p) :: 64 word),
            MessageModulus = (ucast (ucast (messageModulus p) :: 64 word) :: 'a word),
            BlindRotateParameters = GadgetParameters_Literal (blindRotateParameters p),
            KeySwitchParameters = GadgetParameters_Literal (keySwitchParameters p),
            BootstrapOrder = uint (word_of_int (bootstrapOrder p) :: byte) \<rparr>
        = Parameters_Literal p"
    using r compiled_order [OF c]
    by (simp add: Parameters_Literal_def sint_word_of_int_64 ucast_ucast_64 [OF len] order_byte)
  show ?thesis
    unfolding Parameters_ReadFrom_def parameters_layout_def
    by (simp add: br ks lit' Compile_Literal [OF c])
qed

text \<open>
  Claim C7, amended. For \<open>T\<close> uint32 or uint64, every compiled \<open>Parameters\<close> value and every
  compiled \<open>GadgetParameters\<close> value (one that \<open>Compile\<close> has returned) whose int fields
  are Go ints (they lie in the 64-bit range) is written by \<open>WriteTo\<close> without error as
  exactly 97 bytes (eight big-endian u64 header fields, two 16-byte gadget blocks of
  big-endian base and level, one byte for the bootstrap order), resp. exactly 16 bytes,
  and \<open>ReadFrom\<close> on these bytes returns the same value, having consumed all of them.
\<close>

theorem WriteTo_ReadFrom_round_trip:
  fixes p :: "'a::len Parameters" and g :: "'a GadgetParameters"
  assumes "LENGTH('a) = 32 \<or> LENGTH('a) = 64"
    and "ParametersLiteral_Compile lit = Inr p"
    and "GadgetParametersLiteral_Compile glit = Inr g"
    and "fits_int64 p" and "int64_range (level g)"
  shows "GadgetParameters_WriteTo g [] = (gadget_layout g, 16, None)
    \<and> length (gadget_layout g) = 16
    \<and> GadgetParameters_ReadFrom (gadget_layout g) = ReadOK g 16 []
    \<and> Parameters_WriteTo p [] = (parameters_layout p, 97, None)
    \<and> length (parameters_layout p) = 97
    \<and> Parameters_ReadFrom (parameters_layout p) = ReadOK p 97 []"
proof -
  from assms(1) have len: "LENGTH('a) \<le> 64" by auto
  have "GadgetParameters_ReadFrom (gadget_layout g) = ReadOK g 16 []"
    using GadgetParameters_ReadFrom_written [OF assms(3) len assms(5), of "[]"]
    by (simp add: gadget_layout_def)
  moreover have "Parameters_ReadFrom (parameters_layout p) = ReadOK p 97 []"
    using Parameters_ReadFrom_written [OF assms(2) len assms(4), of "[]"] by simp
  moreover have "GadgetParameters_WriteTo g [] = (gadget_layout g, 16, None)"
    by (simp add: GadgetParameters_WriteTo_eq gadget_layout_def)
  ultimately show ?thesis
    by (simp add: Parameters_WriteTo_eq length_gadget_layout length_parameters_layout)
qed

lemma compiled_int_fields:
  assumes "ParametersLiteral_Compile lit = Inr p"
  shows "lweDimension p = LWEDimension lit" "glweRank p = GLWERank lit"
    "polyDegree p = PolyDegree lit"
    "lookUpTableSize p = LookUpTableSize (apply_defaults lit)"
    "blockSize p = BlockSize (apply_defaults lit)"
    "messageModulus p = MessageModulus lit"
  using assms
  by (auto simp: ParametersLiteral_Compile_def Let_def split: option.splits sum.splits)

lemma ParamsEBS5_compiles: "\<exists>q. ParametersLiteral_Compile ParamsEBS5 = Inr q"
proof -
  have e: "ParamsEBS5\<lparr>BlockSize := 1\<rparr> = ParamsEBS5" by (simp add: ParamsEBS5_def)
  have l: "LENGTH(64) = 32 \<or> LENGTH(64) = 64" by simp
  have "compile_invariants (apply_defaults (ParamsEBS5\<lparr>BlockSize := 1\<rparr>))"
    by (simp add: ParamsEBS5_defaults compile_invariants_def ParamsEBS5_claimed)
  then show ?thesis
    using Compile_ok_iff [OF l ParamsEBS5_no_overflow [of 1]] unfolding e by blast
qed

theorem WriteTo_ReadFrom_round_trip_witness:
  "\<exists>p g. ParametersLiteral_Compile ParamsEBS5 = Inr p
     \<and> GadgetParametersLiteral_Compile (KeySwitchParameters ParamsEBS5) = Inr g
     \<and> fits_int64 p \<and> int64_range (level g)
     \<and> GadgetParameters_ReadFrom (gadget_layout g) = ReadOK g 16 []
     \<and> length (parameters_layout p) = 97
     \<and> Parameters_ReadFrom (parameters_layout p) = ReadOK p 97 []"
proof -
  from ParamsEBS5_compiles obtain p where p: "ParametersLiteral_Compile ParamsEBS5 = Inr p"
    by blast
  note g = compiled_gadgets [OF p]
  note f = compiled_int_fields [OF p]
  have lv: "level (blindRotateParameters p) = 1" "level (keySwitchParameters p) = 3"
    using gadget_compiled_fields(2) [OF g(1)] gadget_compiled_fields(2) [OF g(2)]
    by (simp_all add: ParamsEBS5_fields)
  have fit: "fits_int64 p"
    by (simp add: fits_int64_def f lv ParamsEBS5_fields int64_range_def)
  have r: "int64_range (level (keySwitchParameters p))"
    by (simp add: lv int64_range_def)
  have l: "LENGTH(64) = 32 \<or> LENGTH(64) = 64" by simp
  from WriteTo_ReadFrom_round_trip [OF l p g(2) fit r] p g(2) fit r
  show ?thesis by blast
qed

text \<open>
  Claim C7 as stated fails for a \<open>GadgetParameters\<close> value that \<open>Compile\<close> has not
  returned: the zero value is written without error as 16 zero bytes, and \<open>ReadFrom\<close> on
  these bytes panics in \<open>Compile\<close> with \<open>Base smaller than two\<close>.
\<close>

theorem GadgetParameters_zero_value_counterexample:
  "GadgetParameters_WriteTo (\<lparr> base = 0, logBase = 0, level = 0, sizeT = 0 \<rparr> :: 64 GadgetParameters) []
     = (replicate 16 0, 16, None)
   \<and> GadgetParameters_ReadFrom (replicate 16 0)
     = (ReadPanic (Panic ''Base smaller than two'') :: 64 GadgetParameters read_result)"
proof -
  have z: "replicate 16 (0 :: byte) = PutUint64 0 @ PutUint64 0"
    by (simp add: PutUint64_def numeral_eq_Suc)
  have w: "GadgetParameters_WriteTo (\<lparr> base = 0, logBase = 0, level = 0, sizeT = 0 \<rparr> :: 64 GadgetParameters) []
     = (replicate 16 0, 16, None)"
    unfolding z by (simp add: GadgetParameters_WriteTo_eq)
  have "GadgetParameters_ReadFrom (PutUint64 0 @ PutUint64 0 @ [])
     = (ReadPanic (Panic ''Base smaller than two'') :: 64 GadgetParameters read_result)"
    unfolding GadgetParameters_ReadFrom_def
    by (simp add: GadgetParametersLiteral_Compile_def read_u64_PutUint64 [of _ "[]", simplified])
  with w show ?thesis unfolding z by simp
qed

section \<open>Recursive negacyclic LUT decomposition\<close>

text \<open>
  The decomposition loop of \<open>GenLookUpTableNegDecomposedEBSFullAssign\<close>, which
  \<open>GenLookUpTableNegDecomposedFullAssign\<close> repeats line by line: \<open>logExtendFactor\<close>
  rounds that each append one negative table and halve the current one.
  \<open>decompose_loop i cur negs\<close> runs the \<open>i\<close> rounds still to go.
\<close>

fun decompose_loop ::
  "nat \<Rightarrow> 'a::len word list \<Rightarrow> 'a word list list \<Rightarrow> 'a word list list \<times> 'a word list" where
  "decompose_loop 0 currentFuncEval decomposedNegFuncEval =
     (decomposedNegFuncEval, currentFuncEval)"
| "decompose_loop (Suc i) currentFuncEval decomposedNegFuncEval =
     (let n = length currentFuncEval div 2;
          newFuncEval = map (\<lambda>j. currentFuncEval ! j div 2 + currentFuncEval ! (j + n) div 2) [0..<n];
          negFuncEval = map (\<lambda>j. currentFuncEval ! j div 2 - currentFuncEval ! (j + n) div 2) [0..<n]
      in decompose_loop i newFuncEval (decomposedNegFuncEval @ [negFuncEval]))"

text \<open>\<open>int(math.Log2(float64(lookUpTableSize / 2048)))\<close>: \<open>math.Log2\<close> is exact on powers
  of two, where it is the exponent; the quotient is a power of two for every table size
  \<open>2048 * 2 ^ k\<close>.\<close>

definition logExtendFactor :: "'a::len Parameters \<Rightarrow> nat" where
  "logExtendFactor p = log2_nat (nat (lookUpTableSize p sdiv 2048))"

text \<open>The identity of the new table as the specification words it: the sum is halved.\<close>

definition claimed_new :: "'a::len word list \<Rightarrow> 'a word list" where
  "claimed_new cur = map (\<lambda>j. (cur ! j + cur ! (j + length cur div 2)) div 2) [0..<length cur div 2]"

text \<open>The identities of the code: each operand is halved first, then the halves are
  added or subtracted with wrap-around.\<close>

definition halve_sum :: "'a::len word list \<Rightarrow> 'a word list" where
  "halve_sum cur = map (\<lambda>j. cur ! j div 2 + cur ! (j + length cur div 2) div 2) [0..<length cur div 2]"

definition halve_diff :: "'a::len word list \<Rightarrow> 'a word list" where
  "halve_diff cur = map (\<lambda>j. cur ! j div 2 - cur ! (j + length cur div 2) div 2) [0..<length cur div 2]"

lemma decompose_loop_acc:
  "decompose_loop k cur negs =
     (negs @ map (\<lambda>i. halve_diff ((halve_sum ^^ i) cur)) [0..<k], (halve_sum ^^ k) cur)"
proof (induction k arbitrary: cur negs)
  case 0
  show ?case by simp
next
  case (Suc k)
  have "map (\<lambda>i. halve_diff ((halve_sum ^^ i) cur)) [0..<Suc k]
      = halve_diff cur # map (\<lambda>i. halve_diff ((halve_sum ^^ i) (halve_sum cur))) [0..<k]"
  proof -
    have "[Suc 0..<Suc k] = map Suc [0..<k]" by (simp only: map_Suc_upt)
    then show ?thesis
      by (simp add: upt_rec [of 0 "Suc k"] funpow_swap1 o_def del: upt_Suc)
  qed
  then show ?case
    using Suc.IH [of "halve_sum cur" "negs @ [halve_diff cur]"]
    by (simp add: Let_def halve_sum_def [symmetric] halve_diff_def [symmetric] funpow_swap1 del: upt_Suc)
qed

lemma length_halve_sum [simp]: "length (halve_sum cur) = length cur div 2"
  by (simp add: halve_sum_def)

lemma length_halve_diff [simp]: "length (halve_diff cur) = length cur div 2"
  by (simp add: halve_diff_def)

lemma length_funpow_halve_sum: "length ((halve_sum ^^ i) cur) = length cur div 2 ^ i"
  by (induction i) (simp_all add: div_mult2_eq [symmetric] mult.commute)


text \<open>The value of \<open>ParamsEBS5.Compile()\<close>.\<close>

definition CompiledEBS5 :: "64 Parameters" where
  "CompiledEBS5 =
    \<lparr> lweDimension = 1160, glweDimension = 2048, glweRank = 1, polyDegree = 2048,
      logPolyDegree = 11, lookUpTableSize = 4096, polyExtendFactor = 2,
      lweStdDev = 0x3E2FD22CFDEB9769, glweStdDev = 0x3CB905C5A891BF8C,
      blockSize = 1, blockCount = 1160, messageModulus = 32, scale = push_bit 59 1,
      logQ = 64, floatQ = 0x43F0000000000000,
      blindRotateParameters = \<lparr> base = push_bit 22 1, logBase = 22, level = 1, sizeT = 64 \<rparr>,
      keySwitchParameters = \<lparr> base = push_bit 7 1, logBase = 7, level = 3, sizeT = 64 \<rparr>,
      bootstrapOrder = OrderKeySwitchBlindRotate \<rparr>"

lemma IsPowerOfTwo_consts: "IsPowerOfTwo 2048" "IsPowerOfTwo 4194304" "IsPowerOfTwo 128"
  unfolding IsPowerOfTwo_def
  by (rule bexI [of _ 11], simp, simp) (rule bexI [of _ 22], simp, simp, rule bexI [of _ 7], simp, simp)

lemma ParamsEBS5_gadget_compile:
  "GadgetParametersLiteral_Compile (BlindRotateParameters ParamsEBS5)
     = Inr \<lparr> base = push_bit 22 1, logBase = 22, level = 1, sizeT = 64 \<rparr>"
  "GadgetParametersLiteral_Compile (KeySwitchParameters ParamsEBS5)
     = Inr \<lparr> base = push_bit 7 1, logBase = 7, level = 3, sizeT = 64 \<rparr>"
  by (simp_all add: GadgetParametersLiteral_Compile_def ParamsEBS5_fields IsPowerOfTwo_consts
      Log2_consts SizeT_def wrap64_id int64_range_def)

lemma ParamsEBS5_Compile: "ParametersLiteral_Compile ParamsEBS5 = Inr CompiledEBS5"
proof -
  have d: "apply_defaults ParamsEBS5 = ParamsEBS5"
    using ParamsEBS5_defaults [of 1] by (simp add: ParamsEBS5_def)
  have w: "wrap64 2048 = 2048" by (rule wrap64_id) (simp add: int64_range_def)
  have z: "\<not> f64_le_zero 0x3E2FD22CFDEB9769" "\<not> f64_le_zero 0x3CB905C5A891BF8C"
    by code_simp+
  have c: "compile_checks ParamsEBS5 = None"
    by (simp add: compile_checks_def ParamsEBS5_fields w z IsPowerOfTwo_consts
        OrderKeySwitchBlindRotate_def OrderBlindRotateKeySwitch_def smod_pos)
  have s: "DivRoundT 9223372036854775808 (32 :: 64 word) * 2 = 576460752303423488"
    by (simp add: DivRoundT_def DivRound_def)
  have q: "f64_exp2 64 = 0x43F0000000000000" by (simp add: f64_exp2_def)
  show ?thesis
    unfolding ParametersLiteral_Compile_def d Let_def c ParamsEBS5_gadget_compile
    by (simp add: ParamsEBS5_fields CompiledEBS5_def w Log2_consts sdiv_pos SizeT_def s q
        OrderKeySwitchBlindRotate_def)
qed


lemma CompiledEBS5_fields:
  "lookUpTableSize CompiledEBS5 = 4096" "polyDegree CompiledEBS5 = 2048"
  "polyExtendFactor CompiledEBS5 = 2" "messageModulus CompiledEBS5 = 32"
  "blockSize CompiledEBS5 = 1" "blockCount CompiledEBS5 = 1160"
  "lweDimension CompiledEBS5 = 1160" "glweRank CompiledEBS5 = 1"
  "glweDimension CompiledEBS5 = 2048" "logPolyDegree CompiledEBS5 = 11"
  by (simp_all add: CompiledEBS5_def)

lemma logExtendFactor_pow:
  assumes "lookUpTableSize p = 2048 * 2 ^ k"
  shows "logExtendFactor p = k"
proof -
  have "(2048 * 2 ^ k :: int) sdiv 2048 = 2 ^ k" by (simp add: sdiv_pos)
  then show ?thesis by (simp add: logExtendFactor_def assms nat_power_eq log2_nat_pow)
qed

lemma halve_sum_nth:
  "j < length cur div 2 \<Longrightarrow> halve_sum cur ! j = cur ! j div 2 + cur ! (j + length cur div 2) div 2"
  by (simp add: halve_sum_def)

lemma halve_diff_nth:
  "j < length cur div 2 \<Longrightarrow> halve_diff cur ! j = cur ! j div 2 - cur ! (j + length cur div 2) div 2"
  by (simp add: halve_diff_def)

lemma upt_small: "[0..<2] = [0, Suc 0]" "[0..<Suc 0] = [0]"
  by (simp_all add: upt_rec)

section \<open>Compress LUT: the fill stage\<close>

text \<open>\<open>int(x)\<close> for \<open>x\<close> of type \<open>T\<close>.\<close>

definition to_int :: "'a::len word \<Rightarrow> int" where
  "to_int x = wrap64 (uint x)"

text \<open>The codeword written by both compress-LUT builders:
  \<open>(T(1)<<63/m)*x + (T(1)<<62/m)\<close>. Shift and division bind alike and associate to the
  left; a shift of a \<open>T\<close> value by its width or more gives zero.\<close>

definition compress_codeword :: "'a::len word \<Rightarrow> 'a word \<Rightarrow> 'a word" where
  "compress_codeword m x = (push_bit 63 1 div m) * x + (push_bit 62 1 div m)"

text \<open>The codeword of the specification: \<open>(Q/(2m)) * x + Q/(4m)\<close> with \<open>Q = 2 ^ LENGTH('a)\<close>.\<close>

definition claimed_codeword :: "'a::len word \<Rightarrow> 'a word \<Rightarrow> 'a word" where
  "claimed_codeword m x =
    word_of_int ((2 ^ LENGTH('a) div (2 * uint m)) * uint x + 2 ^ LENGTH('a) div (4 * uint m))"

text \<open>\<open>for xx := start; xx < end; xx++ { lutRaw[xx] = y }\<close>, with the index check of
  every store.\<close>

function fill_run :: "'a list \<Rightarrow> int \<Rightarrow> int \<Rightarrow> 'a \<Rightarrow> panic + 'a list" where
  "fill_run lutRaw xx end' y =
    (if xx < end' then
       (if 0 \<le> xx \<and> xx < int (length lutRaw)
        then fill_run (lutRaw[nat xx := y]) (xx + 1) end' y
        else Inl (IndexOutOfRange xx (int (length lutRaw))))
     else Inr lutRaw)"
  by pat_completeness auto
termination
  by (relation "measure (\<lambda>(lutRaw, xx, end', y). nat (end' - xx))") auto

declare fill_run.simps [simp del]

text \<open>The loop over \<open>x\<close>, from \<open>T(0)\<close> while \<open>x < m/2\<close>; \<open>xs\<close> are the values of \<open>x\<close>
  still to come.\<close>

fun compress_loop :: "int \<Rightarrow> 'a::len word \<Rightarrow> 'a word list \<Rightarrow> 'a word list \<Rightarrow> panic + 'a word list" where
  "compress_loop sz m [] lutRaw = Inr lutRaw"
| "compress_loop sz m (x # xs) lutRaw =
    (let start = DivRound (wrap64 (2 * to_int x * sz)) (to_int m);
         end' = DivRound (wrap64 (2 * (to_int x + 1) * sz)) (to_int m)
     in case fill_run lutRaw start end' (compress_codeword m x) of
          Inl e \<Rightarrow> Inl e
        | Inr lutRaw' \<Rightarrow> compress_loop sz m xs lutRaw')"

definition compress_fill :: "int \<Rightarrow> 'a::len word \<Rightarrow> 'a word list \<Rightarrow> panic + 'a word list" where
  "compress_fill sz m lutRaw =
    compress_loop sz m (map word_of_nat [0..<unat (m div 2)]) lutRaw"

text \<open>\<open>GenCompressLUTAssign\<close> fills a fresh slice of the fixed length 2048;
  \<open>GenExtendedCompressLUTAssign\<close> fills the evaluator's buffer \<open>lutRaw\<close> up to the
  look-up-table size.\<close>

definition GenCompressLUT_fill :: "'a::len Parameters \<Rightarrow> panic + 'a word list" where
  "GenCompressLUT_fill p = compress_fill 2048 (messageModulus p) (replicate 2048 0)"

definition GenExtendedCompressLUT_fill :: "'a::len Parameters \<Rightarrow> 'a word list \<Rightarrow> panic + 'a word list" where
  "GenExtendedCompressLUT_fill p lutRaw = compress_fill (lookUpTableSize p) (messageModulus p) lutRaw"

lemma push_bit_beyond_32: "push_bit 63 (1 :: 32 word) = 0" "push_bit 62 (1 :: 32 word) = 0"
  by simp_all

lemma compress_codeword_32: "compress_codeword (m :: 32 word) x = 0"
  unfolding compress_codeword_def push_bit_beyond_32 by simp

lemma claimed_32_example: "claimed_codeword (4 :: 32 word) 1 = 805306368"
  by (simp add: claimed_codeword_def)


lemma word64_div_const:
  "(9223372036854775808 :: 64 word) div m = word_of_int (2 ^ 63 div uint m)"
  "(4611686018427387904 :: 64 word) div m = word_of_int (2 ^ 62 div uint m)"
  by (simp_all add: word_div_def)

lemma compress_codeword_64:
  "compress_codeword (m :: 64 word) x = claimed_codeword m x"
proof -
  have a: "(2 ^ 64 :: int) div (2 * uint m) = 2 ^ 63 div uint m"
    by (simp add: zdiv_zmult2_eq)
  have b: "(2 ^ 64 :: int) div (4 * uint m) = 2 ^ 62 div uint m"
    by (simp add: zdiv_zmult2_eq)
  have "compress_codeword m x
      = word_of_int (2 ^ 63 div uint m) * word_of_int (uint x) + word_of_int (2 ^ 62 div uint m)"
    unfolding compress_codeword_def by (simp add: word64_div_const)
  also have "\<dots> = word_of_int (2 ^ 63 div uint m * uint x + 2 ^ 62 div uint m)"
    by (simp only: of_int_mult of_int_add)
  finally show ?thesis unfolding claimed_codeword_def a b by simp
qed


text \<open>A small parameter set over uint32, and its compiled value.\<close>

definition ParamsSmall32 :: "32 ParametersLiteral" where
  "ParamsSmall32 =
    \<lparr> LWEDimension = 2, GLWERank = 1, PolyDegree = 4, LookUpTableSize = 8,
      LWEStdDev = 0x3E2FD22CFDEB9769, GLWEStdDev = 0x3CB905C5A891BF8C,
      BlockSize = 1, MessageModulus = 4,
      BlindRotateParameters = \<lparr> Base = 4, Level = 1 \<rparr>,
      KeySwitchParameters = \<lparr> Base = 4, Level = 1 \<rparr>,
      BootstrapOrder = OrderKeySwitchBlindRotate \<rparr>"

definition CompiledSmall32 :: "32 Parameters" where
  "CompiledSmall32 =
    \<lparr> lweDimension = 2, glweDimension = 4, glweRank = 1, polyDegree = 4,
      logPolyDegree = 2, lookUpTableSize = 8, polyExtendFactor = 2,
      lweStdDev = 0x3E2FD22CFDEB9769, glweStdDev = 0x3CB905C5A891BF8C,
      blockSize = 1, blockCount = 2, messageModulus = 4, scale = push_bit 30 1,
      logQ = 32, floatQ = 0x41F0000000000000,
      blindRotateParameters = \<lparr> base = 4, logBase = 2, level = 1, sizeT = 32 \<rparr>,
      keySwitchParameters = \<lparr> base = 4, logBase = 2, level = 1, sizeT = 32 \<rparr>,
      bootstrapOrder = OrderKeySwitchBlindRotate \<rparr>"

lemma ParamsSmall32_Compile: "ParametersLiteral_Compile ParamsSmall32 = Inr CompiledSmall32"
proof -
  have d: "apply_defaults ParamsSmall32 = ParamsSmall32"
    by (simp add: apply_defaults_def ParamsSmall32_def)
  have w: "wrap64 4 = 4" "wrap64 2 = 2" by (simp_all add: wrap64_id int64_range_def)
  have z: "\<not> f64_le_zero 0x3E2FD22CFDEB9769" "\<not> f64_le_zero 0x3CB905C5A891BF8C"
    by code_simp+
  have p: "IsPowerOfTwo 4" unfolding IsPowerOfTwo_def by (rule bexI [of _ 2]) simp_all
  have l: "Log2 4 = 2" using Log2_pow [of 2] by simp
  have c: "compile_checks ParamsSmall32 = None"
    by (simp add: compile_checks_def ParamsSmall32_def w z p
        OrderKeySwitchBlindRotate_def OrderBlindRotateKeySwitch_def smod_pos)
  have g: "GadgetParametersLiteral_Compile \<lparr> Base = 4 :: 32 word, Level = 1 \<rparr>
      = Inr \<lparr> base = 4, logBase = 2, level = 1, sizeT = 32 \<rparr>"
    by (simp add: GadgetParametersLiteral_Compile_def p l SizeT_def w)
  have s: "DivRoundT 2147483648 (4 :: 32 word) * 2 = 1073741824"
    by (simp add: DivRoundT_def DivRound_def)
  have q: "f64_exp2 32 = 0x41F0000000000000" by (simp add: f64_exp2_def)
  have b: "BlindRotateParameters ParamsSmall32 = \<lparr> Base = 4, Level = 1 \<rparr>"
    "KeySwitchParameters ParamsSmall32 = \<lparr> Base = 4, Level = 1 \<rparr>"
    by (simp_all add: ParamsSmall32_def)
  show ?thesis
    unfolding ParametersLiteral_Compile_def d Let_def c b g
    by (simp add: ParamsSmall32_def CompiledSmall32_def w l sdiv_pos SizeT_def s q
        OrderKeySwitchBlindRotate_def)
qed

lemma CompiledSmall32_fields:
  "lookUpTableSize CompiledSmall32 = 8" "messageModulus CompiledSmall32 = 4"
  "polyDegree CompiledSmall32 = 4"
  by (simp_all add: CompiledSmall32_def)

lemma DivRound_small: "DivRound 0 4 = 0" "DivRound 16 4 = 4" "DivRound 32 4 = 8"
  by (simp_all add: DivRound_def)

lemma fill_run_four:
  "fill_run [a0, a1, a2, a3, a4, a5, a6, a7] 0 4 y = Inr [y, y, y, y, a4, a5, a6, a7]"
  "fill_run [a0, a1, a2, a3, a4, a5, a6, a7] 4 8 y = Inr [a0, a1, a2, a3, y, y, y, y]"
  by (simp_all add: fill_run.simps)

text \<open>
  Claim C8 at \<open>T = uint32\<close>, message modulus 4, table size 8: the fill stage of
  \<open>GenExtendedCompressLUTAssign\<close> overwrites both runs with zero, because \<open>T(1)<<63\<close> and
  \<open>T(1)<<62\<close> are zero in 32 bits, whereas the codeword \<open>(Q/(2m)) * x + Q/(4m)\<close> for
  \<open>x = 1\<close> and \<open>Q = 2^32\<close> is \<open>805306368\<close>. For \<open>T = uint64\<close> the code's codeword is the
  claimed one (\<open>compress_codeword_64\<close>).
\<close>

theorem GenExtendedCompressLUT_fill_uint32:
  "GenExtendedCompressLUT_fill CompiledSmall32 [7, 7, 7, 7, 7, 7, 7, 7] = Inr [0, 0, 0, 0, 0, 0, 0, 0]
   \<and> claimed_codeword (messageModulus CompiledSmall32) 1 = 805306368"
proof -
  have x: "map word_of_nat [0..<unat ((4 :: 32 word) div 2)] = [0, 1 :: 32 word]"
    by (simp add: upt_small)
  have t: "to_int (0 :: 32 word) = 0" "to_int (1 :: 32 word) = 1" "to_int (4 :: 32 word) = 4"
    by (simp_all add: to_int_def wrap64_id int64_range_def)
  have w: "wrap64 0 = 0" "wrap64 16 = 16" "wrap64 32 = 32"
    by (simp_all add: wrap64_id int64_range_def)
  have "compress_fill 8 (4 :: 32 word) [7, 7, 7, 7, 7, 7, 7, 7] = Inr [0, 0, 0, 0, 0, 0, 0, 0]"
    unfolding compress_fill_def x
    by (simp add: t w DivRound_small fill_run_four compress_codeword_32)
  then show ?thesis
    by (simp add: GenExtendedCompressLUT_fill_def CompiledSmall32_fields claimed_32_example)
qed

section \<open>The recursive full-domain bootstrap\<close>

text \<open>
  The orchestrator is modelled over symbolic ciphertexts: a buffer holds the expression
  that computed its contents, and the evaluator state records the calls made, in order.
  The callees (\<open>KeySwitchForBootstrapAssign\<close>, the three blind rotations, \<open>AddGLWEAssign\<close>,
  \<open>ToLWECiphertextAssign\<close>) overwrite their output buffer whole and are taken to return
  on the buffers the evaluator allocates; the one failure kept of them is the division by
  \<open>2 * polyDegree * extendedFactor\<close> at the head of \<open>blindRotateArbitraryExtendedAssign\<close>.
\<close>

datatype lut = lutCompress | decomposedLUT nat

datatype ctval =
    ct
  | Unset
  | KeySwitchForBootstrap ctval
  | blindRotateArbitraryExtended ctval lut int
  | blindRotateLUTCompress ctval lut
  | blindRotateBaseLUT ctval lut
  | AddGLWE ctval ctval
  | ToLWECiphertext nat ctval

datatype call =
    CallKeySwitchForBootstrap
  | CallBlindRotateArbitraryExtended lut int
  | CallBlindRotateLUTCompress lut
  | CallBlindRotateBaseLUT lut
  | CallAddGLWE
  | CallToLWECiphertext nat

record evaluationBuffer =
  ctKeySwitchForBootstrap :: ctval
  ctRotate :: ctval
  ctEBSAcc :: ctval
  ctLWEExtracted :: ctval
  ctOut :: ctval
  calls :: "call list"

text \<open>\<open>1 << k\<close> on a Go \<open>int\<close>: zero from 64 bits on, negative at 63.\<close>

definition shl1 :: "nat \<Rightarrow> int" where
  "shl1 k = (if 64 \<le> k then 0 else wrap64 (2 ^ k))"

definition blindRotateArbitraryExtendedAssign ::
  "'a::len Parameters \<Rightarrow> ctval \<Rightarrow> lut \<Rightarrow> int \<Rightarrow> evaluationBuffer
    \<Rightarrow> panic + (ctval \<times> evaluationBuffer)" where
  "blindRotateArbitraryExtendedAssign p c l extendedFactor b =
    (if wrap64 (2 * wrap64 (polyDegree p * extendedFactor)) = 0 then Inl DivideByZero
     else Inr (blindRotateArbitraryExtended c l extendedFactor,
               b\<lparr>calls := calls b @ [CallBlindRotateArbitraryExtended l extendedFactor]\<rparr>))"

text \<open>The loop \<open>for i := 1; i < len(decomposedLUT)-1; i++\<close> of
  \<open>BlindRotateExtendedFullDomainAssignNew\<close>; its output \<open>ctOut\<close> is the buffer \<open>ctRotate\<close>
  and its input \<open>ct\<close> the buffer \<open>ctKeySwitchForBootstrap\<close>.\<close>

fun negLUT_loop :: "'a::len Parameters \<Rightarrow> nat list \<Rightarrow> evaluationBuffer \<Rightarrow> panic + evaluationBuffer" where
  "negLUT_loop p [] b = Inr b"
| "negLUT_loop p (i # is) b =
    (if shl1 (i + 1) = 0 then Inl DivideByZero
     else
       case blindRotateArbitraryExtendedAssign p (ctKeySwitchForBootstrap b) (decomposedLUT i)
              (polyExtendFactor p sdiv shl1 (i + 1)) b of
         Inl e \<Rightarrow> Inl e
       | Inr (v, b1) \<Rightarrow>
           let b2 = b1\<lparr>ctEBSAcc := v\<rparr>;
               b3 = b2\<lparr>ctRotate := AddGLWE (ctEBSAcc b2) (ctRotate b2),
                        calls := calls b2 @ [CallAddGLWE]\<rparr>
           in negLUT_loop p is b3)"

definition BlindRotateExtendedFullDomainAssignNew ::
  "'a::len Parameters \<Rightarrow> nat \<Rightarrow> evaluationBuffer \<Rightarrow> panic + evaluationBuffer" where
  "BlindRotateExtendedFullDomainAssignNew p len b =
    (if len = 0 then Inl (IndexOutOfRange 0 0)
     else
       case blindRotateArbitraryExtendedAssign p (ctKeySwitchForBootstrap b) (decomposedLUT 0)
              (polyExtendFactor p sdiv 2) b of
         Inl e \<Rightarrow> Inl e
       | Inr (v, b1) \<Rightarrow>
          (case negLUT_loop p [1..<len - 1] (b1\<lparr>ctRotate := v\<rparr>) of
             Inl e \<Rightarrow> Inl e
           | Inr b2 \<Rightarrow>
               let b3 = b2\<lparr>ctEBSAcc := blindRotateLUTCompress (ctKeySwitchForBootstrap b2) lutCompress,
                            calls := calls b2 @ [CallBlindRotateLUTCompress lutCompress]\<rparr>;
                   b4 = b3\<lparr>ctLWEExtracted := ToLWECiphertext 0 (ctEBSAcc b3),
                            calls := calls b3 @ [CallToLWECiphertext 0]\<rparr>;
                   b5 = b4\<lparr>ctKeySwitchForBootstrap := KeySwitchForBootstrap (ctLWEExtracted b4),
                            calls := calls b4 @ [CallKeySwitchForBootstrap]\<rparr>;
                   b6 = b5\<lparr>ctEBSAcc := blindRotateBaseLUT (ctKeySwitchForBootstrap b5)
                                          (decomposedLUT (len - 1)),
                            calls := calls b5 @ [CallBlindRotateBaseLUT (decomposedLUT (len - 1))]\<rparr>;
                   b7 = b6\<lparr>ctRotate := AddGLWE (ctEBSAcc b6) (ctRotate b6),
                            calls := calls b6 @ [CallAddGLWE]\<rparr>
               in Inr b7))"

definition BootstrapExtendedFullDomainAssignNew ::
  "'a::len Parameters \<Rightarrow> nat \<Rightarrow> evaluationBuffer \<Rightarrow> panic + evaluationBuffer" where
  "BootstrapExtendedFullDomainAssignNew p len b =
    (let b1 = b\<lparr>ctKeySwitchForBootstrap := KeySwitchForBootstrap ct,
                 calls := calls b @ [CallKeySwitchForBootstrap]\<rparr>
     in case BlindRotateExtendedFullDomainAssignNew p len b1 of
          Inl e \<Rightarrow> Inl e
        | Inr b2 \<Rightarrow> Inr (b2\<lparr>ctOut := ToLWECiphertext 0 (ctRotate b2),
                             calls := calls b2 @ [CallToLWECiphertext 0]\<rparr>))"

text \<open>The sequence of the specification: steps (i) to (iii) are \<open>rotate_calls\<close>, step (iv)
  the final extraction. \<open>output_of c e len\<close> is the value these steps leave in the output
  when the blind rotations of (i), (ii) and the compress rotation of (iii) read \<open>c\<close>.\<close>

definition rotate_calls :: "int \<Rightarrow> nat \<Rightarrow> call list" where
  "rotate_calls e len =
    [CallBlindRotateArbitraryExtended (decomposedLUT 0) (e div 2)]
    @ concat (map (\<lambda>k. [CallBlindRotateArbitraryExtended (decomposedLUT k) (e div 2 ^ (k + 1)),
                         CallAddGLWE]) [1..<len - 1])
    @ [CallBlindRotateLUTCompress lutCompress, CallToLWECiphertext 0, CallKeySwitchForBootstrap,
       CallBlindRotateBaseLUT (decomposedLUT (len - 1)), CallAddGLWE]"

definition claimed_calls :: "int \<Rightarrow> nat \<Rightarrow> call list" where
  "claimed_calls e len = rotate_calls e len @ [CallToLWECiphertext 0]"

fun accumulated :: "ctval \<Rightarrow> int \<Rightarrow> nat \<Rightarrow> ctval" where
  "accumulated c e 0 = blindRotateArbitraryExtended c (decomposedLUT 0) (e div 2)"
| "accumulated c e (Suc k) =
    AddGLWE (blindRotateArbitraryExtended c (decomposedLUT (Suc k)) (e div 2 ^ (Suc k + 1)))
            (accumulated c e k)"

definition output_of :: "ctval \<Rightarrow> int \<Rightarrow> nat \<Rightarrow> ctval" where
  "output_of c e len =
    ToLWECiphertext 0
      (AddGLWE
        (blindRotateBaseLUT
           (KeySwitchForBootstrap (ToLWECiphertext 0 (blindRotateLUTCompress c lutCompress)))
           (decomposedLUT (len - 1)))
        (accumulated c e (len - 2)))"


lemma int64_rangeI: "0 \<le> x \<Longrightarrow> x \<le> y \<Longrightarrow> int64_range y \<Longrightarrow> int64_range x"
  unfolding int64_range_def by linarith

lemma int64_range_pow: "k < 63 \<Longrightarrow> int64_range (2 ^ k)"
proof -
  assume "k < 63"
  then have "(2::int) ^ k < 2 ^ 63" by (intro power_strict_increasing) simp_all
  moreover have "(0::int) \<le> 2 ^ k" by simp
  ultimately show ?thesis unfolding int64_range_def by linarith
qed

lemma shl1_small: "k < 63 \<Longrightarrow> shl1 k = 2 ^ k"
  by (simp add: shl1_def wrap64_id int64_range_pow)

definition rotate_ok :: "'a::len Parameters \<Rightarrow> nat \<Rightarrow> bool" where
  "rotate_ok p len =
    (1 \<le> len \<and> 0 < polyDegree p \<and> 2 \<le> polyExtendFactor p
     \<and> 2 ^ (len - 1) \<le> polyExtendFactor p
     \<and> int64_range (2 * (polyDegree p * polyExtendFactor p)))"

lemma exponent_bound:
  assumes "(2::int) ^ n \<le> e" "0 < N" "int64_range (2 * (N * e))"
  shows "n < 62"
proof -
  have "(0::int) < 2 ^ n" by simp
  with assms(1) have e: "0 < e" by linarith
  have "1 * e \<le> N * e" using assms(2) e by (intro mult_right_mono) simp_all
  then have "2 * e < 2 ^ 63" using assms(3) unfolding int64_range_def by linarith
  then have "2 * (2::int) ^ n < 2 * 2 ^ 62" using assms(1) by simp
  then have "(2::int) ^ n < 2 ^ 62" by linarith
  then show ?thesis using power_less_imp_less_exp [of "2::int" n 62] by simp
qed

lemma blindRotateArbitraryExtendedAssign_ok:
  assumes "0 < polyDegree p" "0 < f" "f \<le> polyExtendFactor p"
    "int64_range (2 * (polyDegree p * polyExtendFactor p))"
  shows "blindRotateArbitraryExtendedAssign p c l f b =
    Inr (blindRotateArbitraryExtended c l f, b\<lparr>calls := calls b @ [CallBlindRotateArbitraryExtended l f]\<rparr>)"
proof -
  let ?N = "polyDegree p"
  have pos: "0 < ?N * f" using assms(1,2) by simp
  have le: "?N * f \<le> ?N * polyExtendFactor p" using assms(1,3) by (intro mult_left_mono) simp_all
  have r2: "int64_range (2 * (?N * f))"
    by (rule int64_rangeI [OF _ _ assms(4)]) (use pos le in linarith)+
  have r1: "int64_range (?N * f)"
    by (rule int64_rangeI [OF _ _ r2]) (use pos in linarith)+
  have "wrap64 (2 * wrap64 (?N * f)) = 2 * (?N * f)" by (simp only: wrap64_id [OF r1] wrap64_id [OF r2])
  with assms(1,2) show ?thesis by (simp add: blindRotateArbitraryExtendedAssign_def)
qed


lemma negLUT_loop_upt:
  fixes p :: "'a::len Parameters"
  assumes ok: "0 < polyDegree p" "int64_range (2 * (polyDegree p * polyExtendFactor p))"
    and e: "2 ^ n \<le> polyExtendFactor p"
    and j: "1 \<le> j" "j \<le> n"
    and b: "ctRotate b = accumulated c (polyExtendFactor p) (j - 1)" "ctKeySwitchForBootstrap b = c"
  shows "\<exists>b'. negLUT_loop p [j..<n] b = Inr b'
    \<and> ctRotate b' = accumulated c (polyExtendFactor p) (n - 1)
    \<and> ctKeySwitchForBootstrap b' = c
    \<and> calls b' = calls b @ concat (map (\<lambda>k.
          [CallBlindRotateArbitraryExtended (decomposedLUT k) (polyExtendFactor p div 2 ^ (k + 1)),
           CallAddGLWE]) [j..<n])"
  using j b
proof (induction "n - j" arbitrary: j b)
  case 0
  then have "j = n" by simp
  with 0 show ?case by simp
next
  case (Suc d)
  let ?e = "polyExtendFactor p"
  from Suc.hyps(2) have jn: "j < n" by simp
  have n62: "n < 62" using exponent_bound [OF e ok(1) ok(2)] .
  have sh: "shl1 (j + 1) = 2 ^ (j + 1)" using jn n62 by (intro shl1_small) simp
  have le: "(2::int) ^ (j + 1) \<le> 2 ^ n" using jn by (intro power_increasing) simp_all
  then have ge: "(2::int) ^ (j + 1) \<le> ?e" using e by linarith
  have "(0::int) < 2 ^ (j + 1)" by simp
  with ge have epos: "0 < ?e" by linarith
  have f: "?e sdiv 2 ^ (j + 1) = ?e div 2 ^ (j + 1)" using epos by (intro sdiv_pos) simp_all
  have fpos: "0 < ?e div 2 ^ (j + 1)" using ge by (simp add: pos_imp_zdiv_pos_iff)
  have fle: "?e div 2 ^ (j + 1) \<le> ?e" using epos by (rule int_div_le_self)
  note br = blindRotateArbitraryExtendedAssign_ok [OF ok(1) fpos fle ok(2)]
  let ?b3 = "b\<lparr>calls := calls b @ [CallBlindRotateArbitraryExtended (decomposedLUT j) (?e div 2 ^ (j + 1))],
              ctEBSAcc := blindRotateArbitraryExtended c (decomposedLUT j) (?e div 2 ^ (j + 1)),
              ctRotate := AddGLWE (blindRotateArbitraryExtended c (decomposedLUT j) (?e div 2 ^ (j + 1)))
                            (accumulated c ?e (j - 1)),
              calls := calls b @ [CallBlindRotateArbitraryExtended (decomposedLUT j) (?e div 2 ^ (j + 1))]
                         @ [CallAddGLWE]\<rparr>"
  have step: "negLUT_loop p [j..<n] b = negLUT_loop p [Suc j..<n] ?b3"
    using jn Suc.prems
    by (simp add: upt_conv_Cons sh [simplified] f [simplified] br [simplified] Let_def del: upt_Suc)
  have acc: "ctRotate ?b3 = accumulated c ?e (Suc j - 1)"
    using Suc.prems(1) by (cases j) simp_all
  have "d = n - Suc j" using Suc.hyps(2) by simp
  from Suc.hyps(1) [OF this _ _ acc] jn
  obtain b' where b': "negLUT_loop p [Suc j..<n] ?b3 = Inr b'"
      "ctRotate b' = accumulated c ?e (n - 1)" "ctKeySwitchForBootstrap b' = c"
      "calls b' = calls ?b3 @ concat (map (\<lambda>k.
          [CallBlindRotateArbitraryExtended (decomposedLUT k) (?e div 2 ^ (k + 1)),
           CallAddGLWE]) [Suc j..<n])"
    using Suc.prems(4) by auto
  show ?case
    using b' jn unfolding step by (simp add: upt_conv_Cons del: upt_Suc)
qed


lemma BlindRotateExtendedFullDomainAssignNew_ok:
  fixes p :: "'a::len Parameters"
  assumes ok: "rotate_ok p len" and c: "ctKeySwitchForBootstrap b = c"
  shows "\<exists>b'. BlindRotateExtendedFullDomainAssignNew p len b = Inr b'
    \<and> ctRotate b' =
        AddGLWE
          (blindRotateBaseLUT
             (KeySwitchForBootstrap (ToLWECiphertext 0 (blindRotateLUTCompress c lutCompress)))
             (decomposedLUT (len - 1)))
          (accumulated c (polyExtendFactor p) (len - 2))
    \<and> calls b' = calls b @ rotate_calls (polyExtendFactor p) len"
proof -
  let ?e = "polyExtendFactor p"
  from ok have len: "1 \<le> len" and N: "0 < polyDegree p" and e2: "2 \<le> ?e"
    and el: "2 ^ (len - 1) \<le> ?e" and r: "int64_range (2 * (polyDegree p * ?e))"
    by (simp_all add: rotate_ok_def)
  have f: "?e sdiv 2 = ?e div 2" using e2 by (intro sdiv_pos) simp_all
  have fpos: "0 < ?e div 2" using e2 by simp
  have fle: "?e div 2 \<le> ?e" using e2 by simp
  note br = blindRotateArbitraryExtendedAssign_ok [OF N fpos fle r]
  let ?b1 = "b\<lparr>calls := calls b @ [CallBlindRotateArbitraryExtended (decomposedLUT 0) (?e div 2)],
               ctRotate := blindRotateArbitraryExtended c (decomposedLUT 0) (?e div 2)\<rparr>"
  have "\<exists>b2. negLUT_loop p [1..<len - 1] ?b1 = Inr b2
      \<and> ctRotate b2 = accumulated c ?e (len - 2)
      \<and> ctKeySwitchForBootstrap b2 = c
      \<and> calls b2 = calls ?b1 @ concat (map (\<lambda>k.
          [CallBlindRotateArbitraryExtended (decomposedLUT k) (?e div 2 ^ (k + 1)),
           CallAddGLWE]) [1..<len - 1])"
  proof (cases "len = 1")
    case True
    then show ?thesis using c by simp
  next
    case False
    with len have l2: "1 \<le> len - 1" by simp
    have a: "ctRotate ?b1 = accumulated c ?e (1 - 1)" by simp
    have k: "ctKeySwitchForBootstrap ?b1 = c" using c by simp
    have "len - 1 - 1 = len - 2" by simp
    with negLUT_loop_upt [OF N r el _ l2 a k] show ?thesis by simp
  qed
  then obtain b2 where b2: "negLUT_loop p [1..<len - 1] ?b1 = Inr b2"
      "ctRotate b2 = accumulated c ?e (len - 2)" "ctKeySwitchForBootstrap b2 = c"
      "calls b2 = calls ?b1 @ concat (map (\<lambda>k.
          [CallBlindRotateArbitraryExtended (decomposedLUT k) (?e div 2 ^ (k + 1)),
           CallAddGLWE]) [1..<len - 1])"
    by blast
  show ?thesis
    using len b2 c
    by (simp add: BlindRotateExtendedFullDomainAssignNew_def f br Let_def rotate_calls_def)
qed

text \<open>
  Claim C1, amended. For every list of decomposed LUTs of length \<open>len \<ge> 1\<close> with
  \<open>2 ^ (len - 1) \<le> e\<close> and \<open>e \<ge> 2\<close> (so for \<open>len = log2 e + 1\<close>, \<open>e \<ge> 2\<close>),
  \<open>BootstrapExtendedFullDomainAssignNew\<close> returns, having first key-switched \<open>ct\<close> into
  the evaluator's key-switch buffer and then performed steps (i) to (iv) in order; the
  blind rotations of (i) and (ii) and the compress rotation of (iii) read the key-switched
  ciphertext, and the output is the sample extraction of index 0 of the accumulator.
\<close>

theorem BootstrapExtendedFullDomainAssignNew_sequence:
  fixes p :: "'a::len Parameters"
  assumes "rotate_ok p len"
  shows "\<exists>b'. BootstrapExtendedFullDomainAssignNew p len b = Inr b'
    \<and> calls b' = calls b @ CallKeySwitchForBootstrap # claimed_calls (polyExtendFactor p) len
    \<and> ctOut b' = output_of (KeySwitchForBootstrap ct) (polyExtendFactor p) len"
proof -
  let ?b1 = "b\<lparr>ctKeySwitchForBootstrap := KeySwitchForBootstrap ct,
               calls := calls b @ [CallKeySwitchForBootstrap]\<rparr>"
  have "ctKeySwitchForBootstrap ?b1 = KeySwitchForBootstrap ct" by simp
  from BlindRotateExtendedFullDomainAssignNew_ok [OF assms this]
  obtain b2 where "BlindRotateExtendedFullDomainAssignNew p len ?b1 = Inr b2"
    "ctRotate b2 =
        AddGLWE
          (blindRotateBaseLUT
             (KeySwitchForBootstrap (ToLWECiphertext 0
                (blindRotateLUTCompress (KeySwitchForBootstrap ct) lutCompress)))
             (decomposedLUT (len - 1)))
          (accumulated (KeySwitchForBootstrap ct) (polyExtendFactor p) (len - 2))"
    "calls b2 = calls ?b1 @ rotate_calls (polyExtendFactor p) len"
    by blast
  then show ?thesis
    by (simp add: BootstrapExtendedFullDomainAssignNew_def Let_def claimed_calls_def output_of_def)
qed


definition emptyBuffer :: evaluationBuffer where
  "emptyBuffer =
    \<lparr> ctKeySwitchForBootstrap = Unset, ctRotate = Unset, ctEBSAcc = Unset,
      ctLWEExtracted = Unset, ctOut = Unset, calls = [] \<rparr>"

lemma rotate_ok_EBS5: "rotate_ok CompiledEBS5 2"
  by (simp add: rotate_ok_def CompiledEBS5_fields int64_range_def)

lemma claimed_calls_EBS5:
  "claimed_calls 2 2 =
    [CallBlindRotateArbitraryExtended (decomposedLUT 0) 1,
     CallBlindRotateLUTCompress lutCompress, CallToLWECiphertext 0, CallKeySwitchForBootstrap,
     CallBlindRotateBaseLUT (decomposedLUT 1), CallAddGLWE, CallToLWECiphertext 0]"
  by (simp add: claimed_calls_def rotate_calls_def)

lemma output_of_EBS5:
  "output_of c 2 2 =
    ToLWECiphertext 0
      (AddGLWE
        (blindRotateBaseLUT
           (KeySwitchForBootstrap (ToLWECiphertext 0 (blindRotateLUTCompress c lutCompress)))
           (decomposedLUT 1))
        (blindRotateArbitraryExtended c (decomposedLUT 0) 1))"
  by (simp add: output_of_def)

theorem BootstrapExtendedFullDomainAssignNew_sequence_witness:
  "rotate_ok CompiledEBS5 2
   \<and> (\<exists>b'. BootstrapExtendedFullDomainAssignNew CompiledEBS5 2 emptyBuffer = Inr b'
        \<and> calls b' =
            [CallKeySwitchForBootstrap,
             CallBlindRotateArbitraryExtended (decomposedLUT 0) 1,
             CallBlindRotateLUTCompress lutCompress, CallToLWECiphertext 0,
             CallKeySwitchForBootstrap,
             CallBlindRotateBaseLUT (decomposedLUT 1), CallAddGLWE, CallToLWECiphertext 0]
        \<and> ctOut b' = output_of (KeySwitchForBootstrap ct) 2 2)"
  using BootstrapExtendedFullDomainAssignNew_sequence [OF rotate_ok_EBS5, of emptyBuffer]
    rotate_ok_EBS5
  by (simp add: CompiledEBS5_fields claimed_calls_EBS5 emptyBuffer_def)

lemma EBS5_run:
  "BootstrapExtendedFullDomainAssignNew CompiledEBS5 2 emptyBuffer =
    Inr \<lparr> ctKeySwitchForBootstrap =
            KeySwitchForBootstrap (ToLWECiphertext 0
              (blindRotateLUTCompress (KeySwitchForBootstrap ct) lutCompress)),
          ctRotate =
            AddGLWE
              (blindRotateBaseLUT
                 (KeySwitchForBootstrap (ToLWECiphertext 0
                    (blindRotateLUTCompress (KeySwitchForBootstrap ct) lutCompress)))
                 (decomposedLUT 1))
              (blindRotateArbitraryExtended (KeySwitchForBootstrap ct) (decomposedLUT 0) 1),
          ctEBSAcc =
            blindRotateBaseLUT
              (KeySwitchForBootstrap (ToLWECiphertext 0
                 (blindRotateLUTCompress (KeySwitchForBootstrap ct) lutCompress)))
              (decomposedLUT 1),
          ctLWEExtracted =
            ToLWECiphertext 0 (blindRotateLUTCompress (KeySwitchForBootstrap ct) lutCompress),
          ctOut = output_of (KeySwitchForBootstrap ct) 2 2,
          calls = CallKeySwitchForBootstrap # claimed_calls 2 2 \<rparr>"
proof -
  have w: "wrap64 2048 = 2048" "wrap64 4096 = 4096" by (simp_all add: wrap64_id int64_range_def)
  have s: "(2::int) sdiv 2 = 1" by (simp add: sdiv_pos)
  show ?thesis
    by (simp add: BootstrapExtendedFullDomainAssignNew_def
        BlindRotateExtendedFullDomainAssignNew_def blindRotateArbitraryExtendedAssign_def
        emptyBuffer_def CompiledEBS5_fields w s Let_def claimed_calls_EBS5 output_of_EBS5)
qed

text \<open>
  Claim C1 as stated fails: on \<open>ParamsEBS5\<close> with two decomposed LUTs the first call is
  a key switch, not the blind rotation of step (i), and the output is computed from the
  key-switched ciphertext.
\<close>

theorem BootstrapExtendedFullDomainAssignNew_counterexample:
  "(\<exists>b'. BootstrapExtendedFullDomainAssignNew CompiledEBS5 2 emptyBuffer = Inr b'
      \<and> calls b' = CallKeySwitchForBootstrap # claimed_calls (polyExtendFactor CompiledEBS5) 2
      \<and> calls b' \<noteq> claimed_calls (polyExtendFactor CompiledEBS5) 2
      \<and> ctOut b' \<noteq> output_of ct (polyExtendFactor CompiledEBS5) 2)"
  unfolding EBS5_run CompiledEBS5_fields
  by (simp add: output_of_EBS5)

section \<open>Encryptors, secret keys and the shared key buffer\<close>

text \<open>
  Go slices are views: a slice header names a backing array, an offset into it, a length
  and a capacity. The heap maps the address of a backing array of \<open>T\<close> to its contents,
  the address of a Fourier polynomial to the coefficient vector it is the transform of
  (the transform itself is the polynomial evaluator's business), the address of a binary
  sampler to the number of values drawn from it, and the address of an \<open>Encryptor\<close> to the
  struct. \<open>nextAddr\<close> is the first address not yet handed out.
\<close>

record slice =
  sbuf :: nat
  soff :: nat
  slen :: nat
  scap :: nat

definition nil_slice :: slice where
  "nil_slice = \<lparr> sbuf = 0, soff = 0, slen = 0, scap = 0 \<rparr>"

record SecretKey =
  LWELargeKey :: slice
  GLWEKey :: "slice list"
  FourierGLWEKey :: "nat list"
  LWEKey :: slice

record (overloaded) 'a Encryptor =
  Encoder :: nat
  GLWETransformer :: nat
  EncParameters :: "'a Parameters"
  UniformSampler :: nat
  BinarySampler :: nat
  GaussianSampler :: nat
  PolyEvaluator :: nat
  EncSecretKey :: SecretKey
  buffer :: nat

record (overloaded) 'a heap =
  arrays :: "nat \<rightharpoonup> 'a word list"
  fouriers :: "nat \<rightharpoonup> 'a word list"
  samplers :: "nat \<rightharpoonup> nat"
  encryptors :: "nat \<rightharpoonup> 'a Encryptor"
  nextAddr :: nat

text \<open>The binary sampler, a collaborator: \<open>binary a s i\<close> is the \<open>i\<close>-th value that sampler
  \<open>a\<close>, having drawn \<open>s\<close> values before, writes by \<open>SampleVecAssign\<close>, and \<open>block b a s i\<close> the
  one it writes by \<open>SampleBlockVecAssign\<close> with block size \<open>b\<close>.\<close>

record (overloaded) 'a csprng =
  binary :: "nat \<Rightarrow> nat \<Rightarrow> nat \<Rightarrow> 'a word"
  block :: "int \<Rightarrow> nat \<Rightarrow> nat \<Rightarrow> nat \<Rightarrow> 'a word"

definition fresh :: "'a::len heap \<Rightarrow> nat \<times> 'a heap" where
  "fresh h = (nextAddr h, h\<lparr>nextAddr := Suc (nextAddr h)\<rparr>)"

text \<open>\<open>make([]T, n)\<close>.\<close>

definition make_array :: "int \<Rightarrow> 'a::len heap \<Rightarrow> panic + (slice \<times> 'a heap)" where
  "make_array n h =
    (if n < 0 then Inl (Panic ''makeslice: len out of range'')
     else
       let (a, h1) = fresh h
       in Inr (\<lparr> sbuf = a, soff = 0, slen = nat n, scap = nat n \<rparr>,
               h1\<lparr>arrays := (arrays h1)(a \<mapsto> replicate (nat n) 0)\<rparr>))"

text \<open>\<open>s[lo:hi]\<close>: the bounds are checked against the capacity.\<close>

definition reslice :: "slice \<Rightarrow> int \<Rightarrow> int \<Rightarrow> panic + slice" where
  "reslice s lo hi =
    (if hi < 0 \<or> int (scap s) < hi then Inl (SliceBoundsOutOfRange hi (int (scap s)))
     else if lo < 0 \<or> hi < lo then Inl (SliceBoundsOutOfRange lo hi)
     else Inr \<lparr> sbuf = sbuf s, soff = soff s + nat lo, slen = nat (hi - lo),
                scap = scap s - nat lo \<rparr>)"

definition read_slice :: "'a::len heap \<Rightarrow> slice \<Rightarrow> 'a word list" where
  "read_slice h s =
    (case arrays h (sbuf s) of
       None \<Rightarrow> []
     | Some xs \<Rightarrow> take (slen s) (drop (soff s) xs))"

text \<open>\<open>s[i] = v\<close> for \<open>i < len(s)\<close>.\<close>

definition write_slice :: "'a::len heap \<Rightarrow> slice \<Rightarrow> nat \<Rightarrow> 'a word \<Rightarrow> 'a heap" where
  "write_slice h s i v =
    (case arrays h (sbuf s) of
       None \<Rightarrow> h
     | Some xs \<Rightarrow> h\<lparr>arrays := (arrays h)(sbuf s \<mapsto> xs[soff s + i := v])\<rparr>)"

text \<open>Filling a slice from the sampler: element \<open>i\<close> becomes \<open>f i\<close>.\<close>

definition fill_slice :: "'a::len heap \<Rightarrow> slice \<Rightarrow> (nat \<Rightarrow> 'a word) \<Rightarrow> 'a heap" where
  "fill_slice h s f =
    (case arrays h (sbuf s) of
       None \<Rightarrow> h
     | Some xs \<Rightarrow>
         h\<lparr>arrays := (arrays h)(sbuf s \<mapsto>
              map (\<lambda>k. if soff s \<le> k \<and> k < soff s + slen s then f (k - soff s) else xs ! k)
                [0..<length xs])\<rparr>)"

definition SampleVecAssign :: "'a::len csprng \<Rightarrow> nat \<Rightarrow> slice \<Rightarrow> 'a heap \<Rightarrow> 'a heap" where
  "SampleVecAssign rng a s h =
    (let drawn = (case samplers h a of None \<Rightarrow> 0 | Some d \<Rightarrow> d);
         h1 = fill_slice h s (binary rng a drawn)
     in h1\<lparr>samplers := (samplers h1)(a \<mapsto> drawn + slen s)\<rparr>)"

definition SampleBlockVecAssign ::
  "'a::len csprng \<Rightarrow> nat \<Rightarrow> int \<Rightarrow> slice \<Rightarrow> 'a heap \<Rightarrow> 'a heap" where
  "SampleBlockVecAssign rng a blockSize' s h =
    (let drawn = (case samplers h a of None \<Rightarrow> 0 | Some d \<Rightarrow> d);
         h1 = fill_slice h s (block rng blockSize' a drawn)
     in h1\<lparr>samplers := (samplers h1)(a \<mapsto> drawn + slen s)\<rparr>)"


text \<open>Modelled from the spec: \<open>NewSecretKey\<close> and \<open>NewFourierGLWESecretKey\<close> are not among the
  sources. The LWE-large key is a fresh array of \<open>glweDimension\<close> zeros; the \<open>glweRank\<close>
  polynomials of the GLWE key are its consecutive chunks of \<open>polyDegree\<close> coefficients (the
  flattened GLWE key is the head of the LWE-large key); the LWE key is its prefix of length
  \<open>lweDimension\<close>; the Fourier GLWE key is \<open>glweRank\<close> fresh Fourier polynomials.\<close>

fun glwe_views :: "slice \<Rightarrow> int \<Rightarrow> nat list \<Rightarrow> panic + slice list" where
  "glwe_views large N [] = Inr []"
| "glwe_views large N (j # js) =
    (case reslice large (wrap64 (int j * N)) (wrap64 ((int j + 1) * N)) of
       Inl e \<Rightarrow> Inl e
     | Inr v \<Rightarrow>
        (case glwe_views large N js of
           Inl e \<Rightarrow> Inl e
         | Inr vs \<Rightarrow> Inr (v # vs)))"

fun new_fouriers :: "nat \<Rightarrow> int \<Rightarrow> 'a::len heap \<Rightarrow> nat list \<times> 'a heap" where
  "new_fouriers 0 N h = ([], h)"
| "new_fouriers (Suc k) N h =
    (let (a, h1) = fresh h;
         h2 = h1\<lparr>fouriers := (fouriers h1)(a \<mapsto> replicate (nat N) 0)\<rparr>;
         (as, h3) = new_fouriers k N h2
     in (a # as, h3))"

definition NewSecretKey :: "'a::len Parameters \<Rightarrow> 'a heap \<Rightarrow> panic + (SecretKey \<times> 'a heap)" where
  "NewSecretKey p h =
    (case make_array (glweDimension p) h of
       Inl e \<Rightarrow> Inl e
     | Inr (large, h1) \<Rightarrow>
        (if glweRank p < 0 then Inl (Panic ''makeslice: len out of range'')
         else
           case glwe_views large (polyDegree p) [0..<nat (glweRank p)] of
             Inl e \<Rightarrow> Inl e
           | Inr polys \<Rightarrow>
               let (fs, h2) = new_fouriers (nat (glweRank p)) (polyDegree p) h1
               in (case reslice large 0 (lweDimension p) of
                     Inl e \<Rightarrow> Inl e
                   | Inr lwe \<Rightarrow>
                       Inr (\<lparr> LWELargeKey = large, GLWEKey = polys, FourierGLWEKey = fs,
                              LWEKey = lwe \<rparr>, h2))))"

text \<open>Modelled from the spec: \<open>ToFourierGLWESecretKeyAssign\<close> (a method of the embedded
  \<open>GLWETransformer\<close>) writes the transform of every polynomial of the GLWE key into the
  matching Fourier polynomial.\<close>

fun ToFourierGLWESecretKeyAssign :: "slice list \<Rightarrow> nat list \<Rightarrow> 'a::len heap \<Rightarrow> 'a heap" where
  "ToFourierGLWESecretKeyAssign (v # vs) (a # as) h =
     ToFourierGLWESecretKeyAssign vs as (h\<lparr>fouriers := (fouriers h)(a \<mapsto> read_slice h v)\<rparr>)"
| "ToFourierGLWESecretKeyAssign _ _ h = h"

text \<open>\<open>(*Encryptor).GenSecretKey\<close>, on the encryptor at address \<open>ea\<close>.\<close>

definition GenSecretKey ::
  "'a::len csprng \<Rightarrow> nat \<Rightarrow> 'a heap \<Rightarrow> panic + (SecretKey \<times> 'a heap)" where
  "GenSecretKey rng ea h =
    (case encryptors h ea of
       None \<Rightarrow> Inl (Panic ''invalid memory address or nil pointer dereference'')
     | Some e \<Rightarrow>
        (case NewSecretKey (EncParameters e) h of
           Inl err \<Rightarrow> Inl err
         | Inr (sk, h1) \<Rightarrow>
            (if blockSize (EncParameters e) = 1 then
               let h2 = SampleVecAssign rng (BinarySampler e) (LWELargeKey sk) h1;
                   h3 = ToFourierGLWESecretKeyAssign (GLWEKey sk) (FourierGLWEKey sk) h2
               in Inr (sk, h3)
             else
               case reslice (LWELargeKey sk) 0 (lweDimension (EncParameters e)) of
                 Inl err \<Rightarrow> Inl err
               | Inr head \<Rightarrow>
                  let h2 = SampleBlockVecAssign rng (BinarySampler e)
                             (blockSize (EncParameters e)) head h1
                  in (case reslice (LWELargeKey sk) (lweDimension (EncParameters e))
                              (int (slen (LWELargeKey sk))) of
                        Inl err \<Rightarrow> Inl err
                      | Inr tail \<Rightarrow>
                          let h3 = SampleVecAssign rng (BinarySampler e) tail h2;
                              h4 = ToFourierGLWESecretKeyAssign (GLWEKey sk) (FourierGLWEKey sk) h3
                          in Inr (sk, h4)))))"

text \<open>\<open>NewEncryptor\<close>: the collaborators' constructors hand out fresh objects (a fresh binary
  sampler has drawn nothing); the struct is built with a zero secret key, which
  \<open>GenSecretKey\<close> then replaces.\<close>

definition NewEncryptor ::
  "'a::len csprng \<Rightarrow> 'a Parameters \<Rightarrow> 'a heap \<Rightarrow> panic + (nat \<times> 'a heap)" where
  "NewEncryptor rng params h =
    (let (enc, h1) = fresh h;
         (glt, h2) = fresh h1;
         (us, h3) = fresh h2;
         (bs, h4) = fresh h3;
         (gs, h5) = fresh h4;
         (pe, h6) = fresh h5;
         (buf, h7) = fresh h6;
         (ea, h8) = fresh h7;
         encryptor = \<lparr> Encoder = enc, GLWETransformer = glt, EncParameters = params,
                       UniformSampler = us, BinarySampler = bs, GaussianSampler = gs,
                       PolyEvaluator = pe,
                       EncSecretKey = \<lparr> LWELargeKey = nil_slice, GLWEKey = [],
                                        FourierGLWEKey = [], LWEKey = nil_slice \<rparr>,
                       buffer = buf \<rparr>;
         h9 = h8\<lparr>samplers := (samplers h8)(bs \<mapsto> 0),
                 encryptors := (encryptors h8)(ea \<mapsto> encryptor)\<rparr>
     in case GenSecretKey rng ea h9 of
          Inl err \<Rightarrow> Inl err
        | Inr (sk, h10) \<Rightarrow>
            Inr (ea, h10\<lparr>encryptors := (encryptors h10)(ea \<mapsto> encryptor\<lparr>EncSecretKey := sk\<rparr>)\<rparr>))"

text \<open>\<open>bits.TrailingZeros(x)\<close> on a 64-bit \<open>uint\<close>: the number of trailing zero bits, 64 for
  \<open>x = 0\<close>.\<close>

fun tz_loop :: "nat \<Rightarrow> 64 word \<Rightarrow> nat" where
  "tz_loop 0 w = 0"
| "tz_loop (Suc fuel) w = (if bit w 0 then 0 else Suc (tz_loop fuel (drop_bit 1 w)))"

definition TrailingZeros :: "64 word \<Rightarrow> nat" where
  "TrailingZeros w = tz_loop 64 w"

definition hierarchy_depth :: "'a::len Parameters \<Rightarrow> nat" where
  "hierarchy_depth params = TrailingZeros (word_of_int (polyDegree params sdiv 2048))"

text \<open>The first loop of \<open>NewEncryptorHierarchyWithSharedLWEKey\<close>: \<open>k\<close> encryptors still to
  build, from the current \<open>polyDegree\<close>, \<open>lookupTableSize\<close>, \<open>glweDimension\<close> and
  \<open>logPolyDegree\<close>.\<close>

fun hierarchy_build ::
  "'a::len csprng \<Rightarrow> 'a Parameters \<Rightarrow> nat \<Rightarrow> int \<Rightarrow> int \<Rightarrow> int \<Rightarrow> int \<Rightarrow> 'a heap
    \<Rightarrow> panic + (nat list \<times> 'a heap)" where
  "hierarchy_build rng params 0 polyDegree' lookupTableSize' glweDimension' logPolyDegree' h =
     Inr ([], h)"
| "hierarchy_build rng params (Suc k) polyDegree' lookupTableSize' glweDimension' logPolyDegree' h =
    (let newParams = params\<lparr>polyDegree := polyDegree', lookUpTableSize := lookupTableSize',
                              glweDimension := glweDimension', logPolyDegree := logPolyDegree'\<rparr>
     in case NewEncryptor rng newParams h of
          Inl err \<Rightarrow> Inl err
        | Inr (ea, h1) \<Rightarrow>
           (case hierarchy_build rng params k (polyDegree' sdiv 2) (lookupTableSize' sdiv 2)
                   (glweDimension' sdiv 2) (wrap64 (logPolyDegree' - 1)) h1 of
              Inl err \<Rightarrow> Inl err
            | Inr (eas, h2) \<Rightarrow> Inr (ea # eas, h2)))"

text \<open>One round of the second loop, for the encryptor \<open>encs ! i\<close>.\<close>

fun set_glwe_views :: "slice \<Rightarrow> int \<Rightarrow> nat list \<Rightarrow> slice list \<Rightarrow> panic + slice list" where
  "set_glwe_views large N [] polys = Inr polys"
| "set_glwe_views large N (j # js) polys =
    (if length polys \<le> j then Inl (IndexOutOfRange (int j) (int (length polys)))
     else
       case reslice large (wrap64 (int j * N)) (wrap64 ((int j + 1) * N)) of
         Inl e \<Rightarrow> Inl e
       | Inr v \<Rightarrow> set_glwe_views large N js (polys[j := v]))"

definition share_key :: "nat \<Rightarrow> nat \<Rightarrow> 'a::len heap \<Rightarrow> panic + 'a heap" where
  "share_key ea0 ea h =
    (case (encryptors h ea0, encryptors h ea) of
       (Some e0, Some e) \<Rightarrow>
         (case reslice (LWELargeKey (EncSecretKey e0)) 0 (glweDimension (EncParameters e)) of
            Inl err \<Rightarrow> Inl err
          | Inr large \<Rightarrow>
             (case reslice large 0 (lweDimension (EncParameters e)) of
                Inl err \<Rightarrow> Inl err
              | Inr lwe \<Rightarrow>
                 (case set_glwe_views large (polyDegree (EncParameters e))
                         [0..<nat (glweRank (EncParameters e))] (GLWEKey (EncSecretKey e)) of
                    Inl err \<Rightarrow> Inl err
                  | Inr polys \<Rightarrow>
                      let sk = (EncSecretKey e)\<lparr>LWELargeKey := large, LWEKey := lwe,
                                                 GLWEKey := polys\<rparr>;
                          h1 = h\<lparr>encryptors := (encryptors h)(ea \<mapsto> e\<lparr>EncSecretKey := sk\<rparr>)\<rparr>
                      in Inr (ToFourierGLWESecretKeyAssign (GLWEKey sk) (FourierGLWEKey sk) h1))))
     | _ \<Rightarrow> Inl (Panic ''invalid memory address or nil pointer dereference''))"

fun hierarchy_share :: "nat list \<Rightarrow> nat list \<Rightarrow> 'a::len heap \<Rightarrow> panic + 'a heap" where
  "hierarchy_share encs [] h = Inr h"
| "hierarchy_share encs (i # is) h =
    (case share_key (encs ! 0) (encs ! i) h of
       Inl err \<Rightarrow> Inl err
     | Inr h1 \<Rightarrow> hierarchy_share encs is h1)"

definition NewEncryptorHierarchyWithSharedLWEKey ::
  "'a::len csprng \<Rightarrow> 'a Parameters \<Rightarrow> 'a heap \<Rightarrow> panic + (nat list \<times> 'a heap)" where
  "NewEncryptorHierarchyWithSharedLWEKey rng params h =
    (let depth = hierarchy_depth params in
     case hierarchy_build rng params depth (polyDegree params sdiv 2)
            (lookUpTableSize params sdiv 2) (glweDimension params sdiv 2)
            (wrap64 (logPolyDegree params - 1)) h of
       Inl err \<Rightarrow> Inl err
     | Inr (encs, h1) \<Rightarrow>
        (if length encs = 0 then Inl (IndexOutOfRange 0 0)
         else
           case GenSecretKey rng (encs ! 0) h1 of
             Inl err \<Rightarrow> Inl err
           | Inr (sk, h2) \<Rightarrow>
              (case encryptors h2 (encs ! 0) of
                 None \<Rightarrow> Inl (Panic ''invalid memory address or nil pointer dereference'')
               | Some e0 \<Rightarrow>
                  (case hierarchy_share encs [1..<depth]
                          (h2\<lparr>encryptors := (encryptors h2)(encs ! 0 \<mapsto> e0\<lparr>EncSecretKey := sk\<rparr>)\<rparr>) of
                     Inl err \<Rightarrow> Inl err
                   | Inr h3 \<Rightarrow> Inr (encs, h3)))))"

subsection \<open>Frame and freshness of \<open>GenSecretKey\<close>\<close>

lemma fresh_eq [simp]: "fresh h = (nextAddr h, h\<lparr>nextAddr := Suc (nextAddr h)\<rparr>)"
  by (simp add: fresh_def)

lemma reslice_Inr:
  assumes "reslice s lo hi = Inr r"
  shows "sbuf r = sbuf s" "soff r = soff s + nat lo" "slen r = nat (hi - lo)"
    "scap r = scap s - nat lo" "0 \<le> lo" "lo \<le> hi" "hi \<le> int (scap s)"
  using assms by (auto simp: reslice_def split: if_splits)

lemma reslice_ok:
  "0 \<le> lo \<Longrightarrow> lo \<le> hi \<Longrightarrow> hi \<le> int (scap s) \<Longrightarrow>
    reslice s lo hi = Inr \<lparr> sbuf = sbuf s, soff = soff s + nat lo, slen = nat (hi - lo),
                            scap = scap s - nat lo \<rparr>"
  by (simp add: reslice_def)

lemma new_fouriers_frame:
  assumes "new_fouriers k N h = (as, h')"
  shows "length as = k \<and> (\<forall>a \<in> set as. nextAddr h \<le> a \<and> a < nextAddr h')
    \<and> nextAddr h' = nextAddr h + k
    \<and> arrays h' = arrays h \<and> encryptors h' = encryptors h \<and> samplers h' = samplers h
    \<and> (\<forall>a. a \<notin> set as \<longrightarrow> fouriers h' a = fouriers h a)"
  using assms
proof (induction k arbitrary: h as h')
  case 0
  then show ?case by simp
next
  case (Suc k)
  let ?h2 = "h\<lparr>nextAddr := Suc (nextAddr h),
               fouriers := (fouriers h)(nextAddr h \<mapsto> replicate (nat N) 0)\<rparr>"
  obtain as2 h3 where r: "new_fouriers k N ?h2 = (as2, h3)" by (cases "new_fouriers k N ?h2")
  from Suc.prems r have e: "as = nextAddr h # as2" "h' = h3" by (simp_all add: Let_def)
  from Suc.IH [OF r] show ?case unfolding e by auto
qed


lemma NewSecretKey_Inr:
  assumes "NewSecretKey p h = Inr (sk, h1)"
  shows "LWELargeKey sk = \<lparr> sbuf = nextAddr h, soff = 0, slen = nat (glweDimension p),
                            scap = nat (glweDimension p) \<rparr>"
    "arrays h1 = (arrays h)(nextAddr h \<mapsto> replicate (nat (glweDimension p)) 0)"
    "encryptors h1 = encryptors h" "samplers h1 = samplers h"
    "nextAddr h < nextAddr h1"
    "\<forall>a \<in> set (FourierGLWEKey sk). nextAddr h < a \<and> a < nextAddr h1"
    "\<forall>a. a \<notin> set (FourierGLWEKey sk) \<longrightarrow> fouriers h1 a = fouriers h a"
    "reslice (LWELargeKey sk) 0 (lweDimension p) = Inr (LWEKey sk)"
    "glwe_views (LWELargeKey sk) (polyDegree p) [0..<nat (glweRank p)] = Inr (GLWEKey sk)"
proof -
  let ?large = "\<lparr> sbuf = nextAddr h, soff = 0, slen = nat (glweDimension p),
                   scap = nat (glweDimension p) \<rparr>"
  let ?h1 = "h\<lparr>nextAddr := Suc (nextAddr h),
               arrays := (arrays h)(nextAddr h \<mapsto> replicate (nat (glweDimension p)) 0)\<rparr>"
  from assms have g: "\<not> glweDimension p < 0"
    by (auto simp: NewSecretKey_def make_array_def split: if_splits)
  then have m: "make_array (glweDimension p) h = Inr (?large, ?h1)"
    by (simp add: make_array_def)
  from assms m have k: "\<not> glweRank p < 0"
    by (auto simp: NewSecretKey_def split: if_splits)
  from assms m k obtain polys where
    v: "glwe_views ?large (polyDegree p) [0..<nat (glweRank p)] = Inr polys"
    by (auto simp: NewSecretKey_def split: sum.splits)
  obtain fs h2 where f: "new_fouriers (nat (glweRank p)) (polyDegree p) ?h1 = (fs, h2)"
    by (cases "new_fouriers (nat (glweRank p)) (polyDegree p) ?h1")
  from assms m k v f obtain lwe where
    l: "reslice ?large 0 (lweDimension p) = Inr lwe"
    by (auto simp: NewSecretKey_def split: sum.splits)
  from assms m k v f l have sk: "sk = \<lparr> LWELargeKey = ?large, GLWEKey = polys,
      FourierGLWEKey = fs, LWEKey = lwe \<rparr>" and h1: "h1 = h2"
    by (simp_all add: NewSecretKey_def)
  note fr = new_fouriers_frame [OF f]
  show "LWELargeKey sk = ?large" by (simp add: sk)
  show "arrays h1 = (arrays h)(nextAddr h \<mapsto> replicate (nat (glweDimension p)) 0)"
    using fr by (simp add: h1)
  show "encryptors h1 = encryptors h" using fr by (simp add: h1)
  show "samplers h1 = samplers h" using fr by (simp add: h1)
  show "nextAddr h < nextAddr h1" using fr by (simp add: h1)
  show "\<forall>a \<in> set (FourierGLWEKey sk). nextAddr h < a \<and> a < nextAddr h1"
    using fr by (auto simp: h1 sk)
  show "\<forall>a. a \<notin> set (FourierGLWEKey sk) \<longrightarrow> fouriers h1 a = fouriers h a"
    using fr by (simp add: h1 sk)
  show "reslice (LWELargeKey sk) 0 (lweDimension p) = Inr (LWEKey sk)" using l by (simp add: sk)
  show "glwe_views (LWELargeKey sk) (polyDegree p) [0..<nat (glweRank p)] = Inr (GLWEKey sk)"
    using v by (simp add: sk)
qed

lemma ToFourier_frame:
  "arrays (ToFourierGLWESecretKeyAssign vs as h) = arrays h
   \<and> encryptors (ToFourierGLWESecretKeyAssign vs as h) = encryptors h
   \<and> samplers (ToFourierGLWESecretKeyAssign vs as h) = samplers h
   \<and> nextAddr (ToFourierGLWESecretKeyAssign vs as h) = nextAddr h
   \<and> (\<forall>a. a \<notin> set as \<longrightarrow> fouriers (ToFourierGLWESecretKeyAssign vs as h) a = fouriers h a)"
  by (induction vs as h rule: ToFourierGLWESecretKeyAssign.induct) auto

lemma fill_slice_frame:
  "encryptors (fill_slice h s f) = encryptors h" "samplers (fill_slice h s f) = samplers h"
  "nextAddr (fill_slice h s f) = nextAddr h" "fouriers (fill_slice h s f) = fouriers h"
  "a \<noteq> sbuf s \<Longrightarrow> arrays (fill_slice h s f) a = arrays h a"
  "dom (arrays (fill_slice h s f)) = dom (arrays h)"
  by (auto simp: fill_slice_def split: option.splits)

lemma SampleVecAssign_frame:
  "encryptors (SampleVecAssign rng b s h) = encryptors h"
  "nextAddr (SampleVecAssign rng b s h) = nextAddr h"
  "fouriers (SampleVecAssign rng b s h) = fouriers h"
  "a \<noteq> sbuf s \<Longrightarrow> arrays (SampleVecAssign rng b s h) a = arrays h a"
  "dom (arrays (SampleVecAssign rng b s h)) = dom (arrays h)"
  "c \<noteq> b \<Longrightarrow> samplers (SampleVecAssign rng b s h) c = samplers h c"
  by (simp_all add: SampleVecAssign_def Let_def fill_slice_frame)

lemma SampleBlockVecAssign_frame:
  "encryptors (SampleBlockVecAssign rng b bl s h) = encryptors h"
  "nextAddr (SampleBlockVecAssign rng b bl s h) = nextAddr h"
  "fouriers (SampleBlockVecAssign rng b bl s h) = fouriers h"
  "a \<noteq> sbuf s \<Longrightarrow> arrays (SampleBlockVecAssign rng b bl s h) a = arrays h a"
  "dom (arrays (SampleBlockVecAssign rng b bl s h)) = dom (arrays h)"
  "c \<noteq> b \<Longrightarrow> samplers (SampleBlockVecAssign rng b bl s h) c = samplers h c"
  by (simp_all add: SampleBlockVecAssign_def Let_def fill_slice_frame)


definition array_len :: "'a::len heap \<Rightarrow> nat \<Rightarrow> nat \<Rightarrow> bool" where
  "array_len h a n = (\<exists>xs. arrays h a = Some xs \<and> length xs = n)"

lemma array_len_fill: "array_len (fill_slice h s f) a n = array_len h a n"
  by (auto simp: array_len_def fill_slice_def split: option.splits)

lemma array_len_SampleVec: "array_len (SampleVecAssign rng b s h) a n = array_len h a n"
  using array_len_fill [of h s _ a n]
  by (simp add: SampleVecAssign_def Let_def array_len_def)

lemma array_len_SampleBlockVec: "array_len (SampleBlockVecAssign rng b bl s h) a n = array_len h a n"
  using array_len_fill [of h s _ a n]
  by (simp add: SampleBlockVecAssign_def Let_def array_len_def)

lemma array_len_ToFourier: "array_len (ToFourierGLWESecretKeyAssign vs as h) a n = array_len h a n"
  using ToFourier_frame [of vs as h] by (simp add: array_len_def)

lemma GenSecretKey_Inr:
  assumes "GenSecretKey rng ea h = Inr (sk, h')"
  obtains e where "encryptors h ea = Some e"
    "encryptors h' = encryptors h"
    "nextAddr h < nextAddr h'"
    "LWELargeKey sk = \<lparr> sbuf = nextAddr h, soff = 0, slen = nat (glweDimension (EncParameters e)),
                         scap = nat (glweDimension (EncParameters e)) \<rparr>"
    "\<forall>a. a \<noteq> nextAddr h \<longrightarrow> arrays h' a = arrays h a"
    "array_len h' (nextAddr h) (nat (glweDimension (EncParameters e)))"
    "\<forall>a. a \<notin> set (FourierGLWEKey sk) \<longrightarrow> fouriers h' a = fouriers h a"
    "\<forall>a \<in> set (FourierGLWEKey sk). nextAddr h < a \<and> a < nextAddr h'"
    "\<forall>c. c \<noteq> BinarySampler e \<longrightarrow> samplers h' c = samplers h c"
    "reslice (LWELargeKey sk) 0 (lweDimension (EncParameters e)) = Inr (LWEKey sk)"
    "glwe_views (LWELargeKey sk) (polyDegree (EncParameters e))
       [0..<nat (glweRank (EncParameters e))] = Inr (GLWEKey sk)"
proof -
  from assms obtain e where e: "encryptors h ea = Some e"
    by (auto simp: GenSecretKey_def split: option.splits)
  let ?p = "EncParameters e"
  from assms e obtain sk1 h1 where n: "NewSecretKey ?p h = Inr (sk1, h1)"
    by (auto simp: GenSecretKey_def split: sum.splits)
  note ns = NewSecretKey_Inr [OF n]
  have al1: "array_len h1 (nextAddr h) (nat (glweDimension ?p))"
    by (simp add: array_len_def ns(2))
  have sb: "sbuf (LWELargeKey sk1) = nextAddr h" by (simp add: ns(1))
  have "sk = sk1 \<and> encryptors h' = encryptors h \<and> nextAddr h' = nextAddr h1
      \<and> (\<forall>a. a \<noteq> nextAddr h \<longrightarrow> arrays h' a = arrays h1 a)
      \<and> array_len h' (nextAddr h) (nat (glweDimension ?p))
      \<and> (\<forall>a. a \<notin> set (FourierGLWEKey sk1) \<longrightarrow> fouriers h' a = fouriers h1 a)
      \<and> (\<forall>c. c \<noteq> BinarySampler e \<longrightarrow> samplers h' c = samplers h1 c)"
  proof (cases "blockSize ?p = 1")
    case True
    with assms e n have h': "h' = ToFourierGLWESecretKeyAssign (GLWEKey sk1) (FourierGLWEKey sk1)
          (SampleVecAssign rng (BinarySampler e) (LWELargeKey sk1) h1)" and s: "sk = sk1"
      by (auto simp: GenSecretKey_def Let_def)
    show ?thesis
      unfolding h' s
      using ToFourier_frame [of "GLWEKey sk1" "FourierGLWEKey sk1"
          "SampleVecAssign rng (BinarySampler e) (LWELargeKey sk1) h1"] al1 ns(3)
      by (simp add: SampleVecAssign_frame array_len_ToFourier array_len_SampleVec sb)
  next
    case False
    with assms e n obtain hd' where
      hd: "reslice (LWELargeKey sk1) 0 (lweDimension ?p) = Inr hd'"
      by (auto simp: GenSecretKey_def Let_def split: sum.splits)
    with False assms e n obtain tl' where
      tl: "reslice (LWELargeKey sk1) (lweDimension ?p) (int (slen (LWELargeKey sk1))) = Inr tl'"
      by (auto simp: GenSecretKey_def Let_def split: sum.splits)
    from False assms e n hd tl
    have h': "h' = ToFourierGLWESecretKeyAssign (GLWEKey sk1) (FourierGLWEKey sk1)
          (SampleVecAssign rng (BinarySampler e) tl'
            (SampleBlockVecAssign rng (BinarySampler e) (blockSize ?p) hd' h1))" and s: "sk = sk1"
      by (auto simp: GenSecretKey_def Let_def)
    have b: "sbuf hd' = nextAddr h" "sbuf tl' = nextAddr h"
      using reslice_Inr(1) [OF hd] reslice_Inr(1) [OF tl] sb by simp_all
    show ?thesis
      unfolding h' s
      using ToFourier_frame [of "GLWEKey sk1" "FourierGLWEKey sk1"
          "SampleVecAssign rng (BinarySampler e) tl'
            (SampleBlockVecAssign rng (BinarySampler e) (blockSize ?p) hd' h1)"] al1 ns(3)
      by (simp add: SampleVecAssign_frame SampleBlockVecAssign_frame array_len_ToFourier
          array_len_SampleVec array_len_SampleBlockVec b)
  qed
  then have r: "sk = sk1" "encryptors h' = encryptors h" "nextAddr h' = nextAddr h1"
      "\<forall>a. a \<noteq> nextAddr h \<longrightarrow> arrays h' a = arrays h1 a"
      "array_len h' (nextAddr h) (nat (glweDimension ?p))"
      "\<forall>a. a \<notin> set (FourierGLWEKey sk1) \<longrightarrow> fouriers h' a = fouriers h1 a"
      "\<forall>c. c \<noteq> BinarySampler e \<longrightarrow> samplers h' c = samplers h1 c"
    by blast+
  show ?thesis
  proof (rule that [OF e r(2)])
    show "nextAddr h < nextAddr h'" using ns(5) r(3) by simp
    show "LWELargeKey sk = \<lparr> sbuf = nextAddr h, soff = 0, slen = nat (glweDimension ?p),
                         scap = nat (glweDimension ?p) \<rparr>" using ns(1) r(1) by simp
    show "\<forall>a. a \<noteq> nextAddr h \<longrightarrow> arrays h' a = arrays h a" using r(4) ns(2) by simp
    show "array_len h' (nextAddr h) (nat (glweDimension ?p))" by (rule r(5))
    show "\<forall>a. a \<notin> set (FourierGLWEKey sk) \<longrightarrow> fouriers h' a = fouriers h a"
      using r(6) ns(7) r(1) by simp
    show "\<forall>a \<in> set (FourierGLWEKey sk). nextAddr h < a \<and> a < nextAddr h'"
      using ns(6) r(1,3) by simp
    show "\<forall>c. c \<noteq> BinarySampler e \<longrightarrow> samplers h' c = samplers h c" using r(7) ns(4) by simp
    show "reslice (LWELargeKey sk) 0 (lweDimension ?p) = Inr (LWEKey sk)" using ns(8) r(1) by simp
    show "glwe_views (LWELargeKey sk) (polyDegree ?p) [0..<nat (glweRank ?p)] = Inr (GLWEKey sk)"
      using ns(9) r(1) by simp
  qed
qed


definition key_params_ok :: "'a::len Parameters \<Rightarrow> bool" where
  "key_params_ok p =
    (0 \<le> lweDimension p \<and> lweDimension p \<le> glweDimension p \<and> 0 \<le> glweRank p
     \<and> 0 \<le> polyDegree p \<and> glweRank p * polyDegree p \<le> glweDimension p
     \<and> int64_range (glweDimension p))"

definition heap_wf :: "'a::len heap \<Rightarrow> bool" where
  "heap_wf h = (\<forall>a. (a \<in> dom (arrays h) \<or> a \<in> dom (fouriers h) \<or> a \<in> dom (encryptors h)
                      \<or> a \<in> dom (samplers h)) \<longrightarrow> a < nextAddr h)"

lemma glwe_views_ok:
  assumes "0 \<le> N" "int64_range (int (scap large))"
    and "\<forall>j \<in> set js. (int j + 1) * N \<le> int (scap large)"
  shows "\<exists>vs. glwe_views large N js = Inr vs"
  using assms(3)
proof (induction js)
  case Nil
  show ?case by simp
next
  case (Cons j js)
  then have hi: "(int j + 1) * N \<le> int (scap large)" by simp
  have lo: "0 \<le> int j * N" using assms(1) by simp
  have lh: "int j * N \<le> (int j + 1) * N" using assms(1) by (simp add: distrib_right)
  have r2: "int64_range ((int j + 1) * N)"
    by (rule int64_rangeI [OF _ hi assms(2)]) (use lo lh in linarith)
  have r1: "int64_range (int j * N)" by (rule int64_rangeI [OF lo lh r2])
  have "\<exists>v. reslice large (wrap64 (int j * N)) (wrap64 ((int j + 1) * N)) = Inr v"
    unfolding wrap64_id [OF r1] wrap64_id [OF r2] using lo lh hi by (simp add: reslice_ok)
  moreover from Cons have "\<exists>vs. glwe_views large N js = Inr vs" by simp
  ultimately show ?case by auto
qed

lemma NewSecretKey_ok:
  assumes "key_params_ok p"
  shows "\<exists>sk h1. NewSecretKey p h = Inr (sk, h1)"
proof -
  from assms have a: "0 \<le> lweDimension p" "lweDimension p \<le> glweDimension p" "0 \<le> glweRank p"
    "0 \<le> polyDegree p" "glweRank p * polyDegree p \<le> glweDimension p"
    "int64_range (glweDimension p)"
    by (simp_all add: key_params_ok_def)
  have g: "0 \<le> glweDimension p" using a(1,2) by linarith
  let ?large = "\<lparr> sbuf = nextAddr h, soff = 0, slen = nat (glweDimension p),
                   scap = nat (glweDimension p) \<rparr>"
  let ?h1 = "h\<lparr>nextAddr := Suc (nextAddr h),
               arrays := (arrays h)(nextAddr h \<mapsto> replicate (nat (glweDimension p)) 0)\<rparr>"
  have m: "make_array (glweDimension p) h = Inr (?large, ?h1)" using g by (simp add: make_array_def)
  have "\<forall>j \<in> set [0..<nat (glweRank p)]. (int j + 1) * polyDegree p \<le> int (scap ?large)"
  proof
    fix j assume "j \<in> set [0..<nat (glweRank p)]"
    then have "int j + 1 \<le> glweRank p" by simp
    then have "(int j + 1) * polyDegree p \<le> glweRank p * polyDegree p"
      using a(4) by (rule mult_right_mono)
    with a(5) g show "(int j + 1) * polyDegree p \<le> int (scap ?large)" by simp
  qed
  moreover have "int64_range (int (scap ?large))" using a(6) g by simp
  ultimately obtain vs where v: "glwe_views ?large (polyDegree p) [0..<nat (glweRank p)] = Inr vs"
    using glwe_views_ok [OF a(4)] by blast
  have l: "\<exists>lwe. reslice ?large 0 (lweDimension p) = Inr lwe"
    using a(1,2) g by (simp add: reslice_ok)
  obtain fs h2 where f: "new_fouriers (nat (glweRank p)) (polyDegree p) ?h1 = (fs, h2)"
    by (cases "new_fouriers (nat (glweRank p)) (polyDegree p) ?h1")
  show ?thesis
    using m a(3) v l f by (auto simp: NewSecretKey_def)
qed

lemma GenSecretKey_ok:
  assumes "encryptors h ea = Some e" "key_params_ok (EncParameters e)"
  shows "\<exists>sk h'. GenSecretKey rng ea h = Inr (sk, h')"
proof -
  let ?p = "EncParameters e"
  from NewSecretKey_ok [OF assms(2)] obtain sk h1 where n: "NewSecretKey ?p h = Inr (sk, h1)"
    by blast
  note ns = NewSecretKey_Inr [OF n]
  from assms(2) have a: "0 \<le> lweDimension ?p" "lweDimension ?p \<le> glweDimension ?p"
    by (simp_all add: key_params_ok_def)
  have "\<exists>hd'. reslice (LWELargeKey sk) 0 (lweDimension ?p) = Inr hd'"
    using a by (simp add: ns(1) reslice_ok)
  moreover have "\<exists>tl'. reslice (LWELargeKey sk) (lweDimension ?p) (int (slen (LWELargeKey sk))) = Inr tl'"
    using a by (simp add: ns(1) reslice_ok)
  ultimately show ?thesis
    using assms(1) n by (auto simp: GenSecretKey_def Let_def)
qed


definition drawn_of :: "'a::len heap \<Rightarrow> nat \<Rightarrow> nat" where
  "drawn_of h a = (case samplers h a of None \<Rightarrow> 0 | Some d \<Rightarrow> d)"

text \<open>What \<open>GenSecretKey\<close> leaves in the LWE-large key of the encryptor \<open>e\<close>, whose binary
  sampler has drawn \<open>d\<close> values before.\<close>

definition sampled_key :: "'a::len csprng \<Rightarrow> 'a Encryptor \<Rightarrow> nat \<Rightarrow> 'a word list" where
  "sampled_key rng e d =
    (let p = EncParameters e; g = nat (glweDimension p); n = nat (lweDimension p)
     in if blockSize p = 1 then map (binary rng (BinarySampler e) d) [0..<g]
        else map (\<lambda>k. if k < n then block rng (blockSize p) (BinarySampler e) d k
                       else binary rng (BinarySampler e) (d + n) (k - n)) [0..<g])"

lemma fill_slice_at:
  "arrays h (sbuf s) = Some xs \<Longrightarrow>
    arrays (fill_slice h s f) (sbuf s) =
      Some (map (\<lambda>k. if soff s \<le> k \<and> k < soff s + slen s then f (k - soff s) else xs ! k)
             [0..<length xs])"
  by (simp add: fill_slice_def)

lemma SampleVecAssign_at:
  "arrays h (sbuf s) = Some xs \<Longrightarrow>
    arrays (SampleVecAssign rng b s h) (sbuf s) =
      Some (map (\<lambda>k. if soff s \<le> k \<and> k < soff s + slen s
                      then binary rng b (drawn_of h b) (k - soff s) else xs ! k) [0..<length xs])
    \<and> samplers (SampleVecAssign rng b s h) b = Some (drawn_of h b + slen s)"
  by (simp add: SampleVecAssign_def Let_def fill_slice_at drawn_of_def fill_slice_frame)

lemma SampleBlockVecAssign_at:
  "arrays h (sbuf s) = Some xs \<Longrightarrow>
    arrays (SampleBlockVecAssign rng b bl s h) (sbuf s) =
      Some (map (\<lambda>k. if soff s \<le> k \<and> k < soff s + slen s
                      then block rng bl b (drawn_of h b) (k - soff s) else xs ! k) [0..<length xs])
    \<and> samplers (SampleBlockVecAssign rng b bl s h) b = Some (drawn_of h b + slen s)"
  by (simp add: SampleBlockVecAssign_def Let_def fill_slice_at drawn_of_def fill_slice_frame)

lemma GenSecretKey_content:
  assumes r: "GenSecretKey rng ea h = Inr (sk, h')" and e: "encryptors h ea = Some e"
    and ok: "key_params_ok (EncParameters e)"
  shows "read_slice h' (LWELargeKey sk) = sampled_key rng e (drawn_of h (BinarySampler e))"
proof -
  let ?p = "EncParameters e" and ?b = "BinarySampler e"
  let ?g = "nat (glweDimension ?p)" and ?n = "nat (lweDimension ?p)"
  let ?a = "nextAddr h"
  from NewSecretKey_ok [OF ok] obtain sk1 h1 where n: "NewSecretKey ?p h = Inr (sk1, h1)"
    by blast
  note ns = NewSecretKey_Inr [OF n]
  from ok have a: "0 \<le> lweDimension ?p" "lweDimension ?p \<le> glweDimension ?p"
    by (simp_all add: key_params_ok_def)
  have arr1: "arrays h1 (sbuf (LWELargeKey sk1)) = Some (replicate ?g 0)"
    by (simp add: ns(1,2))
  have d1: "drawn_of h1 ?b = drawn_of h ?b" by (simp add: drawn_of_def ns(4))
  show ?thesis
  proof (cases "blockSize ?p = 1")
    case True
    with r e n have h': "h' = ToFourierGLWESecretKeyAssign (GLWEKey sk1) (FourierGLWEKey sk1)
          (SampleVecAssign rng ?b (LWELargeKey sk1) h1)" and s: "sk = sk1"
      by (auto simp: GenSecretKey_def Let_def)
    have "arrays h' ?a = Some (map (binary rng ?b (drawn_of h ?b)) [0..<?g])"
      unfolding h'
      using SampleVecAssign_at [OF arr1, of rng ?b]
        ToFourier_frame [of "GLWEKey sk1" "FourierGLWEKey sk1"
          "SampleVecAssign rng ?b (LWELargeKey sk1) h1"]
      by (simp add: ns(1) d1 cong: map_cong)
    then show ?thesis
      using True by (simp add: read_slice_def s ns(1) sampled_key_def Let_def)
  next
    case False
    let ?hd = "\<lparr> sbuf = ?a, soff = 0, slen = ?n, scap = ?g \<rparr>"
    let ?tl = "\<lparr> sbuf = ?a, soff = ?n, slen = ?g - ?n, scap = ?g - ?n \<rparr>"
    have hd: "reslice (LWELargeKey sk1) 0 (lweDimension ?p) = Inr ?hd"
      using a by (simp add: ns(1) reslice_ok)
    have tl: "reslice (LWELargeKey sk1) (lweDimension ?p) (int (slen (LWELargeKey sk1))) = Inr ?tl"
      using a by (simp add: ns(1) reslice_ok nat_diff_distrib)
    let ?h2 = "SampleBlockVecAssign rng ?b (blockSize ?p) ?hd h1"
    let ?h3 = "SampleVecAssign rng ?b ?tl ?h2"
    from False r e n hd tl
    have h': "h' = ToFourierGLWESecretKeyAssign (GLWEKey sk1) (FourierGLWEKey sk1) ?h3"
      and s: "sk = sk1"
      by (auto simp: GenSecretKey_def Let_def)
    have arr1': "arrays h1 (sbuf ?hd) = Some (replicate ?g 0)" using arr1 by (simp add: ns(1))
    note b2 = SampleBlockVecAssign_at [OF arr1', of rng ?b "blockSize ?p"]
    let ?ys = "map (\<lambda>k. if soff ?hd \<le> k \<and> k < soff ?hd + slen ?hd
                      then block rng (blockSize ?p) ?b (drawn_of h1 ?b) (k - soff ?hd)
                      else replicate ?g 0 ! k) [0..<length (replicate ?g (0 :: 'a word))]"
    have arr2: "arrays ?h2 (sbuf ?tl) = Some ?ys" using b2 by simp
    have s2: "samplers ?h2 ?b = Some (drawn_of h1 ?b + ?n)" using b2 by simp
    have d2: "drawn_of ?h2 ?b = drawn_of h ?b + ?n" by (subst drawn_of_def) (simp add: s2 d1)
    note b3 = SampleVecAssign_at [OF arr2, of rng ?b]
    have nle: "?n \<le> ?g" using a by simp
    have "arrays h' ?a = Some (map (\<lambda>k. if k < ?n
              then block rng (blockSize ?p) ?b (drawn_of h ?b) k
              else binary rng ?b (drawn_of h ?b + ?n) (k - ?n)) [0..<?g])"
      unfolding h'
      using b3 ToFourier_frame [of "GLWEKey sk1" "FourierGLWEKey sk1" ?h3] nle
      by (auto simp: d1 d2 cong: map_cong)
    then show ?thesis
      using False by (simp add: read_slice_def s ns(1) sampled_key_def Let_def)
  qed
qed


lemma glwe_views_sbuf:
  "glwe_views large N js = Inr vs \<Longrightarrow> \<forall>v \<in> set vs. sbuf v = sbuf large"
proof (induction js arbitrary: vs)
  case Nil
  then show ?case by simp
next
  case (Cons j js)
  then show ?case
    by (auto split: sum.splits dest: reslice_Inr(1))
qed

text \<open>
  Claim C9. On a well-formed heap, for an encryptor whose parameters are compiled ones
  (\<open>0 \<le> n \<le> g\<close>, \<open>k * N \<le> g\<close>), \<open>GenSecretKey\<close> returns. Every \<open>Encryptor\<close> struct of the
  heap, the receiver included, is the same afterwards, field by field, its \<open>SecretKey\<close>
  too; no backing array and no Fourier polynomial that existed before is written, so the
  contents of the receiver's key are untouched; only the state of its binary sampler
  advances. The returned key lives in a fresh array, which its LWE key and GLWE key
  polynomials view, and holds the values just drawn from the sampler.
\<close>

theorem GenSecretKey_leaves_encryptor_unchanged:
  fixes h :: "'a::len heap"
  assumes "encryptors h ea = Some e" and "key_params_ok (EncParameters e)" and "heap_wf h"
  shows "\<exists>sk h'. GenSecretKey rng ea h = Inr (sk, h')
    \<and> encryptors h' = encryptors h
    \<and> (\<forall>a \<in> dom (arrays h). arrays h' a = arrays h a)
    \<and> (\<forall>a \<in> dom (fouriers h). fouriers h' a = fouriers h a)
    \<and> (\<forall>c. c \<noteq> BinarySampler e \<longrightarrow> samplers h' c = samplers h c)
    \<and> sbuf (LWELargeKey sk) \<notin> dom (arrays h)
    \<and> (\<forall>a \<in> set (FourierGLWEKey sk). a \<notin> dom (fouriers h))
    \<and> sbuf (LWEKey sk) = sbuf (LWELargeKey sk)
    \<and> (\<forall>v \<in> set (GLWEKey sk). sbuf v = sbuf (LWELargeKey sk))
    \<and> read_slice h' (LWELargeKey sk) = sampled_key rng e (drawn_of h (BinarySampler e))"
proof -
  from GenSecretKey_ok [OF assms(1,2)] obtain sk h' where
    r: "GenSecretKey rng ea h = Inr (sk, h')" by blast
  from assms(3) have wf: "\<And>a. a \<in> dom (arrays h) \<Longrightarrow> a < nextAddr h"
    "\<And>a. a \<in> dom (fouriers h) \<Longrightarrow> a < nextAddr h"
    by (simp_all add: heap_wf_def)
  from r obtain e' where g: "encryptors h ea = Some e'"
    "encryptors h' = encryptors h"
    "LWELargeKey sk = \<lparr> sbuf = nextAddr h, soff = 0, slen = nat (glweDimension (EncParameters e')),
                         scap = nat (glweDimension (EncParameters e')) \<rparr>"
    "\<forall>a. a \<noteq> nextAddr h \<longrightarrow> arrays h' a = arrays h a"
    "\<forall>a. a \<notin> set (FourierGLWEKey sk) \<longrightarrow> fouriers h' a = fouriers h a"
    "\<forall>a \<in> set (FourierGLWEKey sk). nextAddr h < a \<and> a < nextAddr h'"
    "\<forall>c. c \<noteq> BinarySampler e' \<longrightarrow> samplers h' c = samplers h c"
    "reslice (LWELargeKey sk) 0 (lweDimension (EncParameters e')) = Inr (LWEKey sk)"
    "glwe_views (LWELargeKey sk) (polyDegree (EncParameters e'))
       [0..<nat (glweRank (EncParameters e'))] = Inr (GLWEKey sk)"
    by (rule GenSecretKey_Inr)
  from g(1) assms(1) have ee: "e' = e" by simp
  have 1: "\<forall>a \<in> dom (arrays h). arrays h' a = arrays h a"
  proof
    fix a assume "a \<in> dom (arrays h)"
    then have "a < nextAddr h" by (rule wf(1))
    then have "a \<noteq> nextAddr h" by simp
    with g(4) show "arrays h' a = arrays h a" by simp
  qed
  have 4: "\<forall>a \<in> set (FourierGLWEKey sk). a \<notin> dom (fouriers h)"
  proof
    fix a assume "a \<in> set (FourierGLWEKey sk)"
    with g(6) have "nextAddr h < a" by simp
    with wf(2) [of a] show "a \<notin> dom (fouriers h)" by (cases "a \<in> dom (fouriers h)") simp_all
  qed
  have 2: "\<forall>a \<in> dom (fouriers h). fouriers h' a = fouriers h a"
  proof
    fix a assume d: "a \<in> dom (fouriers h)"
    with 4 have "a \<notin> set (FourierGLWEKey sk)" by blast
    with g(5) show "fouriers h' a = fouriers h a" by simp
  qed
  have "nextAddr h \<notin> dom (arrays h)" using wf(1) [of "nextAddr h"] by blast
  then have 3: "sbuf (LWELargeKey sk) \<notin> dom (arrays h)" by (simp add: g(3))
  have 5: "sbuf (LWEKey sk) = sbuf (LWELargeKey sk)" using reslice_Inr(1) [OF g(8)] .
  have 6: "\<forall>v \<in> set (GLWEKey sk). sbuf v = sbuf (LWELargeKey sk)"
    using glwe_views_sbuf [OF g(9)] .
  have 7: "read_slice h' (LWELargeKey sk) = sampled_key rng e (drawn_of h (BinarySampler e))"
    by (rule GenSecretKey_content [OF r assms(1,2)])
  have 8: "\<forall>c. c \<noteq> BinarySampler e \<longrightarrow> samplers h' c = samplers h c"
    using g(7) unfolding ee .
  show ?thesis
  proof (intro exI conjI)
    show "GenSecretKey rng ea h = Inr (sk, h')" by (rule r)
    show "encryptors h' = encryptors h" by (rule g(2))
    show "\<forall>a \<in> dom (arrays h). arrays h' a = arrays h a" by (rule 1)
    show "\<forall>a \<in> dom (fouriers h). fouriers h' a = fouriers h a" by (rule 2)
    show "\<forall>c. c \<noteq> BinarySampler e \<longrightarrow> samplers h' c = samplers h c" by (rule 8)
    show "sbuf (LWELargeKey sk) \<notin> dom (arrays h)" by (rule 3)
    show "\<forall>a \<in> set (FourierGLWEKey sk). a \<notin> dom (fouriers h)" by (rule 4)
    show "sbuf (LWEKey sk) = sbuf (LWELargeKey sk)" by (rule 5)
    show "\<forall>v \<in> set (GLWEKey sk). sbuf v = sbuf (LWELargeKey sk)" by (rule 6)
    show "read_slice h' (LWELargeKey sk) = sampled_key rng e (drawn_of h (BinarySampler e))"
      by (rule 7)
  qed
qed


definition rngExample :: "64 csprng" where
  "rngExample = \<lparr> binary = (\<lambda>a s i. word_of_nat ((a + s + i) mod 2)),
                   block = (\<lambda>b a s i. if int i mod b = 0 then 1 else 0) \<rparr>"

definition encryptorEBS5 :: "64 Encryptor" where
  "encryptorEBS5 =
    \<lparr> Encoder = 0, GLWETransformer = 1, EncParameters = CompiledEBS5, UniformSampler = 2,
      BinarySampler = 3, GaussianSampler = 4, PolyEvaluator = 5,
      EncSecretKey = \<lparr> LWELargeKey = nil_slice, GLWEKey = [], FourierGLWEKey = [],
                       LWEKey = nil_slice \<rparr>,
      buffer = 6 \<rparr>"

definition heapEBS5 :: "64 heap" where
  "heapEBS5 =
    \<lparr> arrays = Map.empty, fouriers = Map.empty, samplers = [3 \<mapsto> 0],
      encryptors = [7 \<mapsto> encryptorEBS5], nextAddr = 8 \<rparr>"

lemma key_params_ok_EBS5: "key_params_ok CompiledEBS5"
  by (simp add: key_params_ok_def CompiledEBS5_fields int64_range_def)

lemma heap_wf_EBS5: "heap_wf heapEBS5"
  by (simp add: heap_wf_def heapEBS5_def)

theorem GenSecretKey_leaves_encryptor_unchanged_witness:
  "encryptors heapEBS5 7 = Some encryptorEBS5
   \<and> key_params_ok (EncParameters encryptorEBS5) \<and> heap_wf heapEBS5
   \<and> (\<exists>sk h'. GenSecretKey rngExample 7 heapEBS5 = Inr (sk, h')
        \<and> encryptors h' 7 = Some encryptorEBS5
        \<and> sbuf (LWELargeKey sk) \<notin> dom (arrays heapEBS5))"
proof -
  have a: "encryptors heapEBS5 7 = Some encryptorEBS5" by (simp add: heapEBS5_def)
  have b: "key_params_ok (EncParameters encryptorEBS5)"
    by (simp add: encryptorEBS5_def key_params_ok_EBS5)
  from GenSecretKey_leaves_encryptor_unchanged [OF a b heap_wf_EBS5, of rngExample]
  obtain sk h' where "GenSecretKey rngExample 7 heapEBS5 = Inr (sk, h')"
    "encryptors h' = encryptors heapEBS5" "sbuf (LWELargeKey sk) \<notin> dom (arrays heapEBS5)"
    by blast
  with a b heap_wf_EBS5 show ?thesis by auto
qed

subsection \<open>Building the hierarchy\<close>

lemma glwe_views_length: "glwe_views large N js = Inr vs \<Longrightarrow> length vs = length js"
  by (induction js arbitrary: vs) (auto split: sum.splits)

text \<open>The encryptor that \<open>NewEncryptor\<close> is about to fill, at the eighth fresh address.\<close>

lemma NewEncryptor_Inr:
  assumes "NewEncryptor rng p h = Inr (ea, h')"
  obtains e where "ea = nextAddr h + 7" "ea < nextAddr h'"
    "encryptors h' = (encryptors h)(ea \<mapsto> e)" "EncParameters e = p"
    "length (GLWEKey (EncSecretKey e)) = nat (glweRank p)"
    "lweDimension p \<le> int (nat (glweDimension p))"
proof -
  let ?ea = "nextAddr h + 7"
  let ?enc = "\<lparr> Encoder = nextAddr h, GLWETransformer = nextAddr h + 1, EncParameters = p,
                 UniformSampler = nextAddr h + 2, BinarySampler = nextAddr h + 3,
                 GaussianSampler = nextAddr h + 4, PolyEvaluator = nextAddr h + 5,
                 EncSecretKey = \<lparr> LWELargeKey = nil_slice, GLWEKey = [],
                                  FourierGLWEKey = [], LWEKey = nil_slice \<rparr>,
                 buffer = nextAddr h + 6 \<rparr>"
  let ?h9 = "h\<lparr>nextAddr := nextAddr h + 8,
              samplers := (samplers h)(nextAddr h + 3 \<mapsto> 0),
              encryptors := (encryptors h)(?ea \<mapsto> ?enc)\<rparr>"
  have unf: "NewEncryptor rng p h =
      (case GenSecretKey rng ?ea ?h9 of
         Inl err \<Rightarrow> Inl err
       | Inr (sk, h10) \<Rightarrow>
           Inr (?ea, h10\<lparr>encryptors := (encryptors h10)(?ea \<mapsto> ?enc\<lparr>EncSecretKey := sk\<rparr>)\<rparr>))"
    by (simp add: NewEncryptor_def Let_def numeral_eq_Suc cong: sum.case_cong split: prod.splits)
  from assms obtain sk h10 where g: "GenSecretKey rng ?ea ?h9 = Inr (sk, h10)"
    and r: "ea = ?ea" "h' = h10\<lparr>encryptors := (encryptors h10)(?ea \<mapsto> ?enc\<lparr>EncSecretKey := sk\<rparr>)\<rparr>"
    unfolding unf by (auto split: sum.splits)
  from g obtain e' where ge: "encryptors ?h9 ?ea = Some e'"
    "encryptors h10 = encryptors ?h9" "nextAddr ?h9 < nextAddr h10"
    "glwe_views (LWELargeKey sk) (polyDegree (EncParameters e'))
       [0..<nat (glweRank (EncParameters e'))] = Inr (GLWEKey sk)"
    "reslice (LWELargeKey sk) 0 (lweDimension (EncParameters e')) = Inr (LWEKey sk)"
    "LWELargeKey sk = \<lparr> sbuf = nextAddr ?h9, soff = 0,
         slen = nat (glweDimension (EncParameters e')),
         scap = nat (glweDimension (EncParameters e')) \<rparr>"
    by (rule GenSecretKey_Inr)
  from ge(1) have e': "e' = ?enc" by simp
  have len: "length (GLWEKey sk) = nat (glweRank p)"
    using glwe_views_length [OF ge(4)] by (simp add: e')
  show ?thesis
  proof (rule that [of "?enc\<lparr>EncSecretKey := sk\<rparr>"])
    show "ea = nextAddr h + 7" by (rule r(1))
    show "ea < nextAddr h'" using ge(3) by (simp add: r)
    show "encryptors h' = (encryptors h)(ea \<mapsto> ?enc\<lparr>EncSecretKey := sk\<rparr>)"
      by (simp add: r ge(2))
    show "EncParameters (?enc\<lparr>EncSecretKey := sk\<rparr>) = p" by simp
    show "length (GLWEKey (EncSecretKey (?enc\<lparr>EncSecretKey := sk\<rparr>))) = nat (glweRank p)"
      using len by simp
    show "lweDimension p \<le> int (nat (glweDimension p))"
      using reslice_Inr(7) [OF ge(5)] by (simp add: ge(6) e')
  qed
qed

lemma NewEncryptor_ok:
  assumes "key_params_ok p"
  shows "\<exists>ea h'. NewEncryptor rng p h = Inr (ea, h')"
proof -
  let ?ea = "nextAddr h + 7"
  let ?enc = "\<lparr> Encoder = nextAddr h, GLWETransformer = nextAddr h + 1, EncParameters = p,
                 UniformSampler = nextAddr h + 2, BinarySampler = nextAddr h + 3,
                 GaussianSampler = nextAddr h + 4, PolyEvaluator = nextAddr h + 5,
                 EncSecretKey = \<lparr> LWELargeKey = nil_slice, GLWEKey = [],
                                  FourierGLWEKey = [], LWEKey = nil_slice \<rparr>,
                 buffer = nextAddr h + 6 \<rparr>"
  let ?h9 = "h\<lparr>nextAddr := nextAddr h + 8,
              samplers := (samplers h)(nextAddr h + 3 \<mapsto> 0),
              encryptors := (encryptors h)(?ea \<mapsto> ?enc)\<rparr>"
  have unf: "NewEncryptor rng p h =
      (case GenSecretKey rng ?ea ?h9 of
         Inl err \<Rightarrow> Inl err
       | Inr (sk, h10) \<Rightarrow>
           Inr (?ea, h10\<lparr>encryptors := (encryptors h10)(?ea \<mapsto> ?enc\<lparr>EncSecretKey := sk\<rparr>)\<rparr>))"
    by (simp add: NewEncryptor_def Let_def numeral_eq_Suc cong: sum.case_cong split: prod.splits)
  have "encryptors ?h9 ?ea = Some ?enc" by simp
  moreover have "key_params_ok (EncParameters ?enc)" using assms by simp
  ultimately obtain sk h10 where "GenSecretKey rng ?ea ?h9 = Inr (sk, h10)"
    using GenSecretKey_ok by blast
  then show ?thesis unfolding unf by simp
qed

text \<open>The parameter sets of the levels built by \<open>hierarchy_build\<close>.\<close>

fun level_params ::
  "'a::len Parameters \<Rightarrow> nat \<Rightarrow> int \<Rightarrow> int \<Rightarrow> int \<Rightarrow> int \<Rightarrow> 'a Parameters list" where
  "level_params params 0 N L g lg = []"
| "level_params params (Suc k) N L g lg =
    params\<lparr>polyDegree := N, lookUpTableSize := L, glweDimension := g, logPolyDegree := lg\<rparr>
      # level_params params k (N sdiv 2) (L sdiv 2) (g sdiv 2) (wrap64 (lg - 1))"

lemma length_level_params [simp]: "length (level_params params k N L g lg) = k"
  by (induction k arbitrary: N L g lg) simp_all

lemma hierarchy_build_Inr_aux:
  "hierarchy_build rng params k N L g lg h = Inr (encs, h') \<Longrightarrow>
    length encs = k \<and> nextAddr h \<le> nextAddr h'
    \<and> (\<forall>a \<in> set encs. nextAddr h \<le> a \<and> a < nextAddr h')
    \<and> distinct encs
    \<and> (\<forall>i < k. \<exists>e. encryptors h' (encs ! i) = Some e
          \<and> EncParameters e = level_params params k N L g lg ! i
          \<and> length (GLWEKey (EncSecretKey e)) = nat (glweRank params))
    \<and> (\<forall>a < nextAddr h. encryptors h' a = encryptors h a)
    \<and> (\<forall>p \<in> set (level_params params k N L g lg).
          lweDimension p \<le> int (nat (glweDimension p)))"
proof (induction k arbitrary: N L g lg h encs h')
  case 0
  then show ?case by simp
next
  case (Suc k)
  let ?p = "params\<lparr>polyDegree := N, lookUpTableSize := L, glweDimension := g,
                     logPolyDegree := lg\<rparr>"
  from Suc.prems obtain ea h1 eas where
    n: "NewEncryptor rng ?p h = Inr (ea, h1)"
    and b: "hierarchy_build rng params k (N sdiv 2) (L sdiv 2) (g sdiv 2) (wrap64 (lg - 1)) h1
              = Inr (eas, h')"
    and r: "encs = ea # eas"
    by (auto simp: Let_def split: sum.splits)
  from n obtain e where e: "ea = nextAddr h + 7" "ea < nextAddr h1"
    "encryptors h1 = (encryptors h)(ea \<mapsto> e)" "EncParameters e = ?p"
    "length (GLWEKey (EncSecretKey e)) = nat (glweRank ?p)"
    "lweDimension ?p \<le> int (nat (glweDimension ?p))"
    by (rule NewEncryptor_Inr)
  note ih = Suc.IH [OF b]
  from ih have i1: "length eas = k" and i2: "nextAddr h1 \<le> nextAddr h'"
    and i3: "\<forall>a \<in> set eas. nextAddr h1 \<le> a \<and> a < nextAddr h'"
    and i4: "distinct eas"
    and i5: "\<forall>i < k. \<exists>e. encryptors h' (eas ! i) = Some e
          \<and> EncParameters e = level_params params k (N sdiv 2) (L sdiv 2) (g sdiv 2)
                (wrap64 (lg - 1)) ! i
          \<and> length (GLWEKey (EncSecretKey e)) = nat (glweRank params)"
    and i6: "\<forall>a < nextAddr h1. encryptors h' a = encryptors h1 a"
    and i7: "\<forall>p \<in> set (level_params params k (N sdiv 2) (L sdiv 2) (g sdiv 2) (wrap64 (lg - 1))).
          lweDimension p \<le> int (nat (glweDimension p))"
    by blast+
  have c1: "length encs = Suc k" by (simp add: r i1)
  have c2: "nextAddr h \<le> nextAddr h'" using e(1,2) i2 by linarith
  have c3: "\<forall>a \<in> set encs. nextAddr h \<le> a \<and> a < nextAddr h'"
  proof
    fix a assume "a \<in> set encs"
    then consider "a = ea" | "a \<in> set eas" by (auto simp: r)
    then show "nextAddr h \<le> a \<and> a < nextAddr h'"
    proof cases
      case 1
      then show ?thesis using e(1,2) i2 by linarith
    next
      case 2
      with i3 have "nextAddr h1 \<le> a \<and> a < nextAddr h'" by blast
      then show ?thesis using e(1,2) by linarith
    qed
  qed
  have "ea \<notin> set eas"
  proof
    assume "ea \<in> set eas"
    with i3 have "nextAddr h1 \<le> ea" by blast
    with e(2) show False by linarith
  qed
  with i4 have c4: "distinct encs" by (simp add: r)
  have e0: "encryptors h' ea = Some e" using i6 e(2,3) by simp
  have c5: "\<forall>i < Suc k. \<exists>e. encryptors h' (encs ! i) = Some e
          \<and> EncParameters e = level_params params (Suc k) N L g lg ! i
          \<and> length (GLWEKey (EncSecretKey e)) = nat (glweRank params)"
  proof (intro allI impI)
    fix i assume i: "i < Suc k"
    show "\<exists>e. encryptors h' (encs ! i) = Some e
          \<and> EncParameters e = level_params params (Suc k) N L g lg ! i
          \<and> length (GLWEKey (EncSecretKey e)) = nat (glweRank params)"
    proof (cases i)
      case 0
      then show ?thesis using e0 e(4,5) by (simp add: r)
    next
      case (Suc j)
      with i have "j < k" by simp
      with i5 show ?thesis by (simp add: r Suc)
    qed
  qed
  have c6: "\<forall>a < nextAddr h. encryptors h' a = encryptors h a"
  proof (intro allI impI)
    fix a assume a: "a < nextAddr h"
    then have "a < nextAddr h1" "a \<noteq> ea" using e(1,2) by linarith+
    then show "encryptors h' a = encryptors h a" using i6 e(3) by simp
  qed
  have c7: "\<forall>p \<in> set (level_params params (Suc k) N L g lg).
          lweDimension p \<le> int (nat (glweDimension p))"
    using e(6) i7 by (auto split: if_splits)
  from c1 c2 c3 c4 c5 c6 c7 show ?case by blast
qed

lemma hierarchy_build_ok:
  "\<forall>p \<in> set (level_params params k N L g lg). key_params_ok p \<Longrightarrow>
    \<exists>encs h'. hierarchy_build rng params k N L g lg h = Inr (encs, h')"
proof (induction k arbitrary: N L g lg h)
  case 0
  show ?case by simp
next
  case (Suc k)
  let ?p = "params\<lparr>polyDegree := N, lookUpTableSize := L, glweDimension := g,
                     logPolyDegree := lg\<rparr>"
  from Suc.prems have "key_params_ok ?p" by simp
  then obtain ea h1 where n: "NewEncryptor rng ?p h = Inr (ea, h1)"
    using NewEncryptor_ok by blast
  from Suc.prems have "\<forall>p \<in> set (level_params params k (N sdiv 2) (L sdiv 2) (g sdiv 2)
      (wrap64 (lg - 1))). key_params_ok p" by simp
  from Suc.IH [OF this] obtain eas h' where
    "hierarchy_build rng params k (N sdiv 2) (L sdiv 2) (g sdiv 2) (wrap64 (lg - 1)) h1
       = Inr (eas, h')" by blast
  with n show ?case by (simp add: Let_def)
qed

text \<open>The fields of the level parameter sets.\<close>

lemma level_params_nth:
  "i < k \<Longrightarrow>
    lweDimension (level_params params k N L g lg ! i) = lweDimension params
    \<and> glweRank (level_params params k N L g lg ! i) = glweRank params
    \<and> polyDegree (level_params params k N L g lg ! i) = ((\<lambda>x. x sdiv 2) ^^ i) N
    \<and> glweDimension (level_params params k N L g lg ! i) = ((\<lambda>x. x sdiv 2) ^^ i) g"
proof (induction k arbitrary: i N L g lg)
  case 0
  then show ?case by simp
next
  case (Suc k)
  show ?case
  proof (cases i)
    case 0
    then show ?thesis by simp
  next
    case (Suc j)
    with Suc.prems have "j < k" by simp
    from Suc.IH [OF this, of "N sdiv 2" "L sdiv 2" "g sdiv 2" "wrap64 (lg - 1)"]
    show ?thesis by (simp add: Suc funpow_Suc_right del: funpow.simps)
  qed
qed

lemma halve_funpow: "0 \<le> (x::int) \<Longrightarrow> ((\<lambda>x. x sdiv 2) ^^ i) x = x div 2 ^ i"
proof (induction i)
  case 0
  show ?case by simp
next
  case (Suc i)
  then have "((\<lambda>x. x sdiv 2) ^^ i) x = x div 2 ^ i" by simp
  moreover have "0 \<le> x div 2 ^ i" using Suc.prems by (simp add: pos_imp_zdiv_nonneg_iff)
  moreover have "x div (2 ^ i * 2) = x div 2 ^ i div 2" by (rule zdiv_zmult2_eq) simp
  ultimately show ?case by (simp add: sdiv_pos mult.commute)
qed


subsection \<open>Sharing the key of the first encryptor\<close>

lemma set_glwe_views_Inr:
  "set_glwe_views large N js polys = Inr polys' \<Longrightarrow> distinct js \<Longrightarrow>
    length polys' = length polys
    \<and> (\<forall>j \<in> set js. j < length polys
          \<and> reslice large (wrap64 (int j * N)) (wrap64 ((int j + 1) * N)) = Inr (polys' ! j))
    \<and> (\<forall>j. j \<notin> set js \<longrightarrow> polys' ! j = polys ! j)"
proof (induction js arbitrary: polys)
  case Nil
  then show ?case by simp
next
  case (Cons j js)
  from Cons.prems(1) have lt: "j < length polys"
    by (auto split: if_splits)
  with Cons.prems(1) obtain v where
    v: "reslice large (wrap64 (int j * N)) (wrap64 ((int j + 1) * N)) = Inr v"
    and rest: "set_glwe_views large N js (polys[j := v]) = Inr polys'"
    by (auto split: sum.splits)
  from Cons.prems(2) have d: "distinct js" and nj: "j \<notin> set js" by simp_all
  from Cons.IH [OF rest d] have
    i1: "length polys' = length polys"
    and i2: "\<forall>j' \<in> set js. j' < length polys
          \<and> reslice large (wrap64 (int j' * N)) (wrap64 ((int j' + 1) * N)) = Inr (polys' ! j')"
    and i3: "\<forall>j'. j' \<notin> set js \<longrightarrow> polys' ! j' = polys[j := v] ! j'"
    by simp_all
  from i3 nj lt have pj: "polys' ! j = v" by simp
  have c2: "\<forall>j' \<in> set (j # js). j' < length polys
          \<and> reslice large (wrap64 (int j' * N)) (wrap64 ((int j' + 1) * N)) = Inr (polys' ! j')"
    using i2 lt v pj by simp
  have c3: "\<forall>j'. j' \<notin> set (j # js) \<longrightarrow> polys' ! j' = polys ! j'"
    using i3 by simp
  from i1 c2 c3 show ?case by blast
qed

lemma set_glwe_views_ok:
  "\<forall>j \<in> set js. j < length polys
       \<and> (\<exists>v. reslice large (wrap64 (int j * N)) (wrap64 ((int j + 1) * N)) = Inr v) \<Longrightarrow>
    \<exists>polys'. set_glwe_views large N js polys = Inr polys'"
proof (induction js arbitrary: polys)
  case Nil
  show ?case by simp
next
  case (Cons j js)
  from Cons.prems obtain v where lt: "j < length polys"
    and v: "reslice large (wrap64 (int j * N)) (wrap64 ((int j + 1) * N)) = Inr v"
    by auto
  from Cons.prems have "\<forall>j' \<in> set js. j' < length (polys[j := v])
       \<and> (\<exists>v. reslice large (wrap64 (int j' * N)) (wrap64 ((int j' + 1) * N)) = Inr v)"
    by simp
  from Cons.IH [OF this] obtain polys' where
    "set_glwe_views large N js (polys[j := v]) = Inr polys'" by blast
  with lt v show ?case by simp
qed

text \<open>What one round of the second loop stores in the encryptor \<open>ea\<close>.\<close>

lemma share_key_Inr:
  assumes "share_key ea0 ea h = Inr h'"
  obtains e0 e large lwe polys where
    "encryptors h ea0 = Some e0" "encryptors h ea = Some e"
    "reslice (LWELargeKey (EncSecretKey e0)) 0 (glweDimension (EncParameters e)) = Inr large"
    "reslice large 0 (lweDimension (EncParameters e)) = Inr lwe"
    "set_glwe_views large (polyDegree (EncParameters e)) [0..<nat (glweRank (EncParameters e))]
       (GLWEKey (EncSecretKey e)) = Inr polys"
    "encryptors h' = (encryptors h)(ea \<mapsto>
       e\<lparr>EncSecretKey := (EncSecretKey e)\<lparr>LWELargeKey := large, LWEKey := lwe,
                                            GLWEKey := polys\<rparr>\<rparr>)"
    "arrays h' = arrays h" "nextAddr h' = nextAddr h"
proof -
  from assms obtain e0 e where e: "encryptors h ea0 = Some e0" "encryptors h ea = Some e"
    by (auto simp: share_key_def split: option.splits)
  from assms e obtain large where
    l: "reslice (LWELargeKey (EncSecretKey e0)) 0 (glweDimension (EncParameters e)) = Inr large"
    by (auto simp: share_key_def split: sum.splits)
  from assms e l obtain lwe where
    w: "reslice large 0 (lweDimension (EncParameters e)) = Inr lwe"
    by (auto simp: share_key_def split: sum.splits)
  from assms e l w obtain polys where
    p: "set_glwe_views large (polyDegree (EncParameters e)) [0..<nat (glweRank (EncParameters e))]
       (GLWEKey (EncSecretKey e)) = Inr polys"
    by (auto simp: share_key_def split: sum.splits)
  let ?sk = "(EncSecretKey e)\<lparr>LWELargeKey := large, LWEKey := lwe, GLWEKey := polys\<rparr>"
  let ?h1 = "h\<lparr>encryptors := (encryptors h)(ea \<mapsto> e\<lparr>EncSecretKey := ?sk\<rparr>)\<rparr>"
  from assms e l w p have h': "h' = ToFourierGLWESecretKeyAssign (GLWEKey ?sk) (FourierGLWEKey ?sk) ?h1"
    by (simp add: share_key_def Let_def)
  note f = ToFourier_frame [of "GLWEKey ?sk" "FourierGLWEKey ?sk" ?h1]
  show ?thesis
  proof (rule that [OF e l w p])
    show "encryptors h' = (encryptors h)(ea \<mapsto> e\<lparr>EncSecretKey := ?sk\<rparr>)"
      unfolding h' using f by simp
    show "arrays h' = arrays h" unfolding h' using f by simp
    show "nextAddr h' = nextAddr h" unfolding h' using f by simp
  qed
qed

lemma share_key_ok:
  assumes e: "encryptors h ea0 = Some e0" "encryptors h ea = Some e"
    and ok: "key_params_ok (EncParameters e)"
    and le: "glweDimension (EncParameters e) \<le> int (scap (LWELargeKey (EncSecretKey e0)))"
    and len: "length (GLWEKey (EncSecretKey e)) = nat (glweRank (EncParameters e))"
    and rg: "int64_range (int (scap (LWELargeKey (EncSecretKey e0))))"
  shows "\<exists>h'. share_key ea0 ea h = Inr h'"
proof -
  let ?p = "EncParameters e" and ?root = "LWELargeKey (EncSecretKey e0)"
  from ok have a: "0 \<le> lweDimension ?p" "lweDimension ?p \<le> glweDimension ?p" "0 \<le> glweRank ?p"
    "0 \<le> polyDegree ?p" "glweRank ?p * polyDegree ?p \<le> glweDimension ?p"
    by (simp_all add: key_params_ok_def)
  have g: "0 \<le> glweDimension ?p" using a(1,2) by linarith
  let ?large = "\<lparr> sbuf = sbuf ?root, soff = soff ?root + nat 0,
                   slen = nat (glweDimension ?p - 0), scap = scap ?root - nat 0 \<rparr>"
  have l: "reslice ?root 0 (glweDimension ?p) = Inr ?large"
    using g le by (rule reslice_ok [OF order_refl])
  have "\<exists>lwe. reslice ?large 0 (lweDimension ?p) = Inr lwe"
    using a(1,2) le by (simp add: reslice_ok)
  then obtain lwe where w: "reslice ?large 0 (lweDimension ?p) = Inr lwe" by blast
  have "\<forall>j \<in> set [0..<nat (glweRank ?p)]. j < length (GLWEKey (EncSecretKey e))
       \<and> (\<exists>v. reslice ?large (wrap64 (int j * polyDegree ?p))
                 (wrap64 ((int j + 1) * polyDegree ?p)) = Inr v)"
  proof
    fix j assume j: "j \<in> set [0..<nat (glweRank ?p)]"
    then have jk: "int j + 1 \<le> glweRank ?p" by simp
    then have "(int j + 1) * polyDegree ?p \<le> glweRank ?p * polyDegree ?p"
      using a(4) by (rule mult_right_mono)
    with a(5) le have hi: "(int j + 1) * polyDegree ?p \<le> int (scap ?root)" by linarith
    have lo: "0 \<le> int j * polyDegree ?p" using a(4) by simp
    have lh: "int j * polyDegree ?p \<le> (int j + 1) * polyDegree ?p"
      using a(4) by (simp add: distrib_right)
    have r2: "int64_range ((int j + 1) * polyDegree ?p)"
      by (rule int64_rangeI [OF _ hi rg]) (use lo lh in linarith)
    have r1: "int64_range (int j * polyDegree ?p)" by (rule int64_rangeI [OF lo lh r2])
    have "\<exists>v. reslice ?large (wrap64 (int j * polyDegree ?p))
                 (wrap64 ((int j + 1) * polyDegree ?p)) = Inr v"
      unfolding wrap64_id [OF r1] wrap64_id [OF r2] using lo lh hi by (simp add: reslice_ok)
    moreover from j have "j < length (GLWEKey (EncSecretKey e))" by (simp add: len)
    ultimately show "j < length (GLWEKey (EncSecretKey e))
       \<and> (\<exists>v. reslice ?large (wrap64 (int j * polyDegree ?p))
                 (wrap64 ((int j + 1) * polyDegree ?p)) = Inr v)" by blast
  qed
  from set_glwe_views_ok [OF this] obtain polys where
    p: "set_glwe_views ?large (polyDegree ?p) [0..<nat (glweRank ?p)] (GLWEKey (EncSecretKey e))
         = Inr polys" by blast
  show ?thesis using e l w p by (simp add: share_key_def Let_def)
qed

text \<open>The key of the encryptor \<open>e\<close> views the slice \<open>key0\<close>: what the second loop stores.\<close>

definition views_root :: "slice \<Rightarrow> 'a::len Encryptor \<Rightarrow> bool" where
  "views_root key0 e =
    (reslice key0 0 (glweDimension (EncParameters e)) = Inr (LWELargeKey (EncSecretKey e))
     \<and> reslice (LWELargeKey (EncSecretKey e)) 0 (lweDimension (EncParameters e))
         = Inr (LWEKey (EncSecretKey e))
     \<and> (\<forall>j < nat (glweRank (EncParameters e)).
          reslice (LWELargeKey (EncSecretKey e)) (wrap64 (int j * polyDegree (EncParameters e)))
            (wrap64 ((int j + 1) * polyDegree (EncParameters e)))
          = Inr (GLWEKey (EncSecretKey e) ! j)))"

lemma share_key_views:
  assumes "share_key ea0 ea h = Inr h'" and ne: "ea \<noteq> ea0"
  obtains e0 e e' where "encryptors h ea0 = Some e0" "encryptors h ea = Some e"
    "encryptors h' = (encryptors h)(ea \<mapsto> e')" "EncParameters e' = EncParameters e"
    "views_root (LWELargeKey (EncSecretKey e0)) e'"
    "arrays h' = arrays h" "nextAddr h' = nextAddr h"
proof -
  from assms(1) obtain e0 e large lwe polys where s:
    "encryptors h ea0 = Some e0" "encryptors h ea = Some e"
    "reslice (LWELargeKey (EncSecretKey e0)) 0 (glweDimension (EncParameters e)) = Inr large"
    "reslice large 0 (lweDimension (EncParameters e)) = Inr lwe"
    "set_glwe_views large (polyDegree (EncParameters e)) [0..<nat (glweRank (EncParameters e))]
       (GLWEKey (EncSecretKey e)) = Inr polys"
    "encryptors h' = (encryptors h)(ea \<mapsto>
       e\<lparr>EncSecretKey := (EncSecretKey e)\<lparr>LWELargeKey := large, LWEKey := lwe,
                                            GLWEKey := polys\<rparr>\<rparr>)"
    "arrays h' = arrays h" "nextAddr h' = nextAddr h"
    by (rule share_key_Inr)
  let ?e' = "e\<lparr>EncSecretKey := (EncSecretKey e)\<lparr>LWELargeKey := large, LWEKey := lwe,
                                                  GLWEKey := polys\<rparr>\<rparr>"
  have d: "distinct [0..<nat (glweRank (EncParameters e))]" by simp
  from set_glwe_views_Inr [OF s(5) d]
  have v: "\<forall>j < nat (glweRank (EncParameters e)).
      reslice large (wrap64 (int j * polyDegree (EncParameters e)))
        (wrap64 ((int j + 1) * polyDegree (EncParameters e))) = Inr (polys ! j)"
    by simp
  have "views_root (LWELargeKey (EncSecretKey e0)) ?e'"
    using s(3,4) v by (simp add: views_root_def)
  moreover have "EncParameters ?e' = EncParameters e" by simp
  ultimately show ?thesis using that s(1,2,6,7,8) by blast
qed


lemma hierarchy_share_Inr:
  "hierarchy_share encs is h = Inr h' \<Longrightarrow> distinct encs \<Longrightarrow> distinct is \<Longrightarrow>
    \<forall>i \<in> set is. 0 < i \<and> i < length encs \<Longrightarrow> 0 < length encs \<Longrightarrow>
    encryptors h (encs ! 0) = Some e0 \<Longrightarrow>
    arrays h' = arrays h \<and> nextAddr h' = nextAddr h \<and> encryptors h' (encs ! 0) = Some e0
    \<and> (\<forall>i \<in> set is. \<exists>e e'. encryptors h (encs ! i) = Some e
          \<and> encryptors h' (encs ! i) = Some e' \<and> EncParameters e' = EncParameters e
          \<and> views_root (LWELargeKey (EncSecretKey e0)) e')
    \<and> (\<forall>a. a \<notin> (\<lambda>i. encs ! i) ` set is \<longrightarrow> encryptors h' a = encryptors h a)"
proof (induction "is" arbitrary: h)
  case Nil
  then show ?case by simp
next
  case (Cons i "is")
  from Cons.prems(1) obtain h1 where
    s: "share_key (encs ! 0) (encs ! i) h = Inr h1"
    and rest: "hierarchy_share encs is h1 = Inr h'"
    by (auto split: sum.splits)
  from Cons.prems(4) have i: "0 < i" "i < length encs" by simp_all
  from Cons.prems(3) have dis: "distinct is" and ni: "i \<notin> set is" by simp_all
  from Cons.prems(4) have rng: "\<forall>i \<in> set is. 0 < i \<and> i < length encs" by simp
  have ne: "encs ! i \<noteq> encs ! 0"
    using Cons.prems(2,5) i by (simp add: nth_eq_iff_index_eq)
  from s ne obtain e0' e e' where k:
    "encryptors h (encs ! 0) = Some e0'" "encryptors h (encs ! i) = Some e"
    "encryptors h1 = (encryptors h)(encs ! i \<mapsto> e')" "EncParameters e' = EncParameters e"
    "views_root (LWELargeKey (EncSecretKey e0')) e'"
    "arrays h1 = arrays h" "nextAddr h1 = nextAddr h"
    by (rule share_key_views)
  from k(1) Cons.prems(6) have e0': "e0' = e0" by simp
  have r1: "encryptors h1 (encs ! 0) = Some e0"
    using ne Cons.prems(6) by (simp add: k(3))
  from Cons.IH [OF rest Cons.prems(2) dis rng Cons.prems(5) r1] have
    i1: "arrays h' = arrays h1" and i2: "nextAddr h' = nextAddr h1"
    and i3: "encryptors h' (encs ! 0) = Some e0"
    and i4: "\<forall>i \<in> set is. \<exists>e e'. encryptors h1 (encs ! i) = Some e
          \<and> encryptors h' (encs ! i) = Some e' \<and> EncParameters e' = EncParameters e
          \<and> views_root (LWELargeKey (EncSecretKey e0)) e'"
    and i5: "\<forall>a. a \<notin> (\<lambda>i. encs ! i) ` set is \<longrightarrow> encryptors h' a = encryptors h1 a"
    by blast+
  have other: "encs ! j \<noteq> encs ! i" if "j \<in> set is" for j
  proof -
    from that ni have "j \<noteq> i" by blast
    moreover from that rng have "j < length encs" by blast
    ultimately show ?thesis using Cons.prems(2) i(2) by (simp add: nth_eq_iff_index_eq)
  qed
  have notin: "encs ! i \<notin> (\<lambda>i. encs ! i) ` set is"
    using other by force
  have c4: "\<forall>j \<in> set (i # is). \<exists>e e'. encryptors h (encs ! j) = Some e
          \<and> encryptors h' (encs ! j) = Some e' \<and> EncParameters e' = EncParameters e
          \<and> views_root (LWELargeKey (EncSecretKey e0)) e'"
  proof
    fix j assume "j \<in> set (i # is)"
    then consider "j = i" | "j \<in> set is" by auto
    then show "\<exists>e e'. encryptors h (encs ! j) = Some e
          \<and> encryptors h' (encs ! j) = Some e' \<and> EncParameters e' = EncParameters e
          \<and> views_root (LWELargeKey (EncSecretKey e0)) e'"
    proof cases
      case 1
      have "encryptors h' (encs ! i) = Some e'" using i5 notin by (simp add: k(3))
      with k(2,4,5) show ?thesis by (simp add: 1 e0')
    next
      case 2
      with i4 obtain e2 e2' where "encryptors h1 (encs ! j) = Some e2"
        "encryptors h' (encs ! j) = Some e2'" "EncParameters e2' = EncParameters e2"
        "views_root (LWELargeKey (EncSecretKey e0)) e2'" by blast
      moreover have "encryptors h1 (encs ! j) = encryptors h (encs ! j)"
        using other [OF 2] by (simp add: k(3))
      ultimately show ?thesis by simp
    qed
  qed
  have c5: "\<forall>a. a \<notin> (\<lambda>i. encs ! i) ` set (i # is) \<longrightarrow> encryptors h' a = encryptors h a"
  proof (intro allI impI)
    fix a assume a: "a \<notin> (\<lambda>i. encs ! i) ` set (i # is)"
    then have "a \<noteq> encs ! i" "a \<notin> (\<lambda>i. encs ! i) ` set is" by auto
    then show "encryptors h' a = encryptors h a" using i5 by (simp add: k(3))
  qed
  from i1 i2 i3 c4 c5 k(6,7) show ?case by simp
qed

lemma hierarchy_share_ok:
  "distinct encs \<Longrightarrow> distinct is \<Longrightarrow> \<forall>i \<in> set is. 0 < i \<and> i < length encs \<Longrightarrow>
    0 < length encs \<Longrightarrow> encryptors h (encs ! 0) = Some e0 \<Longrightarrow>
    int64_range (int (scap (LWELargeKey (EncSecretKey e0)))) \<Longrightarrow>
    \<forall>i \<in> set is. \<exists>e. encryptors h (encs ! i) = Some e \<and> key_params_ok (EncParameters e)
       \<and> glweDimension (EncParameters e) \<le> int (scap (LWELargeKey (EncSecretKey e0)))
       \<and> length (GLWEKey (EncSecretKey e)) = nat (glweRank (EncParameters e)) \<Longrightarrow>
    \<exists>h'. hierarchy_share encs is h = Inr h'"
proof (induction "is" arbitrary: h)
  case Nil
  show ?case by simp
next
  case (Cons i "is")
  from Cons.prems(3) have i: "0 < i" "i < length encs" by simp_all
  from Cons.prems(2) have dis: "distinct is" and ni: "i \<notin> set is" by simp_all
  from Cons.prems(3) have rng: "\<forall>i \<in> set is. 0 < i \<and> i < length encs" by simp
  have ne: "encs ! i \<noteq> encs ! 0"
    using Cons.prems(1,4) i by (simp add: nth_eq_iff_index_eq)
  from Cons.prems(7) obtain e where e: "encryptors h (encs ! i) = Some e"
    "key_params_ok (EncParameters e)"
    "glweDimension (EncParameters e) \<le> int (scap (LWELargeKey (EncSecretKey e0)))"
    "length (GLWEKey (EncSecretKey e)) = nat (glweRank (EncParameters e))"
    by auto
  from share_key_ok [OF Cons.prems(5) e(1,2,3,4) Cons.prems(6)] obtain h1 where
    s: "share_key (encs ! 0) (encs ! i) h = Inr h1" by blast
  from s ne obtain e0' e1 e' where "encryptors h (encs ! 0) = Some e0'"
    "encryptors h (encs ! i) = Some e1"
    and k: "encryptors h1 = (encryptors h)(encs ! i \<mapsto> e')"
    by (rule share_key_views)
  have r1: "encryptors h1 (encs ! 0) = Some e0"
    using ne Cons.prems(5) by (simp add: k)
  have "\<forall>j \<in> set is. \<exists>e. encryptors h1 (encs ! j) = Some e \<and> key_params_ok (EncParameters e)
       \<and> glweDimension (EncParameters e) \<le> int (scap (LWELargeKey (EncSecretKey e0)))
       \<and> length (GLWEKey (EncSecretKey e)) = nat (glweRank (EncParameters e))"
  proof
    fix j assume j: "j \<in> set is"
    with ni have "j \<noteq> i" by blast
    moreover from j rng have "j < length encs" by blast
    ultimately have "encs ! j \<noteq> encs ! i"
      using Cons.prems(1) i(2) by (simp add: nth_eq_iff_index_eq)
    then have "encryptors h1 (encs ! j) = encryptors h (encs ! j)" by (simp add: k)
    moreover from j Cons.prems(7) have "\<exists>e. encryptors h (encs ! j) = Some e
       \<and> key_params_ok (EncParameters e)
       \<and> glweDimension (EncParameters e) \<le> int (scap (LWELargeKey (EncSecretKey e0)))
       \<and> length (GLWEKey (EncSecretKey e)) = nat (glweRank (EncParameters e))" by simp
    ultimately show "\<exists>e. encryptors h1 (encs ! j) = Some e \<and> key_params_ok (EncParameters e)
       \<and> glweDimension (EncParameters e) \<le> int (scap (LWELargeKey (EncSecretKey e0)))
       \<and> length (GLWEKey (EncSecretKey e)) = nat (glweRank (EncParameters e))" by simp
  qed
  from Cons.IH [OF Cons.prems(1) dis rng Cons.prems(4) r1 Cons.prems(6) this] obtain h' where
    "hierarchy_share encs is h1 = Inr h'" by blast
  with s show ?case by simp
qed


subsection \<open>The hierarchy\<close>

lemma tz_loop_zero: "tz_loop n 0 = n"
  by (induction n) simp_all

lemma TrailingZeros_zero: "TrailingZeros 0 = 64"
  by (simp add: TrailingZeros_def tz_loop_zero)

lemma tz_loop_odd: "0 < n \<Longrightarrow> bit w 0 \<Longrightarrow> tz_loop n w = 0"
  by (cases n) simp_all

lemma TrailingZeros_one: "TrailingZeros 1 = 0"
  by (simp add: TrailingZeros_def tz_loop_odd)

text \<open>What a returning call has built: the first encryptor owns a key array of
  \<open>glweDimension / 2\<close> values, and every later encryptor views it.\<close>

lemma hierarchy_Inr:
  assumes "NewEncryptorHierarchyWithSharedLWEKey rng params h = Inr (encs, h')"
  obtains e0 xs where
    "0 < length encs" "length encs = hierarchy_depth params" "distinct encs"
    "encryptors h' (encs ! 0) = Some e0"
    "EncParameters e0 = params\<lparr>polyDegree := polyDegree params sdiv 2,
        lookUpTableSize := lookUpTableSize params sdiv 2,
        glweDimension := glweDimension params sdiv 2,
        logPolyDegree := wrap64 (logPolyDegree params - 1)\<rparr>"
    "soff (LWELargeKey (EncSecretKey e0)) = 0"
    "slen (LWELargeKey (EncSecretKey e0)) = nat (glweDimension params sdiv 2)"
    "scap (LWELargeKey (EncSecretKey e0)) = nat (glweDimension params sdiv 2)"
    "arrays h' (sbuf (LWELargeKey (EncSecretKey e0))) = Some xs"
    "length xs = nat (glweDimension params sdiv 2)"
    "\<forall>d. 1 \<le> d \<and> d < length encs \<longrightarrow>
       (\<exists>e. encryptors h' (encs ! d) = Some e \<and> views_root (LWELargeKey (EncSecretKey e0)) e
          \<and> EncParameters e = level_params params (hierarchy_depth params)
                (polyDegree params sdiv 2) (lookUpTableSize params sdiv 2)
                (glweDimension params sdiv 2) (wrap64 (logPolyDegree params - 1)) ! d)"
    "\<forall>p \<in> set (level_params params (hierarchy_depth params) (polyDegree params sdiv 2)
        (lookUpTableSize params sdiv 2) (glweDimension params sdiv 2)
        (wrap64 (logPolyDegree params - 1))). lweDimension p \<le> int (nat (glweDimension p))"
proof -
  let ?depth = "hierarchy_depth params"
  let ?N = "polyDegree params sdiv 2" and ?L = "lookUpTableSize params sdiv 2"
  let ?g = "glweDimension params sdiv 2" and ?lg = "wrap64 (logPolyDegree params - 1)"
  have "\<exists>encs1 h1. hierarchy_build rng params ?depth ?N ?L ?g ?lg h = Inr (encs1, h1)"
    using assms
    by (cases "hierarchy_build rng params ?depth ?N ?L ?g ?lg h")
      (auto simp: NewEncryptorHierarchyWithSharedLWEKey_def Let_def)
  then obtain encs1 h1 where
    b1: "hierarchy_build rng params ?depth ?N ?L ?g ?lg h = Inr (encs1, h1)" by blast
  from assms b1 have "encs1 = encs \<and> 0 < length encs
      \<and> (\<exists>sk h2 e1. GenSecretKey rng (encs ! 0) h1 = Inr (sk, h2)
            \<and> encryptors h2 (encs ! 0) = Some e1
            \<and> hierarchy_share encs [1..<?depth]
                 (h2\<lparr>encryptors := (encryptors h2)(encs ! 0 \<mapsto> e1\<lparr>EncSecretKey := sk\<rparr>)\<rparr>)
                = Inr h')"
    by (auto simp: NewEncryptorHierarchyWithSharedLWEKey_def Let_def
        split: if_splits sum.splits option.splits)
  with b1 obtain sk h2 e1 where
    b: "hierarchy_build rng params ?depth ?N ?L ?g ?lg h = Inr (encs, h1)"
    and len: "0 < length encs"
    and g: "GenSecretKey rng (encs ! 0) h1 = Inr (sk, h2)"
    and e1: "encryptors h2 (encs ! 0) = Some e1"
    and sh: "hierarchy_share encs [1..<?depth]
                 (h2\<lparr>encryptors := (encryptors h2)(encs ! 0 \<mapsto> e1\<lparr>EncSecretKey := sk\<rparr>)\<rparr>)
                = Inr h'"
    by blast
  let ?e0 = "e1\<lparr>EncSecretKey := sk\<rparr>"
  let ?h2 = "h2\<lparr>encryptors := (encryptors h2)(encs ! 0 \<mapsto> ?e0)\<rparr>"
  note bi = hierarchy_build_Inr_aux [OF b]
  from bi have l: "length encs = ?depth" and dist: "distinct encs"
    and lv: "\<forall>i < ?depth. \<exists>e. encryptors h1 (encs ! i) = Some e
          \<and> EncParameters e = level_params params ?depth ?N ?L ?g ?lg ! i
          \<and> length (GLWEKey (EncSecretKey e)) = nat (glweRank params)"
    and lw: "\<forall>p \<in> set (level_params params ?depth ?N ?L ?g ?lg).
          lweDimension p \<le> int (nat (glweDimension p))"
    by blast+
  from g obtain e1' where ge: "encryptors h1 (encs ! 0) = Some e1'"
    "encryptors h2 = encryptors h1"
    "LWELargeKey sk = \<lparr> sbuf = nextAddr h1, soff = 0,
         slen = nat (glweDimension (EncParameters e1')),
         scap = nat (glweDimension (EncParameters e1')) \<rparr>"
    "array_len h2 (nextAddr h1) (nat (glweDimension (EncParameters e1')))"
    by (rule GenSecretKey_Inr)
  from e1 ge(1,2) have e1': "e1' = e1" by simp
  from len l obtain k where k: "?depth = Suc k" by (cases ?depth) simp_all
  from lv len l ge(1) have p1: "EncParameters e1 = level_params params ?depth ?N ?L ?g ?lg ! 0"
    by (auto simp: e1')
  then have p0: "EncParameters e1 = params\<lparr>polyDegree := ?N, lookUpTableSize := ?L,
      glweDimension := ?g, logPolyDegree := ?lg\<rparr>"
    by (simp add: k)
  have gd: "glweDimension (EncParameters e1) = ?g" by (simp add: p0)
  have r0: "encryptors ?h2 (encs ! 0) = Some ?e0" by simp
  have d1: "distinct [1..<?depth]" by simp
  have rg: "\<forall>i \<in> set [1..<?depth]. 0 < i \<and> i < length encs" by (simp add: l)
  note si = hierarchy_share_Inr [OF sh dist d1 rg len r0]
  from si have a': "arrays h' = arrays ?h2" and e0': "encryptors h' (encs ! 0) = Some ?e0"
    and vs: "\<forall>i \<in> set [1..<?depth]. \<exists>e e'. encryptors ?h2 (encs ! i) = Some e
          \<and> encryptors h' (encs ! i) = Some e' \<and> EncParameters e' = EncParameters e
          \<and> views_root (LWELargeKey (EncSecretKey ?e0)) e'"
    by blast+
  from ge(4) obtain xs where xs: "arrays h2 (nextAddr h1) = Some xs"
    "length xs = nat (glweDimension (EncParameters e1))"
    by (auto simp: array_len_def e1')
  show ?thesis
  proof (rule that [of ?e0 xs])
    show "0 < length encs" by (rule len)
    show "length encs = ?depth" by (rule l)
    show "distinct encs" by (rule dist)
    show "encryptors h' (encs ! 0) = Some ?e0" by (rule e0')
    show "EncParameters ?e0 = params\<lparr>polyDegree := ?N, lookUpTableSize := ?L,
        glweDimension := ?g, logPolyDegree := ?lg\<rparr>" by (simp add: p0)
    show "soff (LWELargeKey (EncSecretKey ?e0)) = 0" by (simp add: ge(3))
    show "slen (LWELargeKey (EncSecretKey ?e0)) = nat ?g" by (simp add: ge(3) e1' gd)
    show "scap (LWELargeKey (EncSecretKey ?e0)) = nat ?g" by (simp add: ge(3) e1' gd)
    show "arrays h' (sbuf (LWELargeKey (EncSecretKey ?e0))) = Some xs"
      by (simp add: a' ge(3) xs(1))
    show "length xs = nat ?g" using xs(2) by (simp add: gd)
    show "\<forall>d. 1 \<le> d \<and> d < length encs \<longrightarrow>
       (\<exists>e. encryptors h' (encs ! d) = Some e \<and> views_root (LWELargeKey (EncSecretKey ?e0)) e
          \<and> EncParameters e = level_params params ?depth ?N ?L ?g ?lg ! d)"
    proof (intro allI impI)
      fix d assume d: "1 \<le> d \<and> d < length encs"
      then have "d \<in> set [1..<?depth]" by (simp add: l)
      with vs obtain e e' where v: "encryptors ?h2 (encs ! d) = Some e"
        "encryptors h' (encs ! d) = Some e'" "EncParameters e' = EncParameters e"
        "views_root (LWELargeKey (EncSecretKey ?e0)) e'" by blast
      from d lv l obtain e2 where e2: "encryptors h1 (encs ! d) = Some e2"
        "EncParameters e2 = level_params params ?depth ?N ?L ?g ?lg ! d" by auto
      have "encs ! d \<noteq> encs ! 0" using dist d len by (simp add: nth_eq_iff_index_eq)
      then have "encryptors ?h2 (encs ! d) = encryptors h1 (encs ! d)" by (simp add: ge(2))
      with v(1) e2(1) have "e = e2" by simp
      with v e2(2) show "\<exists>e. encryptors h' (encs ! d) = Some e
          \<and> views_root (LWELargeKey (EncSecretKey ?e0)) e
          \<and> EncParameters e = level_params params ?depth ?N ?L ?g ?lg ! d" by auto
    qed
    show "\<forall>p \<in> set (level_params params ?depth ?N ?L ?g ?lg).
          lweDimension p \<le> int (nat (glweDimension p))" by (rule lw)
  qed
qed


lemma halve_le: "0 \<le> (x::int) \<Longrightarrow> x div 2 ^ i \<le> x"
proof -
  assume x: "0 \<le> x"
  have "x div 2 ^ i \<le> x div 1" by (rule zdiv_mono2 [OF x]) simp_all
  then show ?thesis by simp
qed

text \<open>The call returns when the depth is positive and every level has parameters a key can
  be generated for.\<close>

lemma hierarchy_ok:
  assumes dp: "0 < hierarchy_depth params"
    and ok: "\<forall>p \<in> set (level_params params (hierarchy_depth params) (polyDegree params sdiv 2)
        (lookUpTableSize params sdiv 2) (glweDimension params sdiv 2)
        (wrap64 (logPolyDegree params - 1))). key_params_ok p"
  shows "\<exists>encs h'. NewEncryptorHierarchyWithSharedLWEKey rng params h = Inr (encs, h')"
proof -
  let ?depth = "hierarchy_depth params"
  let ?N = "polyDegree params sdiv 2" and ?L = "lookUpTableSize params sdiv 2"
  let ?g = "glweDimension params sdiv 2" and ?lg = "wrap64 (logPolyDegree params - 1)"
  let ?lp = "level_params params ?depth ?N ?L ?g ?lg"
  from hierarchy_build_ok [OF ok] obtain encs h1 where
    b: "hierarchy_build rng params ?depth ?N ?L ?g ?lg h = Inr (encs, h1)" by blast
  note bi = hierarchy_build_Inr_aux [OF b]
  from bi have l: "length encs = ?depth" and dist: "distinct encs"
    and lv: "\<forall>i < ?depth. \<exists>e. encryptors h1 (encs ! i) = Some e
          \<and> EncParameters e = ?lp ! i
          \<and> length (GLWEKey (EncSecretKey e)) = nat (glweRank params)"
    by blast+
  from l dp have len: "0 < length encs" by simp
  have okn: "key_params_ok (?lp ! i)" if "i < ?depth" for i
    using ok that by (simp add: all_set_conv_all_nth)
  from lv dp obtain e1 where e1: "encryptors h1 (encs ! 0) = Some e1"
    "EncParameters e1 = ?lp ! 0" by blast
  have ok1: "key_params_ok (EncParameters e1)" using okn [OF dp] by (simp add: e1(2))
  from GenSecretKey_ok [OF e1(1) ok1] obtain sk h2 where
    g: "GenSecretKey rng (encs ! 0) h1 = Inr (sk, h2)" by blast
  from g obtain e1' where ge: "encryptors h1 (encs ! 0) = Some e1'"
    "encryptors h2 = encryptors h1"
    "LWELargeKey sk = \<lparr> sbuf = nextAddr h1, soff = 0,
         slen = nat (glweDimension (EncParameters e1')),
         scap = nat (glweDimension (EncParameters e1')) \<rparr>"
    by (rule GenSecretKey_Inr)
  from e1(1) ge(1) have e1': "e1' = e1" by simp
  have g0: "glweDimension (EncParameters e1) = ?g"
    using level_params_nth [OF dp, of params ?N ?L ?g ?lg] by (simp add: e1(2))
  from ok1 have gpos: "0 \<le> ?g" and grg: "int64_range ?g"
    by (simp_all add: key_params_ok_def g0)
  let ?e0 = "e1\<lparr>EncSecretKey := sk\<rparr>"
  let ?h2 = "h2\<lparr>encryptors := (encryptors h2)(encs ! 0 \<mapsto> ?e0)\<rparr>"
  have cap: "int (scap (LWELargeKey (EncSecretKey ?e0))) = ?g"
    using gpos by (simp add: ge(3) e1' g0)
  have r0: "encryptors ?h2 (encs ! 0) = Some ?e0" by simp
  have d1: "distinct [1..<?depth]" by simp
  have rg: "\<forall>i \<in> set [1..<?depth]. 0 < i \<and> i < length encs" by (simp add: l)
  have rc: "int64_range (int (scap (LWELargeKey (EncSecretKey ?e0))))"
    unfolding cap by (rule grg)
  have lvl: "\<forall>i \<in> set [1..<?depth]. \<exists>e. encryptors ?h2 (encs ! i) = Some e
       \<and> key_params_ok (EncParameters e)
       \<and> glweDimension (EncParameters e) \<le> int (scap (LWELargeKey (EncSecretKey ?e0)))
       \<and> length (GLWEKey (EncSecretKey e)) = nat (glweRank (EncParameters e))"
  proof
    fix i assume "i \<in> set [1..<?depth]"
    then have i: "0 < i" "i < ?depth" by simp_all
    from lv i(2) obtain e where e: "encryptors h1 (encs ! i) = Some e"
      "EncParameters e = ?lp ! i" "length (GLWEKey (EncSecretKey e)) = nat (glweRank params)"
      by blast
    have "encs ! i \<noteq> encs ! 0" using dist i l by (simp add: nth_eq_iff_index_eq)
    then have a: "encryptors ?h2 (encs ! i) = Some e" by (simp add: ge(2) e(1))
    note f = level_params_nth [OF i(2), of params ?N ?L ?g ?lg]
    have b: "key_params_ok (EncParameters e)" using okn [OF i(2)] by (simp add: e(2))
    have "glweDimension (EncParameters e) = ?g div 2 ^ i"
      using f by (simp add: e(2) halve_funpow [OF gpos])
    then have c: "glweDimension (EncParameters e) \<le> int (scap (LWELargeKey (EncSecretKey ?e0)))"
      unfolding cap using halve_le [OF gpos, of i] by simp
    have d: "length (GLWEKey (EncSecretKey e)) = nat (glweRank (EncParameters e))"
      using f by (simp add: e(2,3))
    from a b c d show "\<exists>e. encryptors ?h2 (encs ! i) = Some e
       \<and> key_params_ok (EncParameters e)
       \<and> glweDimension (EncParameters e) \<le> int (scap (LWELargeKey (EncSecretKey ?e0)))
       \<and> length (GLWEKey (EncSecretKey e)) = nat (glweRank (EncParameters e))" by blast
  qed
  from hierarchy_share_ok [OF dist d1 rg len r0 rc lvl] obtain h' where
    sh: "hierarchy_share encs [1..<?depth] ?h2 = Inr h'" by blast
  have e2: "encryptors h2 (encs ! 0) = Some e1" by (simp add: ge(2) e1(1))
  have "NewEncryptorHierarchyWithSharedLWEKey rng params h = Inr (encs, h')"
    using len sh by (simp add: NewEncryptorHierarchyWithSharedLWEKey_def Let_def b g e2)
  then show ?thesis by blast
qed

text \<open>Two views of one array that both start at its first element: a store through one is
  read through the other.\<close>

lemma same_view:
  assumes "sbuf s1 = sbuf s2" "soff s1 = 0" "soff s2 = 0" "arrays h (sbuf s2) = Some xs"
  shows "read_slice (write_slice h s1 i v) s2 = (read_slice h s2)[i := v]"
  using assms by (simp add: read_slice_def write_slice_def take_update_swap)

text \<open>
  Claim C6. Whenever \<open>NewEncryptorHierarchyWithSharedLWEKey\<close> returns, for every depth
  \<open>d \<ge> 1\<close> of the returned list: the level has \<open>glweDimension\<close> \<open>g_d\<close>, the
  \<open>(d+1)\<close>-fold half of the \<open>glweDimension\<close> of the argument; \<open>enc[d]\<close>'s LWE-large key is
  the reslice \<open>[0:g_d]\<close> of \<open>enc[0]\<close>'s, so it has the same backing array and the same offset
  and length \<open>g_d\<close>, and its content is the first \<open>g_d\<close> values of \<open>enc[0]\<close>'s key; its LWE
  key is the prefix \<open>[:n]\<close> and its GLWE key polynomials are the chunks
  \<open>[j*N_d : (j+1)*N_d]\<close> of that view, all in the same backing array; and a store through
  the LWE-large key of depth \<open>d\<close> at an index both keys have is read through the key of any
  other depth, and conversely.
\<close>

theorem hierarchy_shares_key_buffer:
  assumes "NewEncryptorHierarchyWithSharedLWEKey rng params h = Inr (encs, h')"
    and "1 \<le> d" and "d < length encs"
  shows "\<exists>e0 ed. encryptors h' (encs ! 0) = Some e0 \<and> encryptors h' (encs ! d) = Some ed
    \<and> encs ! d \<noteq> encs ! 0
    \<and> glweDimension (EncParameters ed) = ((\<lambda>x. x sdiv 2) ^^ Suc d) (glweDimension params)
    \<and> polyDegree (EncParameters ed) = ((\<lambda>x. x sdiv 2) ^^ Suc d) (polyDegree params)
    \<and> lweDimension (EncParameters ed) = lweDimension params
    \<and> glweRank (EncParameters ed) = glweRank params
    \<and> reslice (LWELargeKey (EncSecretKey e0)) 0 (glweDimension (EncParameters ed))
        = Inr (LWELargeKey (EncSecretKey ed))
    \<and> sbuf (LWELargeKey (EncSecretKey ed)) = sbuf (LWELargeKey (EncSecretKey e0))
    \<and> soff (LWELargeKey (EncSecretKey ed)) = soff (LWELargeKey (EncSecretKey e0))
    \<and> slen (LWELargeKey (EncSecretKey ed)) = nat (glweDimension (EncParameters ed))
    \<and> slen (LWELargeKey (EncSecretKey ed)) \<le> slen (LWELargeKey (EncSecretKey e0))
    \<and> length (read_slice h' (LWELargeKey (EncSecretKey ed)))
        = nat (glweDimension (EncParameters ed))
    \<and> read_slice h' (LWELargeKey (EncSecretKey ed))
        = take (nat (glweDimension (EncParameters ed)))
            (read_slice h' (LWELargeKey (EncSecretKey e0)))
    \<and> reslice (LWELargeKey (EncSecretKey ed)) 0 (lweDimension (EncParameters ed))
        = Inr (LWEKey (EncSecretKey ed))
    \<and> sbuf (LWEKey (EncSecretKey ed)) = sbuf (LWELargeKey (EncSecretKey e0))
    \<and> soff (LWEKey (EncSecretKey ed)) = soff (LWELargeKey (EncSecretKey e0))
    \<and> (\<forall>j < nat (glweRank (EncParameters ed)).
          reslice (LWELargeKey (EncSecretKey ed)) (wrap64 (int j * polyDegree (EncParameters ed)))
            (wrap64 ((int j + 1) * polyDegree (EncParameters ed)))
            = Inr (GLWEKey (EncSecretKey ed) ! j)
          \<and> sbuf (GLWEKey (EncSecretKey ed) ! j) = sbuf (LWELargeKey (EncSecretKey e0)))
    \<and> (\<forall>d' < length encs. \<exists>e'. encryptors h' (encs ! d') = Some e'
          \<and> (\<forall>i v. i < slen (LWELargeKey (EncSecretKey ed))
                \<longrightarrow> i < slen (LWELargeKey (EncSecretKey e'))
                \<longrightarrow> read_slice (write_slice h' (LWELargeKey (EncSecretKey ed)) i v)
                        (LWELargeKey (EncSecretKey e'))
                      = (read_slice h' (LWELargeKey (EncSecretKey e')))[i := v]
                  \<and> read_slice (write_slice h' (LWELargeKey (EncSecretKey e')) i v)
                        (LWELargeKey (EncSecretKey ed))
                      = (read_slice h' (LWELargeKey (EncSecretKey ed)))[i := v]))"
proof -
  let ?lp = "level_params params (hierarchy_depth params)
                (polyDegree params sdiv 2) (lookUpTableSize params sdiv 2)
                (glweDimension params sdiv 2) (wrap64 (logPolyDegree params - 1))"
  from assms(1) obtain e0 xs where r:
    "0 < length encs" "distinct encs"
    "encryptors h' (encs ! 0) = Some e0"
    "soff (LWELargeKey (EncSecretKey e0)) = 0"
    "slen (LWELargeKey (EncSecretKey e0)) = nat (glweDimension params sdiv 2)"
    "scap (LWELargeKey (EncSecretKey e0)) = nat (glweDimension params sdiv 2)"
    "arrays h' (sbuf (LWELargeKey (EncSecretKey e0))) = Some xs"
    "length xs = nat (glweDimension params sdiv 2)"
    "\<forall>d. 1 \<le> d \<and> d < length encs \<longrightarrow>
       (\<exists>e. encryptors h' (encs ! d) = Some e \<and> views_root (LWELargeKey (EncSecretKey e0)) e
          \<and> EncParameters e = ?lp ! d)"
    and ld: "length encs = hierarchy_depth params"
    by (rule hierarchy_Inr)
  let ?K0 = "LWELargeKey (EncSecretKey e0)"
  text \<open>Every level's key is a view of the first key's array from its first element.\<close>
  have shape: "\<exists>e. encryptors h' (encs ! d') = Some e
      \<and> sbuf (LWELargeKey (EncSecretKey e)) = sbuf ?K0 \<and> soff (LWELargeKey (EncSecretKey e)) = 0"
    if "d' < length encs" for d'
  proof (cases "d' = 0")
    case True
    then show ?thesis using r(3,4) by simp
  next
    case False
    then have "1 \<le> d'" by simp
    with that r(9) obtain e where e: "encryptors h' (encs ! d') = Some e"
      "views_root ?K0 e" by blast
    from e(2) have "reslice ?K0 0 (glweDimension (EncParameters e))
        = Inr (LWELargeKey (EncSecretKey e))" by (simp add: views_root_def)
    from reslice_Inr(1,2) [OF this] e(1) show ?thesis by (simp add: r(4))
  qed
  from assms(2,3) r(9) obtain ed where ed: "encryptors h' (encs ! d) = Some ed"
    "views_root ?K0 ed" and pd: "EncParameters ed = ?lp ! d" by blast
  from assms(3) ld have "d < hierarchy_depth params" by simp
  note f = level_params_nth [OF this, of params "polyDegree params sdiv 2"
      "lookUpTableSize params sdiv 2" "glweDimension params sdiv 2"
      "wrap64 (logPolyDegree params - 1)"]
  have q1: "glweDimension (EncParameters ed) = ((\<lambda>x. x sdiv 2) ^^ Suc d) (glweDimension params)"
    using f by (simp add: pd funpow_Suc_right del: funpow.simps)
  have q2: "polyDegree (EncParameters ed) = ((\<lambda>x. x sdiv 2) ^^ Suc d) (polyDegree params)"
    using f by (simp add: pd funpow_Suc_right del: funpow.simps)
  have q3: "lweDimension (EncParameters ed) = lweDimension params" using f by (simp add: pd)
  have q4: "glweRank (EncParameters ed) = glweRank params" using f by (simp add: pd)
  let ?Kd = "LWELargeKey (EncSecretKey ed)" and ?p = "EncParameters ed"
  from ed(2) have v1: "reslice ?K0 0 (glweDimension ?p) = Inr ?Kd"
    and v2: "reslice ?Kd 0 (lweDimension ?p) = Inr (LWEKey (EncSecretKey ed))"
    and v3: "\<forall>j < nat (glweRank ?p).
          reslice ?Kd (wrap64 (int j * polyDegree ?p)) (wrap64 ((int j + 1) * polyDegree ?p))
            = Inr (GLWEKey (EncSecretKey ed) ! j)"
    by (simp_all add: views_root_def)
  note k = reslice_Inr [OF v1]
  have kb: "sbuf ?Kd = sbuf ?K0" by (rule k(1))
  have ko: "soff ?Kd = soff ?K0" using k(2) by simp
  have kl: "slen ?Kd = nat (glweDimension ?p)" using k(3) by simp
  have kle: "slen ?Kd \<le> slen ?K0" using k(7) by (simp add: kl r(5,6) split: if_splits)
  have c0: "read_slice h' ?K0 = xs" by (simp add: read_slice_def r(4,5,7,8))
  have cd: "read_slice h' ?Kd = take (nat (glweDimension ?p)) xs"
    by (simp add: read_slice_def kb ko kl r(4,7))
  have cl: "length (read_slice h' ?Kd) = nat (glweDimension ?p)"
    using kle by (simp add: cd r(5,8) kl)
  have ne: "encs ! d \<noteq> encs ! 0"
    using r(1,2) assms(2,3) by (simp add: nth_eq_iff_index_eq)
  note w = reslice_Inr [OF v2]
  have wb: "sbuf (LWEKey (EncSecretKey ed)) = sbuf ?K0" using w(1) by (simp add: kb)
  have wo: "soff (LWEKey (EncSecretKey ed)) = soff ?K0" using w(2) by (simp add: ko)
  have polys: "\<forall>j < nat (glweRank ?p).
          reslice ?Kd (wrap64 (int j * polyDegree ?p)) (wrap64 ((int j + 1) * polyDegree ?p))
            = Inr (GLWEKey (EncSecretKey ed) ! j)
          \<and> sbuf (GLWEKey (EncSecretKey ed) ! j) = sbuf ?K0"
  proof (intro allI impI)
    fix j assume "j < nat (glweRank ?p)"
    with v3 have a: "reslice ?Kd (wrap64 (int j * polyDegree ?p))
        (wrap64 ((int j + 1) * polyDegree ?p)) = Inr (GLWEKey (EncSecretKey ed) ! j)" by blast
    from reslice_Inr(1) [OF a] have "sbuf (GLWEKey (EncSecretKey ed) ! j) = sbuf ?K0"
      by (simp add: kb)
    with a show "reslice ?Kd (wrap64 (int j * polyDegree ?p))
        (wrap64 ((int j + 1) * polyDegree ?p)) = Inr (GLWEKey (EncSecretKey ed) ! j)
      \<and> sbuf (GLWEKey (EncSecretKey ed) ! j) = sbuf ?K0" by blast
  qed
  have obs: "\<forall>d' < length encs. \<exists>e'. encryptors h' (encs ! d') = Some e'
          \<and> (\<forall>i v. i < slen ?Kd \<longrightarrow> i < slen (LWELargeKey (EncSecretKey e'))
                \<longrightarrow> read_slice (write_slice h' ?Kd i v) (LWELargeKey (EncSecretKey e'))
                      = (read_slice h' (LWELargeKey (EncSecretKey e')))[i := v]
                  \<and> read_slice (write_slice h' (LWELargeKey (EncSecretKey e')) i v) ?Kd
                      = (read_slice h' ?Kd)[i := v])"
  proof (intro allI impI)
    fix d' assume "d' < length encs"
    from shape [OF this] obtain e' where e': "encryptors h' (encs ! d') = Some e'"
      "sbuf (LWELargeKey (EncSecretKey e')) = sbuf ?K0" "soff (LWELargeKey (EncSecretKey e')) = 0"
      by blast
    let ?K' = "LWELargeKey (EncSecretKey e')"
    have a: "read_slice (write_slice h' ?Kd i v) ?K' = (read_slice h' ?K')[i := v]" for i v
      by (rule same_view) (simp_all add: kb ko e'(2,3) r(4,7))
    have b: "read_slice (write_slice h' ?K' i v) ?Kd = (read_slice h' ?Kd)[i := v]" for i v
      by (rule same_view) (simp_all add: kb ko e'(2,3) r(4,7))
    from e'(1) a b show "\<exists>e'. encryptors h' (encs ! d') = Some e'
          \<and> (\<forall>i v. i < slen ?Kd \<longrightarrow> i < slen (LWELargeKey (EncSecretKey e'))
                \<longrightarrow> read_slice (write_slice h' ?Kd i v) (LWELargeKey (EncSecretKey e'))
                      = (read_slice h' (LWELargeKey (EncSecretKey e')))[i := v]
                  \<and> read_slice (write_slice h' (LWELargeKey (EncSecretKey e')) i v) ?Kd
                      = (read_slice h' ?Kd)[i := v])" by blast
  qed
  show ?thesis
  proof (intro exI conjI)
    show "encryptors h' (encs ! 0) = Some e0" by (rule r(3))
    show "encryptors h' (encs ! d) = Some ed" by (rule ed(1))
    show "encs ! d \<noteq> encs ! 0" by (rule ne)
    show "glweDimension ?p = ((\<lambda>x. x sdiv 2) ^^ Suc d) (glweDimension params)" by (rule q1)
    show "polyDegree ?p = ((\<lambda>x. x sdiv 2) ^^ Suc d) (polyDegree params)" by (rule q2)
    show "lweDimension ?p = lweDimension params" by (rule q3)
    show "glweRank ?p = glweRank params" by (rule q4)
    show "reslice ?K0 0 (glweDimension ?p) = Inr ?Kd" by (rule v1)
    show "sbuf ?Kd = sbuf ?K0" by (rule kb)
    show "soff ?Kd = soff ?K0" by (rule ko)
    show "slen ?Kd = nat (glweDimension ?p)" by (rule kl)
    show "slen ?Kd \<le> slen ?K0" by (rule kle)
    show "length (read_slice h' ?Kd) = nat (glweDimension ?p)" by (rule cl)
    show "read_slice h' ?Kd = take (nat (glweDimension ?p)) (read_slice h' ?K0)"
      by (simp add: cd c0)
    show "reslice ?Kd 0 (lweDimension ?p) = Inr (LWEKey (EncSecretKey ed))" by (rule v2)
    show "sbuf (LWEKey (EncSecretKey ed)) = sbuf ?K0" by (rule wb)
    show "soff (LWEKey (EncSecretKey ed)) = soff ?K0" by (rule wo)
    show "\<forall>j < nat (glweRank ?p).
          reslice ?Kd (wrap64 (int j * polyDegree ?p)) (wrap64 ((int j + 1) * polyDegree ?p))
            = Inr (GLWEKey (EncSecretKey ed) ! j)
          \<and> sbuf (GLWEKey (EncSecretKey ed) ! j) = sbuf ?K0" by (rule polys)
    show "\<forall>d' < length encs. \<exists>e'. encryptors h' (encs ! d') = Some e'
          \<and> (\<forall>i v. i < slen ?Kd \<longrightarrow> i < slen (LWELargeKey (EncSecretKey e'))
                \<longrightarrow> read_slice (write_slice h' ?Kd i v) (LWELargeKey (EncSecretKey e'))
                      = (read_slice h' (LWELargeKey (EncSecretKey e')))[i := v]
                  \<and> read_slice (write_slice h' (LWELargeKey (EncSecretKey e')) i v) ?Kd
                      = (read_slice h' ?Kd)[i := v])" by (rule obs)
  qed
qed


subsection \<open>The depth and the panics of the hierarchy\<close>

lemma reslice_Inl: "reslice s lo hi = Inl err \<Longrightarrow> \<exists>a b. err = SliceBoundsOutOfRange a b"
  by (auto simp: reslice_def split: if_splits)

lemma glwe_views_Inl:
  "glwe_views large N js = Inl err \<Longrightarrow> \<exists>a b. err = SliceBoundsOutOfRange a b"
proof (induction js)
  case Nil
  then show ?case by simp
next
  case (Cons j js)
  show ?case
  proof (cases "reslice large (wrap64 (int j * N)) (wrap64 ((int j + 1) * N))")
    case (Inl e)
    with Cons.prems have "err = e" by simp
    with reslice_Inl [OF Inl] show ?thesis by simp
  next
    case (Inr v)
    with Cons.prems have "glwe_views large N js = Inl err" by (auto split: sum.splits)
    then show ?thesis by (rule Cons.IH)
  qed
qed

lemma NewSecretKey_Inl:
  assumes "NewSecretKey p h = Inl err"
  shows "err \<noteq> IndexOutOfRange a b"
proof (cases "make_array (glweDimension p) h")
  case (Inl e)
  then have "e = Panic ''makeslice: len out of range''"
    by (auto simp: make_array_def split: if_splits)
  with assms Inl show ?thesis by (auto simp: NewSecretKey_def)
next
  case (Inr r)
  obtain large h1 where r: "r = (large, h1)" by (cases r)
  show ?thesis
  proof (cases "glweRank p < 0")
    case True
    with assms Inr r show ?thesis by (auto simp: NewSecretKey_def)
  next
    case False
    show ?thesis
    proof (cases "glwe_views large (polyDegree p) [0..<nat (glweRank p)]")
      case (Inl e)
      with assms Inr r False have "err = e" by (simp add: NewSecretKey_def)
      with glwe_views_Inl [OF Inl] show ?thesis by auto
    next
      case v: (Inr polys)
      show ?thesis
      proof (cases "reslice large 0 (lweDimension p)")
        case (Inl e)
        with assms Inr r False v have "err = e"
          by (simp add: NewSecretKey_def Let_def split: prod.splits)
        with reslice_Inl [OF Inl] show ?thesis by auto
      next
        case w: (Inr lwe)
        with assms Inr r False v show ?thesis
          by (simp add: NewSecretKey_def Let_def split: prod.splits)
      qed
    qed
  qed
qed

lemma GenSecretKey_Inl:
  assumes "GenSecretKey rng ea h = Inl err"
  shows "err \<noteq> IndexOutOfRange a b"
proof (cases "encryptors h ea")
  case None
  with assms show ?thesis by (auto simp: GenSecretKey_def)
next
  case (Some e)
  show ?thesis
  proof (cases "NewSecretKey (EncParameters e) h")
    case (Inl e1)
    with assms Some have "err = e1" by (simp add: GenSecretKey_def)
    with NewSecretKey_Inl [OF Inl] show ?thesis by simp
  next
    case (Inr r)
    obtain sk h1 where r: "r = (sk, h1)" by (cases r)
    from assms Some Inr r have
      "(\<exists>hi lo. reslice (LWELargeKey sk) lo hi = Inl err)"
      by (auto simp: GenSecretKey_def Let_def split: if_splits sum.splits)
    then obtain hi lo where "reslice (LWELargeKey sk) lo hi = Inl err" by blast
    from reslice_Inl [OF this] show ?thesis by auto
  qed
qed

lemma NewEncryptor_Inl:
  assumes "NewEncryptor rng p h = Inl err"
  shows "err \<noteq> IndexOutOfRange a b"
proof -
  from assms have "\<exists>ea h9. GenSecretKey rng ea h9 = Inl err"
    by (auto simp: NewEncryptor_def Let_def split: sum.splits prod.splits)
  then show ?thesis using GenSecretKey_Inl by blast
qed

lemma hierarchy_build_Inl:
  "hierarchy_build rng params k N L g lg h = Inl err \<Longrightarrow> err \<noteq> IndexOutOfRange a b"
proof (induction k arbitrary: N L g lg h)
  case 0
  then show ?case by simp
next
  case (Suc k)
  let ?p = "params\<lparr>polyDegree := N, lookUpTableSize := L, glweDimension := g,
                     logPolyDegree := lg\<rparr>"
  show ?case
  proof (cases "NewEncryptor rng ?p h")
    case (Inl e)
    with Suc.prems have "err = e" by (simp add: Let_def)
    with NewEncryptor_Inl [OF Inl] show ?thesis by simp
  next
    case (Inr r)
    obtain ea h1 where r: "r = (ea, h1)" by (cases r)
    from Suc.prems Inr r have
      "hierarchy_build rng params k (N sdiv 2) (L sdiv 2) (g sdiv 2) (wrap64 (lg - 1)) h1 = Inl err"
      by (auto simp: Let_def split: sum.splits)
    then show ?thesis by (rule Suc.IH)
  qed
qed

lemma hierarchy_depth_2048: "polyDegree params = 2048 \<Longrightarrow> hierarchy_depth params = 0"
  by (simp add: hierarchy_depth_def sdiv_pos TrailingZeros_one)

lemma hierarchy_depth_small:
  "0 \<le> polyDegree params \<Longrightarrow> polyDegree params < 2048 \<Longrightarrow> hierarchy_depth params = 64"
  by (simp add: hierarchy_depth_def sdiv_pos TrailingZeros_zero)

lemma hierarchy_depth_0_panics:
  "hierarchy_depth params = 0 \<Longrightarrow>
    NewEncryptorHierarchyWithSharedLWEKey rng params h = Inl (IndexOutOfRange 0 0)"
  by (simp add: NewEncryptorHierarchyWithSharedLWEKey_def)

text \<open>With 64 levels the key array of the last one would be empty, so a constructor of an
  earlier level has already panicked on the bounds of a slice.\<close>

lemma hierarchy_depth_64_panics:
  assumes d: "hierarchy_depth params = 64" and n: "0 < lweDimension params"
    and g: "0 \<le> glweDimension params" "glweDimension params < 2 ^ 63"
  shows "\<exists>err. NewEncryptorHierarchyWithSharedLWEKey rng params h = Inl err
    \<and> err \<noteq> IndexOutOfRange 0 0"
proof -
  let ?N = "polyDegree params sdiv 2" and ?L = "lookUpTableSize params sdiv 2"
  let ?g = "glweDimension params sdiv 2" and ?lg = "wrap64 (logPolyDegree params - 1)"
  let ?lp = "level_params params 64 ?N ?L ?g ?lg"
  have g2: "0 \<le> ?g" "?g < 2 ^ 63" using g by (simp_all add: sdiv_pos)
  show ?thesis
  proof (cases "hierarchy_build rng params 64 ?N ?L ?g ?lg h")
    case (Inl err)
    then have "NewEncryptorHierarchyWithSharedLWEKey rng params h = Inl err"
      by (simp add: NewEncryptorHierarchyWithSharedLWEKey_def d)
    with hierarchy_build_Inl [OF Inl] show ?thesis by simp
  next
    case (Inr r)
    obtain encs h1 where r: "r = (encs, h1)" by (cases r)
    from hierarchy_build_Inr_aux [OF Inr [unfolded r]]
    have "\<forall>p \<in> set ?lp. lweDimension p \<le> int (nat (glweDimension p))" by blast
    moreover have "?lp ! 63 \<in> set ?lp" by (rule nth_mem) simp
    ultimately have a: "lweDimension (?lp ! 63) \<le> int (nat (glweDimension (?lp ! 63)))" by blast
    have lt: "(63::nat) < 64" by simp
    note f = level_params_nth [OF lt, of params ?N ?L ?g ?lg]
    have "glweDimension (?lp ! 63) = ?g div 2 ^ 63"
      using f by (simp only: halve_funpow [OF g2(1)])
    also have "\<dots> = 0" using g2 by simp
    finally have "glweDimension (?lp ! 63) = 0" .
    moreover have "lweDimension (?lp ! 63) = lweDimension params" using f by blast
    ultimately show ?thesis using a n by simp
  qed
qed

lemma int64_range_wrap64: "int64_range (wrap64 x)"
  unfolding int64_range_def wrap64_def
  using signed_take_bit_int_less_exp [of 63 x]
    signed_take_bit_int_greater_eq_minus_exp [of 63 x] by simp

text \<open>What \<open>Compile\<close> has checked of the fields the hierarchy reads.\<close>

lemma compiled_key_facts:
  assumes "ParametersLiteral_Compile lit = Inr p"
  shows "0 < lweDimension p" "lweDimension p \<le> glweDimension p"
    "int64_range (glweDimension p)" "\<exists>k::nat. polyDegree p = 2 ^ k"
proof -
  let ?d = "apply_defaults lit"
  from assms have c: "compile_checks ?d = None"
    by (auto simp: ParametersLiteral_Compile_def Let_def split: option.splits)
  from assms have f: "lweDimension p = LWEDimension ?d"
    "glweDimension p = wrap64 (GLWERank ?d * PolyDegree ?d)" "polyDegree p = PolyDegree ?d"
    by (auto simp: ParametersLiteral_Compile_def Let_def split: option.splits sum.splits)
  from c have k: "\<not> LWEDimension ?d \<le> 0"
    "\<not> LWEDimension ?d > wrap64 (GLWERank ?d * PolyDegree ?d)"
    "IsPowerOfTwo (PolyDegree ?d)"
    by (simp_all add: compile_checks_def split: if_splits)
  show "0 < lweDimension p" using k(1) by (simp add: f)
  show "lweDimension p \<le> glweDimension p" using k(2) by (simp add: f)
  show "int64_range (glweDimension p)" by (simp add: f int64_range_wrap64)
  from k(3) show "\<exists>k::nat. polyDegree p = 2 ^ k"
    unfolding IsPowerOfTwo_def f by blast
qed

text \<open>
  Claim C10, amended. For a compiled parameter set (\<open>uint\<close> has 64 bits):
  with \<open>polyDegree = 2048\<close> the depth is 0 and the call panics with index out of range
  \<open>[0]\<close> with length 0; with \<open>polyDegree < 2048\<close> the depth is
  \<open>bits.TrailingZeros(0) = 64\<close>, not 0, and the call panics inside the first loop, not
  with the index panic of the empty slice; and whenever the call returns, the
  \<open>polyDegree\<close> is above 2048, the list is non-empty, has as many encryptors as the depth,
  and its first encryptor has \<open>polyDegree / 2\<close>.
\<close>

theorem hierarchy_panics_unless_degree_above_2048:
  assumes "ParametersLiteral_Compile lit = Inr params"
  shows "(polyDegree params = 2048 \<longrightarrow>
            hierarchy_depth params = 0
            \<and> NewEncryptorHierarchyWithSharedLWEKey rng params h = Inl (IndexOutOfRange 0 0))
    \<and> (polyDegree params < 2048 \<longrightarrow>
            hierarchy_depth params = 64
            \<and> (\<exists>err. NewEncryptorHierarchyWithSharedLWEKey rng params h = Inl err
                  \<and> err \<noteq> IndexOutOfRange 0 0))
    \<and> (\<forall>encs h'. NewEncryptorHierarchyWithSharedLWEKey rng params h = Inr (encs, h') \<longrightarrow>
            2048 < polyDegree params \<and> encs \<noteq> [] \<and> length encs = hierarchy_depth params
            \<and> (\<exists>e. encryptors h' (encs ! 0) = Some e
                  \<and> polyDegree (EncParameters e) = polyDegree params sdiv 2))"
proof -
  note c = compiled_key_facts [OF assms]
  from c(4) have pos: "0 \<le> polyDegree params" by auto
  from c(1,2,3) have g: "0 \<le> glweDimension params" "glweDimension params < 2 ^ 63"
    by (simp_all add: int64_range_def)
  have a: "hierarchy_depth params = 0
      \<and> NewEncryptorHierarchyWithSharedLWEKey rng params h = Inl (IndexOutOfRange 0 0)"
    if "polyDegree params = 2048"
    using hierarchy_depth_2048 [OF that] hierarchy_depth_0_panics by blast
  have b: "hierarchy_depth params = 64
      \<and> (\<exists>err. NewEncryptorHierarchyWithSharedLWEKey rng params h = Inl err
            \<and> err \<noteq> IndexOutOfRange 0 0)"
    if "polyDegree params < 2048"
    using hierarchy_depth_small [OF pos that]
      hierarchy_depth_64_panics [OF hierarchy_depth_small [OF pos that] c(1) g] by blast
  have r: "2048 < polyDegree params \<and> encs \<noteq> [] \<and> length encs = hierarchy_depth params
            \<and> (\<exists>e. encryptors h' (encs ! 0) = Some e
                  \<and> polyDegree (EncParameters e) = polyDegree params sdiv 2)"
    if ret: "NewEncryptorHierarchyWithSharedLWEKey rng params h = Inr (encs, h')" for encs h'
  proof -
    from ret obtain e0 xs where k: "0 < length encs" "length encs = hierarchy_depth params"
      "encryptors h' (encs ! 0) = Some e0"
      "EncParameters e0 = params\<lparr>polyDegree := polyDegree params sdiv 2,
        lookUpTableSize := lookUpTableSize params sdiv 2,
        glweDimension := glweDimension params sdiv 2,
        logPolyDegree := wrap64 (logPolyDegree params - 1)\<rparr>"
      "arrays h' (sbuf (LWELargeKey (EncSecretKey e0))) = Some xs"
      by (rule hierarchy_Inr)
    have "\<not> polyDegree params = 2048" using a ret by auto
    moreover have "\<not> polyDegree params < 2048" using b ret by auto
    ultimately have "2048 < polyDegree params" by linarith
    moreover have "polyDegree (EncParameters e0) = polyDegree params sdiv 2" by (simp add: k(4))
    ultimately show ?thesis using k(1,2,3) by auto
  qed
  from a b r show ?thesis by blast
qed


subsection \<open>Params6\<close>

definition Params6 :: "64 ParametersLiteral" where
  "Params6 =
    \<lparr> LWEDimension = 1160, GLWERank = 1, PolyDegree = 2048 * 4, LookUpTableSize = 2048 * 4,
      LWEStdDev = 0x3E2FD22CFDEB9769, GLWEStdDev = 0x3CB905C5A891BF8C,
      BlockSize = 1, MessageModulus = push_bit 6 1,
      BlindRotateParameters = \<lparr> Base = push_bit 22 1, Level = 2 \<rparr>,
      KeySwitchParameters = \<lparr> Base = push_bit 7 1, Level = 3 \<rparr>,
      BootstrapOrder = OrderBlindRotateKeySwitch \<rparr>"

text \<open>The value of \<open>Params6.Compile()\<close>.\<close>

definition Compiled6 :: "64 Parameters" where
  "Compiled6 =
    \<lparr> lweDimension = 1160, glweDimension = 8192, glweRank = 1, polyDegree = 8192,
      logPolyDegree = 13, lookUpTableSize = 8192, polyExtendFactor = 1,
      lweStdDev = 0x3E2FD22CFDEB9769, glweStdDev = 0x3CB905C5A891BF8C,
      blockSize = 1, blockCount = 1160, messageModulus = 64, scale = push_bit 58 1,
      logQ = 64, floatQ = 0x43F0000000000000,
      blindRotateParameters = \<lparr> base = push_bit 22 1, logBase = 22, level = 2, sizeT = 64 \<rparr>,
      keySwitchParameters = \<lparr> base = push_bit 7 1, logBase = 7, level = 3, sizeT = 64 \<rparr>,
      bootstrapOrder = OrderBlindRotateKeySwitch \<rparr>"

definition heap0 :: "'a::len heap" where
  "heap0 = \<lparr> arrays = Map.empty, fouriers = Map.empty, samplers = Map.empty,
             encryptors = Map.empty, nextAddr = 0 \<rparr>"

definition rngSmall32 :: "32 csprng" where
  "rngSmall32 = \<lparr> binary = (\<lambda>a s i. word_of_nat ((a + s + i) mod 2)),
                   block = (\<lambda>b a s i. if int i mod b = 0 then 1 else 0) \<rparr>"

lemma Params6_fields:
  "LWEDimension Params6 = 1160" "GLWERank Params6 = 1" "PolyDegree Params6 = 8192"
  "LookUpTableSize Params6 = 8192" "LWEStdDev Params6 = 0x3E2FD22CFDEB9769"
  "GLWEStdDev Params6 = 0x3CB905C5A891BF8C" "BlockSize Params6 = 1"
  "MessageModulus Params6 = 64"
  "Base (BlindRotateParameters Params6) = 4194304" "Level (BlindRotateParameters Params6) = 2"
  "Base (KeySwitchParameters Params6) = 128" "Level (KeySwitchParameters Params6) = 3"
  "BootstrapOrder Params6 = 1"
  by (simp_all add: Params6_def OrderBlindRotateKeySwitch_def)

lemma Params6_Compile: "ParametersLiteral_Compile Params6 = Inr Compiled6"
proof -
  have d: "apply_defaults Params6 = Params6"
    by (simp add: apply_defaults_def Params6_fields)
  have w: "wrap64 8192 = 8192" "wrap64 44 = 44" "wrap64 21 = 21"
    by (simp_all add: wrap64_id int64_range_def)
  have z: "\<not> f64_le_zero 0x3E2FD22CFDEB9769" "\<not> f64_le_zero 0x3CB905C5A891BF8C"
    by code_simp+
  have p: "IsPowerOfTwo 8192" unfolding IsPowerOfTwo_def by (rule bexI [of _ 13]) simp_all
  have l: "Log2 8192 = 13" using Log2_pow [of 13] by simp
  have c: "compile_checks Params6 = None"
    by (simp add: compile_checks_def Params6_fields w z p
        OrderKeySwitchBlindRotate_def OrderBlindRotateKeySwitch_def smod_pos)
  have g: "GadgetParametersLiteral_Compile (BlindRotateParameters Params6)
     = Inr \<lparr> base = push_bit 22 1, logBase = 22, level = 2, sizeT = 64 \<rparr>"
    "GadgetParametersLiteral_Compile (KeySwitchParameters Params6)
     = Inr \<lparr> base = push_bit 7 1, logBase = 7, level = 3, sizeT = 64 \<rparr>"
    by (simp_all add: GadgetParametersLiteral_Compile_def Params6_fields IsPowerOfTwo_consts
      Log2_consts SizeT_def w)
  have s: "DivRoundT 9223372036854775808 (64 :: 64 word) * 2 = 288230376151711744"
    by (simp add: DivRoundT_def DivRound_def)
  have q: "f64_exp2 64 = 0x43F0000000000000" by (simp add: f64_exp2_def)
  show ?thesis
    unfolding ParametersLiteral_Compile_def d Let_def c g
    by (simp add: Params6_fields Compiled6_def w l sdiv_pos SizeT_def s q
        OrderBlindRotateKeySwitch_def)
qed

lemma Compiled6_fields:
  "lweDimension Compiled6 = 1160" "glweDimension Compiled6 = 8192" "glweRank Compiled6 = 1"
  "polyDegree Compiled6 = 8192" "logPolyDegree Compiled6 = 13"
  "lookUpTableSize Compiled6 = 8192" "blockSize Compiled6 = 1"
  by (simp_all add: Compiled6_def)

lemma tz_loop_pow: "j < n \<Longrightarrow> n \<le> 64 \<Longrightarrow> tz_loop n (2 ^ j :: 64 word) = j"
proof (induction j arbitrary: n)
  case 0
  then show ?case by (simp add: tz_loop_odd)
next
  case (Suc j)
  then obtain m where m: "n = Suc m" by (cases n) simp_all
  with Suc.prems have jm: "j < m" "m \<le> 64" "Suc j < 64" by simp_all
  have "drop_bit 1 (2 ^ Suc j :: 64 word) = 2 ^ j"
    using jm(3) by (simp add: drop_bit_exp_eq del: power_Suc)
  moreover have "\<not> bit (2 ^ Suc j :: 64 word) 0" by (simp add: bit_simps del: power_Suc)
  ultimately show ?case using Suc.IH [OF jm(1,2)] by (simp add: m del: power_Suc)
qed

lemma TrailingZeros_pow: "j < 64 \<Longrightarrow> TrailingZeros (2 ^ j) = j"
  by (simp add: TrailingZeros_def tz_loop_pow)

text \<open>From \<open>polyDegree = 2048 * 2 ^ j\<close> on, the depth is \<open>j\<close>, the binary logarithm of
  \<open>polyDegree / 2048\<close>.\<close>

lemma hierarchy_depth_pow:
  assumes "polyDegree params = 2048 * 2 ^ j" "j < 64"
  shows "hierarchy_depth params = j"
proof -
  have "(2048 * 2 ^ j :: int) sdiv 2048 = 2 ^ j" by (simp add: sdiv_pos)
  then show ?thesis using assms(2) by (simp add: hierarchy_depth_def assms(1) TrailingZeros_pow)
qed

lemma hierarchy_depth_6: "hierarchy_depth Compiled6 = 2"
  using hierarchy_depth_pow [of Compiled6 2] by (simp add: Compiled6_fields)

lemma halves: "(8192::int) sdiv 2 = 4096" "(4096::int) sdiv 2 = 2048" "wrap64 (13 - 1) = 12"
  by (simp_all add: sdiv_pos wrap64_id int64_range_def)

lemma Compiled6_levels_ok:
  "\<forall>p \<in> set (level_params Compiled6 (hierarchy_depth Compiled6) (polyDegree Compiled6 sdiv 2)
        (lookUpTableSize Compiled6 sdiv 2) (glweDimension Compiled6 sdiv 2)
        (wrap64 (logPolyDegree Compiled6 - 1))). key_params_ok p"
  by (simp add: hierarchy_depth_6 Compiled6_fields halves numeral_2_eq_2 key_params_ok_def
      int64_range_def)

lemma Compiled6_returns:
  "\<exists>encs h'. NewEncryptorHierarchyWithSharedLWEKey rngExample Compiled6 heap0 = Inr (encs, h')"
  by (rule hierarchy_ok) (simp_all add: hierarchy_depth_6 Compiled6_levels_ok)

theorem hierarchy_shares_key_buffer_witness:
  "\<exists>encs h' e0 e1.
     NewEncryptorHierarchyWithSharedLWEKey rngExample Compiled6 heap0 = Inr (encs, h')
     \<and> length encs = 2
     \<and> encryptors h' (encs ! 0) = Some e0 \<and> encryptors h' (encs ! 1) = Some e1
     \<and> glweDimension (EncParameters e1) = 2048
     \<and> sbuf (LWELargeKey (EncSecretKey e1)) = sbuf (LWELargeKey (EncSecretKey e0))
     \<and> soff (LWELargeKey (EncSecretKey e1)) = soff (LWELargeKey (EncSecretKey e0))
     \<and> slen (LWELargeKey (EncSecretKey e1)) = 2048
     \<and> read_slice h' (LWELargeKey (EncSecretKey e1))
         = take 2048 (read_slice h' (LWELargeKey (EncSecretKey e0)))"
proof -
  from Compiled6_returns obtain encs h' where
    r: "NewEncryptorHierarchyWithSharedLWEKey rngExample Compiled6 heap0 = Inr (encs, h')"
    by blast
  from r obtain e :: "64 Encryptor" and xs where "length encs = hierarchy_depth Compiled6"
    "encryptors h' (encs ! 0) = Some e"
    "arrays h' (sbuf (LWELargeKey (EncSecretKey e))) = Some xs"
    by (rule hierarchy_Inr)
  then have l: "length encs = 2" by (simp add: hierarchy_depth_6)
  have d: "(1::nat) \<le> 1" "1 < length encs" by (simp_all add: l)
  have g: "((\<lambda>x. x sdiv 2) ^^ Suc 1) (glweDimension Compiled6) = 2048"
    by (simp add: Compiled6_fields halves)
  from hierarchy_shares_key_buffer [OF r d] obtain e0 e1 where
    "encryptors h' (encs ! 0) = Some e0" "encryptors h' (encs ! 1) = Some e1"
    "glweDimension (EncParameters e1) = ((\<lambda>x. x sdiv 2) ^^ Suc 1) (glweDimension Compiled6)"
    "sbuf (LWELargeKey (EncSecretKey e1)) = sbuf (LWELargeKey (EncSecretKey e0))"
    "soff (LWELargeKey (EncSecretKey e1)) = soff (LWELargeKey (EncSecretKey e0))"
    "slen (LWELargeKey (EncSecretKey e1)) = nat (glweDimension (EncParameters e1))"
    "read_slice h' (LWELargeKey (EncSecretKey e1))
        = take (nat (glweDimension (EncParameters e1)))
            (read_slice h' (LWELargeKey (EncSecretKey e0)))"
    by blast
  with r l g show ?thesis by auto
qed

theorem hierarchy_panics_unless_degree_above_2048_witness:
  "ParametersLiteral_Compile ParamsEBS5 = Inr CompiledEBS5
   \<and> polyDegree CompiledEBS5 = 2048
   \<and> hierarchy_depth CompiledEBS5 = 0
   \<and> NewEncryptorHierarchyWithSharedLWEKey rngExample CompiledEBS5 heap0
       = Inl (IndexOutOfRange 0 0)
   \<and> ParametersLiteral_Compile ParamsSmall32 = Inr CompiledSmall32
   \<and> polyDegree CompiledSmall32 < 2048
   \<and> hierarchy_depth CompiledSmall32 = 64
   \<and> (\<exists>err. NewEncryptorHierarchyWithSharedLWEKey rngSmall32 CompiledSmall32 heap0 = Inl err)
   \<and> ParametersLiteral_Compile Params6 = Inr Compiled6
   \<and> (\<exists>encs h' e. NewEncryptorHierarchyWithSharedLWEKey rngExample Compiled6 heap0
                      = Inr (encs, h')
        \<and> 2048 < polyDegree Compiled6 \<and> length encs = 2
        \<and> encryptors h' (encs ! 0) = Some e \<and> polyDegree (EncParameters e) = 4096)"
proof -
  note a = hierarchy_panics_unless_degree_above_2048 [OF ParamsEBS5_Compile, of rngExample heap0]
  note b = hierarchy_panics_unless_degree_above_2048 [OF ParamsSmall32_Compile, of rngSmall32 heap0]
  note c = hierarchy_panics_unless_degree_above_2048 [OF Params6_Compile, of rngExample heap0]
  have a': "hierarchy_depth CompiledEBS5 = 0
     \<and> NewEncryptorHierarchyWithSharedLWEKey rngExample CompiledEBS5 heap0
         = Inl (IndexOutOfRange 0 0)"
    using a by (simp add: CompiledEBS5_fields)
  have b': "hierarchy_depth CompiledSmall32 = 64
     \<and> (\<exists>err. NewEncryptorHierarchyWithSharedLWEKey rngSmall32 CompiledSmall32 heap0 = Inl err)"
    using b by (auto simp: CompiledSmall32_fields)
  from Compiled6_returns obtain encs h' where
    r: "NewEncryptorHierarchyWithSharedLWEKey rngExample Compiled6 heap0 = Inr (encs, h')"
    by blast
  with c obtain e where "2048 < polyDegree Compiled6" "length encs = hierarchy_depth Compiled6"
    "encryptors h' (encs ! 0) = Some e"
    "polyDegree (EncParameters e) = polyDegree Compiled6 sdiv 2" by blast
  then have c': "\<exists>encs h' e. NewEncryptorHierarchyWithSharedLWEKey rngExample Compiled6 heap0
                      = Inr (encs, h')
        \<and> 2048 < polyDegree Compiled6 \<and> length encs = 2
        \<and> encryptors h' (encs ! 0) = Some e \<and> polyDegree (EncParameters e) = 4096"
    using r by (auto simp: hierarchy_depth_6 Compiled6_fields halves)
  from a' b' c' show ?thesis
    by (simp add: ParamsEBS5_Compile ParamsSmall32_Compile Params6_Compile
        CompiledEBS5_fields CompiledSmall32_fields)
qed

text \<open>
  Claim C10 as stated fails below 2048: for the compiled set \<open>CompiledSmall32\<close>
  (\<open>polyDegree = 4\<close>) the computed depth is 64, not 0, and the panic is not the index panic
  of an empty slice.
\<close>

theorem hierarchy_depth_64_counterexample:
  "ParametersLiteral_Compile ParamsSmall32 = Inr CompiledSmall32
   \<and> polyDegree CompiledSmall32 \<le> 2048
   \<and> hierarchy_depth CompiledSmall32 = 64
   \<and> NewEncryptorHierarchyWithSharedLWEKey rngSmall32 CompiledSmall32 heap0
       \<noteq> Inl (IndexOutOfRange 0 0)"
proof -
  have d: "hierarchy_depth CompiledSmall32 = 64"
    by (rule hierarchy_depth_small) (simp_all add: CompiledSmall32_fields)
  have "\<exists>err. NewEncryptorHierarchyWithSharedLWEKey rngSmall32 CompiledSmall32 heap0 = Inl err
    \<and> err \<noteq> IndexOutOfRange 0 0"
    by (rule hierarchy_depth_64_panics [OF d]) (simp_all add: CompiledSmall32_def)
  with d show ?thesis by (auto simp: ParamsSmall32_Compile CompiledSmall32_fields)
qed

section \<open>The builders of the decomposed look-up tables\<close>

text \<open>A \<open>LookUpTable[T]\<close> is its field \<open>Value\<close>, the list of the coefficient slices of its
  polynomials. The tables of \<open>decomposedLutOut\<close> are taken as values: no two of them share a
  backing array, as with the tables \<open>NewDecomposedLut\<close> and \<open>NewDecomposedLutEBS\<close> allocate.\<close>

type_synonym 'a LookUpTable = "'a word list list"

text \<open>\<open>decomposedLutOut[k].Value[i].Coeffs[j] = v\<close>, with the three index checks.\<close>

definition store_coeff ::
  "'a::len LookUpTable list \<Rightarrow> int \<Rightarrow> int \<Rightarrow> int \<Rightarrow> 'a word \<Rightarrow> panic + 'a LookUpTable list" where
  "store_coeff out k i j v =
    (if k < 0 \<or> int (length out) \<le> k then Inl (IndexOutOfRange k (int (length out)))
     else if i < 0 \<or> int (length (out ! nat k)) \<le> i
       then Inl (IndexOutOfRange i (int (length (out ! nat k))))
     else if j < 0 \<or> int (length (out ! nat k ! nat i)) \<le> j
       then Inl (IndexOutOfRange j (int (length (out ! nat k ! nat i))))
     else Inr (out[nat k := (out ! nat k)[nat i := (out ! nat k ! nat i)[nat j := v]]]))"

text \<open>\<open>for j := 0; j < n; j++ { decomposedLutOut[k].Value[i].Coeffs[j] = src(j) }\<close>; \<open>js\<close>
  are the values of \<open>j\<close> still to come.\<close>

fun store_poly ::
  "'a::len LookUpTable list \<Rightarrow> int \<Rightarrow> int \<Rightarrow> (nat \<Rightarrow> 'a word) \<Rightarrow> nat list
    \<Rightarrow> panic + 'a LookUpTable list" where
  "store_poly out k i src [] = Inr out"
| "store_poly out k i src (j # js) =
    (case store_coeff out k i (int j) (src j) of
       Inl e \<Rightarrow> Inl e
     | Inr out' \<Rightarrow> store_poly out' k i src js)"

text \<open>The interleaving of \<open>GenLookUpTableNegDecomposedEBSFullAssign\<close>:
  \<open>for i := 0; i < extendFactor; i++ { for j := 0; j < polyDegree; j++ {
  decomposedLutOut[k].Value[i].Coeffs[j] = lutRaw[j*extendFactor+i] } }\<close> with
  \<open>polyDegree = 2048\<close>; the index of \<open>lutRaw\<close> is below its length
  \<open>2048 * extendFactor\<close>.\<close>

fun store_interleaved ::
  "'a::len LookUpTable list \<Rightarrow> int \<Rightarrow> 'a word list \<Rightarrow> nat \<Rightarrow> nat list
    \<Rightarrow> panic + 'a LookUpTable list" where
  "store_interleaved out k lutRaw extendFactor [] = Inr out"
| "store_interleaved out k lutRaw extendFactor (i # is) =
    (case store_poly out k (int i) (\<lambda>j. lutRaw ! (j * extendFactor + i)) [0..<2048] of
       Inl e \<Rightarrow> Inl e
     | Inr out' \<Rightarrow> store_interleaved out' k lutRaw extendFactor is)"

text \<open>\<open>for i := from; i < to; i++ { lutRaw[i] = -lutRaw[i] }\<close>, with the index check of
  every access.\<close>

function negate_run :: "'a::len word list \<Rightarrow> int \<Rightarrow> int \<Rightarrow> panic + 'a word list" where
  "negate_run lutRaw i to =
    (if i < to then
       (if 0 \<le> i \<and> i < int (length lutRaw)
        then negate_run (lutRaw[nat i := - (lutRaw ! nat i)]) (i + 1) to
        else Inl (IndexOutOfRange i (int (length lutRaw))))
     else Inr lutRaw)"
  by pat_completeness auto
termination
  by (relation "measure (\<lambda>(lutRaw, i, to). nat (to - i))") auto

declare negate_run.simps [simp del]

text \<open>Modelled from the spec: \<open>vec.RotateInPlace\<close> is not among the sources. The raw vector
  is rotated by \<open>l\<close> places to the right, so by \<open>-l\<close> places to the left for a negative
  \<open>l\<close>: after \<open>RotateInPlace(lutRaw, -offset)\<close> the first \<open>offset\<close> values are the wrapped
  tail.\<close>

definition RotateInPlace :: "'a list \<Rightarrow> int \<Rightarrow> 'a list" where
  "RotateInPlace v l = (if v = [] then v else rotate (nat ((- l) mod int (length v))) v)"

text \<open>The loop over \<open>x\<close> that fills the raw vector of the \<open>k\<close>-th negative table:
  \<open>start\<close>, \<open>end\<close>, \<open>y := decomposedNegFuncEval[k][x]\<close>, then the run.\<close>

fun neg_fill_loop ::
  "int \<Rightarrow> int \<Rightarrow> 'a::len word list \<Rightarrow> nat list \<Rightarrow> 'a word list \<Rightarrow> panic + 'a word list" where
  "neg_fill_loop L M negFuncEval [] lutRaw = Inr lutRaw"
| "neg_fill_loop L M negFuncEval (x # xs) lutRaw =
    (let start = DivRound (wrap64 (int x * L)) M;
         end' = DivRound (wrap64 ((int x + 1) * L)) M
     in if length negFuncEval \<le> x
        then Inl (IndexOutOfRange (int x) (int (length negFuncEval)))
        else
          case fill_run lutRaw start end' (negFuncEval ! x) of
            Inl e \<Rightarrow> Inl e
          | Inr lutRaw' \<Rightarrow> neg_fill_loop L M negFuncEval xs lutRaw')"

text \<open>The raw vector of the \<open>k\<close>-th negative table, of length
  \<open>lookUpTableSize / (1 << (k + 1))\<close>: filled, rotated by \<open>-offset\<close>, its last \<open>offset\<close>
  values negated.\<close>

definition neg_lutRaw ::
  "'a::len Parameters \<Rightarrow> 'a word \<Rightarrow> nat \<Rightarrow> 'a word list \<Rightarrow> panic + 'a word list" where
  "neg_lutRaw p msgModulus k negFuncEval =
    (if shl1 (k + 1) = 0 then Inl DivideByZero
     else
       let length' = lookUpTableSize p sdiv shl1 (k + 1) in
       if length' < 0 then Inl (Panic ''makeslice: len out of range'')
       else
         case neg_fill_loop (lookUpTableSize p) (to_int msgModulus) negFuncEval
                [0..<nat (to_int msgModulus sdiv shl1 (k + 1))] (replicate (nat length') 0) of
           Inl e \<Rightarrow> Inl e
         | Inr lutRaw \<Rightarrow>
             let offset = DivRound (lookUpTableSize p) (to_int (2 * msgModulus))
             in negate_run (RotateInPlace lutRaw (- offset)) (length' - offset) length')"

text \<open>The loop over \<open>k\<close> of \<open>GenLookUpTableNegDecomposedFullAssign\<close>: the raw vector goes
  whole into the polynomial 0 of \<open>decomposedLutOut[k]\<close>.\<close>

fun neg_luts_full ::
  "'a::len Parameters \<Rightarrow> 'a word \<Rightarrow> 'a word list list \<Rightarrow> nat list \<Rightarrow> 'a LookUpTable list
    \<Rightarrow> panic + 'a LookUpTable list" where
  "neg_luts_full p msgModulus negs [] out = Inr out"
| "neg_luts_full p msgModulus negs (k # ks) out =
    (case neg_lutRaw p msgModulus k (negs ! k) of
       Inl e \<Rightarrow> Inl e
     | Inr lutRaw \<Rightarrow>
        (case store_poly out (int k) 0 (\<lambda>j. lutRaw ! j) [0..<length lutRaw] of
           Inl e \<Rightarrow> Inl e
         | Inr out' \<Rightarrow> neg_luts_full p msgModulus negs ks out'))"

text \<open>The loop over \<open>k\<close> of \<open>GenLookUpTableNegDecomposedEBSFullAssign\<close>: the raw vector is
  interleaved into \<open>extendFactor := length / 2048\<close> polynomials.\<close>

fun neg_luts_ebs ::
  "'a::len Parameters \<Rightarrow> 'a word \<Rightarrow> 'a word list list \<Rightarrow> nat list \<Rightarrow> 'a LookUpTable list
    \<Rightarrow> panic + 'a LookUpTable list" where
  "neg_luts_ebs p msgModulus negs [] out = Inr out"
| "neg_luts_ebs p msgModulus negs (k # ks) out =
    (case neg_lutRaw p msgModulus k (negs ! k) of
       Inl e \<Rightarrow> Inl e
     | Inr lutRaw \<Rightarrow>
        (let extendFactor = int (length lutRaw) sdiv 2048 in
         case store_interleaved out (int k) lutRaw (nat extendFactor) [0..<nat extendFactor] of
           Inl e \<Rightarrow> Inl e
         | Inr out' \<Rightarrow> neg_luts_ebs p msgModulus negs ks out'))"

text \<open>The two loops over \<open>x\<close> of type \<open>T\<close> that fill the raw vector of the base table.\<close>

fun base_loop1 ::
  "'a::len word \<Rightarrow> 'a word list \<Rightarrow> 'a word list \<Rightarrow> 'a word list \<Rightarrow> panic + 'a word list" where
  "base_loop1 baseMessageModulus baseFuncEval [] lutRaw = Inr lutRaw"
| "base_loop1 baseMessageModulus baseFuncEval (x # xs) lutRaw =
    (let start = DivRound (wrap64 (to_int x * 2048)) (to_int baseMessageModulus);
         end' = DivRound (wrap64 ((to_int x + 1) * 2048)) (to_int baseMessageModulus);
         idx = to_int x
     in if idx < 0 \<or> int (length baseFuncEval) \<le> idx
        then Inl (IndexOutOfRange idx (int (length baseFuncEval)))
        else
          case fill_run lutRaw start end' (baseFuncEval ! nat idx) of
            Inl e \<Rightarrow> Inl e
          | Inr lutRaw' \<Rightarrow> base_loop1 baseMessageModulus baseFuncEval xs lutRaw')"

fun base_loop2 ::
  "'a::len word \<Rightarrow> 'a word list \<Rightarrow> 'a word list \<Rightarrow> 'a word list \<Rightarrow> panic + 'a word list" where
  "base_loop2 baseMessageModulus baseFuncEval [] lutRaw = Inr lutRaw"
| "base_loop2 baseMessageModulus baseFuncEval (x # xs) lutRaw =
    (let start = DivRound (wrap64 (to_int x * 2048)) (to_int baseMessageModulus);
         end' = DivRound (wrap64 ((to_int x + 1) * 2048)) (to_int baseMessageModulus);
         idx = to_int (baseMessageModulus - x + baseMessageModulus div 2 - 1)
     in if idx < 0 \<or> int (length baseFuncEval) \<le> idx
        then Inl (IndexOutOfRange idx (int (length baseFuncEval)))
        else
          case fill_run lutRaw start end' (- (baseFuncEval ! nat idx)) of
            Inl e \<Rightarrow> Inl e
          | Inr lutRaw' \<Rightarrow> base_loop2 baseMessageModulus baseFuncEval xs lutRaw')"

text \<open>The raw vector of the base table, of length 2048, with
  \<open>baseMessageModulus := e.Parameters.messageModulus / T(extendFactor)\<close>.\<close>

definition base_lutRaw ::
  "'a::len Parameters \<Rightarrow> 'a word list \<Rightarrow> panic + 'a word list" where
  "base_lutRaw p baseFuncEval =
    (let extendFactor = lookUpTableSize p sdiv 2048 in
     if (word_of_int extendFactor :: 'a word) = 0 then Inl DivideByZero
     else
       let baseMessageModulus = messageModulus p div word_of_int extendFactor in
       case base_loop1 baseMessageModulus baseFuncEval
              (map word_of_nat [0..<unat (baseMessageModulus div 2)]) (replicate 2048 0) of
         Inl e \<Rightarrow> Inl e
       | Inr lutRaw \<Rightarrow>
           base_loop2 baseMessageModulus baseFuncEval
             (map word_of_nat [unat (baseMessageModulus div 2)..<unat baseMessageModulus]) lutRaw)"

text \<open>The two builders. Each returns, with the tables it has written into
  \<open>decomposedLutOut\<close>, the values its variables \<open>decomposedNegFuncEval\<close> and
  \<open>baseFuncEval\<close> hold when it returns.\<close>

definition GenLookUpTableNegDecomposedFullAssign ::
  "'a::len Parameters \<Rightarrow> (int \<Rightarrow> 'a word) \<Rightarrow> 'a word \<Rightarrow> 'a LookUpTable list
    \<Rightarrow> panic + ('a word list list \<times> 'a word list \<times> 'a LookUpTable list)" where
  "GenLookUpTableNegDecomposedFullAssign p f msgModulus decomposedLutOut =
    (if to_int msgModulus < 0 then Inl (Panic ''makeslice: len out of range'')
     else
       let funcEval = map (\<lambda>x. f (int x)) [0..<nat (to_int msgModulus)];
           (decomposedNegFuncEval, baseFuncEval) = decompose_loop (logExtendFactor p) funcEval []
       in case neg_luts_full p msgModulus decomposedNegFuncEval
                 [0..<length decomposedNegFuncEval] decomposedLutOut of
            Inl e \<Rightarrow> Inl e
          | Inr out1 \<Rightarrow>
             (case base_lutRaw p baseFuncEval of
                Inl e \<Rightarrow> Inl e
              | Inr lutRaw \<Rightarrow>
                 (case store_poly out1 (int (logExtendFactor p)) 0 (\<lambda>j. lutRaw ! j) [0..<2048] of
                    Inl e \<Rightarrow> Inl e
                  | Inr out2 \<Rightarrow> Inr (decomposedNegFuncEval, baseFuncEval, out2))))"

definition GenLookUpTableNegDecomposedEBSFullAssign ::
  "'a::len Parameters \<Rightarrow> (int \<Rightarrow> 'a word) \<Rightarrow> 'a word \<Rightarrow> 'a LookUpTable list
    \<Rightarrow> panic + ('a word list list \<times> 'a word list \<times> 'a LookUpTable list)" where
  "GenLookUpTableNegDecomposedEBSFullAssign p f msgModulus decomposedLutOut =
    (if to_int msgModulus < 0 then Inl (Panic ''makeslice: len out of range'')
     else
       let funcEval = map (\<lambda>x. f (int x)) [0..<nat (to_int msgModulus)];
           (decomposedNegFuncEval, baseFuncEval) = decompose_loop (logExtendFactor p) funcEval []
       in case neg_luts_ebs p msgModulus decomposedNegFuncEval
                 [0..<length decomposedNegFuncEval] decomposedLutOut of
            Inl e \<Rightarrow> Inl e
          | Inr out1 \<Rightarrow>
             (case base_lutRaw p baseFuncEval of
                Inl e \<Rightarrow> Inl e
              | Inr lutRaw \<Rightarrow>
                 (case store_poly out1 (int (logExtendFactor p)) 0 (\<lambda>j. lutRaw ! j) [0..<2048] of
                    Inl e \<Rightarrow> Inl e
                  | Inr out2 \<Rightarrow> Inr (decomposedNegFuncEval, baseFuncEval, out2))))"


subsection \<open>When the loops do not panic\<close>

lemma fill_run_ok:
  "0 \<le> s \<Longrightarrow> e \<le> int (length l) \<Longrightarrow>
    \<exists>l'. fill_run l s e y = Inr l' \<and> length l' = length l"
proof (induction l s e y rule: fill_run.induct)
  case (1 lutRaw xx end' y)
  show ?case
  proof (cases "xx < end'")
    case True
    with 1 have r: "0 \<le> xx \<and> xx < int (length lutRaw)" by linarith
    from 1 have "\<exists>l'. fill_run (lutRaw[nat xx := y]) (xx + 1) end' y = Inr l'
        \<and> length l' = length (lutRaw[nat xx := y])"
      using True r by simp
    then show ?thesis using True r by (simp add: fill_run.simps [of lutRaw])
  next
    case False
    then show ?thesis by (simp add: fill_run.simps [of lutRaw])
  qed
qed

lemma negate_run_ok:
  "0 \<le> i \<Longrightarrow> to \<le> int (length l) \<Longrightarrow>
    \<exists>l'. negate_run l i to = Inr l' \<and> length l' = length l"
proof (induction l i to rule: negate_run.induct)
  case (1 lutRaw i to)
  show ?case
  proof (cases "i < to")
    case True
    with 1 have r: "0 \<le> i \<and> i < int (length lutRaw)" by linarith
    from 1 have "\<exists>l'. negate_run (lutRaw[nat i := - (lutRaw ! nat i)]) (i + 1) to = Inr l'
        \<and> length l' = length (lutRaw[nat i := - (lutRaw ! nat i)])"
      using True r by simp
    then show ?thesis using True r by (simp add: negate_run.simps [of lutRaw])
  next
    case False
    then show ?thesis by (simp add: negate_run.simps [of lutRaw])
  qed
qed

text \<open>The lengths of the tables and of their polynomials.\<close>

definition shape :: "'a LookUpTable list \<Rightarrow> nat list list" where
  "shape out = map (map length) out"

lemma shape_nth:
  "shape out' = shape out \<Longrightarrow> length out' = length out"
  "shape out' = shape out \<Longrightarrow> k < length out \<Longrightarrow> length (out' ! k) = length (out ! k)"
  "shape out' = shape out \<Longrightarrow> k < length out \<Longrightarrow> i < length (out ! k) \<Longrightarrow>
     length (out' ! k ! i) = length (out ! k ! i)"
proof -
  assume a: "shape out' = shape out"
  then show l: "length out' = length out" unfolding shape_def by (rule map_eq_imp_length_eq)
  {
    assume k: "k < length out"
    from a have "shape out' ! k = shape out ! k" by simp
    with k l have m: "map length (out' ! k) = map length (out ! k)" by (simp add: shape_def)
    then show "length (out' ! k) = length (out ! k)" by (rule map_eq_imp_length_eq)
    assume i: "i < length (out ! k)"
    from m have "map length (out' ! k) ! i = map length (out ! k) ! i" by simp
    with i \<open>length (out' ! k) = length (out ! k)\<close>
    show "length (out' ! k ! i) = length (out ! k ! i)" by simp
  }
qed

lemma store_coeff_ok:
  assumes "k < length out" "i < length (out ! k)" "j < length (out ! k ! i)"
  shows "\<exists>out'. store_coeff out (int k) (int i) (int j) v = Inr out' \<and> shape out' = shape out"
proof -
  let ?out' = "out[k := (out ! k)[i := (out ! k ! i)[j := v]]]"
  have "map length ((out ! k)[i := (out ! k ! i)[j := v]]) = map length (out ! k)"
    using assms(2) by (simp add: map_update list_update_same_conv)
  then have "shape ?out' = shape out"
    using assms(1) by (simp add: shape_def map_update list_update_same_conv)
  then show ?thesis using assms by (simp add: store_coeff_def)
qed

lemma store_poly_ok:
  "k < length out \<Longrightarrow> i < length (out ! k) \<Longrightarrow> \<forall>j \<in> set js. j < length (out ! k ! i) \<Longrightarrow>
    \<exists>out'. store_poly out (int k) (int i) src js = Inr out' \<and> shape out' = shape out"
proof (induction js arbitrary: out)
  case Nil
  show ?case by simp
next
  case (Cons j js)
  from Cons.prems have j: "j < length (out ! k ! i)" by simp
  from store_coeff_ok [OF Cons.prems(1,2) j, of "src j"] obtain out1 where
    s: "store_coeff out (int k) (int i) (int j) (src j) = Inr out1" and sh: "shape out1 = shape out"
    by blast
  note n = shape_nth [OF sh]
  have "\<forall>j \<in> set js. j < length (out1 ! k ! i)"
    using Cons.prems by (simp add: n(3))
  from Cons.IH [of out1, OF _ _ this] Cons.prems(1,2) obtain out' where
    "store_poly out1 (int k) (int i) src js = Inr out'" "shape out' = shape out1"
    by (auto simp: n)
  with s sh show ?case by simp
qed

lemma store_interleaved_ok:
  "k < length out \<Longrightarrow> \<forall>i \<in> set is. i < length (out ! k) \<and> 2048 \<le> length (out ! k ! i) \<Longrightarrow>
    \<exists>out'. store_interleaved out (int k) lutRaw ef is = Inr out' \<and> shape out' = shape out"
proof (induction "is" arbitrary: out)
  case Nil
  show ?case by simp
next
  case (Cons i "is")
  from Cons.prems have i: "i < length (out ! k)" "2048 \<le> length (out ! k ! i)" by simp_all
  have "\<forall>j \<in> set [0..<2048]. j < length (out ! k ! i)" using i(2) by simp
  from store_poly_ok [OF Cons.prems(1) i(1) this] obtain out1 where
    s: "store_poly out (int k) (int i) (\<lambda>j. lutRaw ! (j * ef + i)) [0..<2048] = Inr out1"
    and sh: "shape out1 = shape out" by blast
  note n = shape_nth [OF sh]
  have "\<forall>i \<in> set is. i < length (out1 ! k) \<and> 2048 \<le> length (out1 ! k ! i)"
    using Cons.prems by (simp add: n)
  from Cons.IH [of out1, OF _ this] Cons.prems(1) obtain out' where
    "store_interleaved out1 (int k) lutRaw ef is = Inr out'" "shape out' = shape out1"
    by (auto simp: n)
  with s sh show ?case by simp
qed

lemma DivRound_nonneg: "0 \<le> x \<Longrightarrow> 0 < y \<Longrightarrow> 0 \<le> DivRound x y"
  by (simp add: DivRound_def pos_imp_zdiv_nonneg_iff)

lemma DivRound_le:
  assumes "0 < y" "x \<le> n * y"
  shows "DivRound x y \<le> n"
proof -
  have "(2 * x + y) div (2 * y) \<le> (y + n * (2 * y)) div (2 * y)"
    by (rule zdiv_mono1) (use assms in simp_all)
  also have "\<dots> = n" using assms(1) by simp
  finally show ?thesis by (simp add: DivRound_def)
qed

lemma neg_fill_loop_ok:
  "0 < M \<Longrightarrow> 0 \<le> L \<Longrightarrow>
    \<forall>x \<in> set xs. x < length neg \<and> int64_range ((int x + 1) * L)
       \<and> (int x + 1) * L \<le> int (length lutRaw) * M \<Longrightarrow>
    \<exists>l'. neg_fill_loop L M neg xs lutRaw = Inr l' \<and> length l' = length lutRaw"
proof (induction xs arbitrary: lutRaw)
  case Nil
  show ?case by simp
next
  case (Cons x xs)
  from Cons.prems have x: "x < length neg" "int64_range ((int x + 1) * L)"
    "(int x + 1) * L \<le> int (length lutRaw) * M" by simp_all
  have lo: "0 \<le> int x * L" using Cons.prems(2) by simp
  have "int x * L \<le> (int x + 1) * L" using Cons.prems(2) by (simp add: distrib_right)
  from lo this x(2) have r: "int64_range (int x * L)" by (rule int64_rangeI)
  have s: "0 \<le> DivRound (int x * L) M" using lo Cons.prems(1) by (rule DivRound_nonneg)
  have e: "DivRound ((int x + 1) * L) M \<le> int (length lutRaw)"
    using Cons.prems(1) x(3) by (rule DivRound_le)
  from fill_run_ok [OF s e, of "neg ! x"] obtain l1 where
    f: "fill_run lutRaw (DivRound (int x * L) M) (DivRound ((int x + 1) * L) M) (neg ! x) = Inr l1"
    and l: "length l1 = length lutRaw" by blast
  have "\<forall>x \<in> set xs. x < length neg \<and> int64_range ((int x + 1) * L)
       \<and> (int x + 1) * L \<le> int (length l1) * M"
    using Cons.prems(3) by (simp add: l)
  from Cons.IH [OF Cons.prems(1,2) this] obtain l' where
    "neg_fill_loop L M neg xs l1 = Inr l'" "length l' = length l1" by blast
  with f l x(1) show ?case
    by (simp add: Let_def wrap64_id [OF r] wrap64_id [OF x(2)])
qed


lemma length_RotateInPlace [simp]: "length (RotateInPlace v l) = length v"
  by (simp add: RotateInPlace_def)

lemma table_size_div:
  assumes "k < K"
  shows "(2048 * 2 ^ K :: int) div 2 ^ (k + 1) = 2048 * 2 ^ (K - k - 1)"
proof -
  from assms have "K = (k + 1) + (K - k - 1)" by simp
  then have "(2 :: int) ^ K = 2 ^ (k + 1) * 2 ^ (K - k - 1)" by (metis power_add)
  then show ?thesis by simp
qed

lemma int_div_mult_le: "0 < (d::int) \<Longrightarrow> m div d * d \<le> m"
  using div_mult_mod_eq [of m d] pos_mod_sign [of d m] by linarith

lemma neg_lutRaw_ok:
  fixes p :: "'a::len Parameters"
  assumes L: "lookUpTableSize p = 2048 * 2 ^ K" and k: "k < K" and K: "K < 52"
    and M: "0 < to_int msgModulus" and rg: "int64_range (to_int msgModulus * lookUpTableSize p)"
    and neg: "length neg = nat (to_int msgModulus div 2 ^ (k + 1))"
    and two: "to_int (2 * msgModulus) = 2 * to_int msgModulus"
    and off: "2 ^ K \<le> 2 * to_int msgModulus"
  shows "\<exists>lutRaw. neg_lutRaw p msgModulus k neg = Inr lutRaw
    \<and> length lutRaw = 2048 * 2 ^ (K - k - 1)"
proof -
  let ?L = "lookUpTableSize p" and ?M = "to_int msgModulus"
  let ?d = "(2 :: int) ^ (k + 1)" and ?n = "(2048 :: int) * 2 ^ (K - k - 1)"
  have sh: "shl1 (k + 1) = ?d" using k K by (intro shl1_small) simp
  have dpos: "0 < ?d" by simp
  have "(2048 * 2 ^ K :: int) sdiv ?d = (2048 * 2 ^ K) div ?d" by (rule sdiv_pos) simp_all
  then have len: "?L sdiv ?d = ?n" by (simp only: L table_size_div [OF k])
  have Ldn: "?L = ?d * ?n"
  proof -
    from k have "K = (k + 1) + (K - k - 1)" by simp
    then have "(2 :: int) ^ K = 2 ^ (k + 1) * 2 ^ (K - k - 1)" by (metis power_add)
    then show ?thesis by (simp add: L)
  qed
  have Lpos: "0 \<le> ?L" by (simp add: L)
  have npos: "0 \<le> ?n" by simp
  have nn: "nat ?n = 2048 * 2 ^ (K - k - 1)" by (simp add: nat_mult_distrib nat_power_eq)
  have Md: "?M sdiv ?d = ?M div ?d" using M by (simp add: sdiv_pos)
  have cond: "\<forall>x \<in> set [0..<nat (?M div ?d)]. x < length neg
       \<and> int64_range ((int x + 1) * ?L)
       \<and> (int x + 1) * ?L \<le> int (length (replicate (nat ?n) (0 :: 'a word))) * ?M"
  proof
    fix x assume "x \<in> set [0..<nat (?M div ?d)]"
    then have x: "x < nat (?M div ?d)" by simp
    then have "int x + 1 \<le> ?M div ?d" by linarith
    then have "(int x + 1) * ?d \<le> (?M div ?d) * ?d" by (rule mult_right_mono) simp
    also have "\<dots> \<le> ?M" using dpos by (rule int_div_mult_le)
    finally have xd: "(int x + 1) * ?d \<le> ?M" .
    have "(int x + 1) * ?L = ((int x + 1) * ?d) * ?n" by (simp add: Ldn mult.assoc)
    also have "\<dots> \<le> ?M * ?n" using xd npos by (rule mult_right_mono)
    finally have b: "(int x + 1) * ?L \<le> ?n * ?M" by (simp add: mult.commute)
    have "(1 :: int) \<le> ?d" by (rule one_le_power) simp
    from mult_right_mono [OF this npos] have "?n \<le> ?L" unfolding Ldn by simp
    then have "?n * ?M \<le> ?L * ?M" using M by (intro mult_right_mono) simp_all
    with b have u: "(int x + 1) * ?L \<le> ?M * ?L" by (simp add: mult.commute)
    have "0 \<le> (int x + 1) * ?L" using Lpos by simp
    from this u rg have r: "int64_range ((int x + 1) * ?L)" by (rule int64_rangeI)
    from x b r show "x < length neg \<and> int64_range ((int x + 1) * ?L)
       \<and> (int x + 1) * ?L \<le> int (length (replicate (nat ?n) (0 :: 'a word))) * ?M"
      using npos by (simp add: neg)
  qed
  from neg_fill_loop_ok [OF M Lpos cond] obtain l1 where
    f: "neg_fill_loop ?L ?M neg [0..<nat (?M div ?d)] (replicate (nat ?n) 0) = Inr l1"
    and l1: "length l1 = nat ?n" by auto
  let ?off = "DivRound ?L (2 * ?M)"
  have o0: "0 \<le> ?off" using Lpos M by (intro DivRound_nonneg) simp_all
  have "?d \<le> 2 ^ K" using k by (intro power_increasing) simp_all
  with off have "?d \<le> 2 * ?M" by linarith
  then have "?d * ?n \<le> (2 * ?M) * ?n" using npos by (rule mult_right_mono)
  then have "?L \<le> ?n * (2 * ?M)" by (simp add: Ldn mult.commute)
  then have on: "?off \<le> ?n" using M by (intro DivRound_le) simp_all
  have "\<exists>l'. negate_run (RotateInPlace l1 (- ?off)) (?n - ?off) ?n = Inr l'
      \<and> length l' = length (RotateInPlace l1 (- ?off))"
    by (rule negate_run_ok) (use on npos in \<open>simp_all add: l1\<close>)
  then obtain l' where n: "negate_run (RotateInPlace l1 (- ?off)) (?n - ?off) ?n = Inr l'"
    and l': "length l' = nat ?n" by (auto simp: l1)
  have "neg_lutRaw p msgModulus k neg = Inr l'"
    unfolding neg_lutRaw_def sh len Md Let_def two using f n dpos npos by simp
  with l' nn show ?thesis by simp
qed


text \<open>The shapes of \<open>decomposedLutOut\<close> that the two builders can write: those of
  \<open>NewDecomposedLut\<close> and of \<open>NewDecomposedLutEBS\<close>, or larger.\<close>

definition full_shape_ok :: "nat \<Rightarrow> 'a LookUpTable list \<Rightarrow> bool" where
  "full_shape_ok K out =
    (K < length out
     \<and> (\<forall>k < K. out ! k \<noteq> [] \<and> 2048 * 2 ^ (K - k - 1) \<le> length (out ! k ! 0))
     \<and> out ! K \<noteq> [] \<and> 2048 \<le> length (out ! K ! 0))"

definition ebs_shape_ok :: "nat \<Rightarrow> 'a LookUpTable list \<Rightarrow> bool" where
  "ebs_shape_ok K out =
    (K < length out
     \<and> (\<forall>k < K. 2 ^ (K - k - 1) \<le> length (out ! k)
            \<and> (\<forall>i < 2 ^ (K - k - 1). 2048 \<le> length (out ! k ! i)))
     \<and> out ! K \<noteq> [] \<and> 2048 \<le> length (out ! K ! 0))"

lemma full_shape_ok_cong:
  assumes "shape out' = shape out" "full_shape_ok K out"
  shows "full_shape_ok K out'"
proof -
  note n = shape_nth [OF assms(1)]
  from assms(2) have a: "K < length out"
    "\<And>k. k < K \<Longrightarrow> out ! k \<noteq> [] \<and> 2048 * 2 ^ (K - k - 1) \<le> length (out ! k ! 0)"
    "out ! K \<noteq> []" "2048 \<le> length (out ! K ! 0)"
    by (simp_all add: full_shape_ok_def)
  have "out' ! k \<noteq> [] \<and> 2048 * 2 ^ (K - k - 1) \<le> length (out' ! k ! 0)" if "k < K" for k
  proof -
    from that a(1) have k: "k < length out" by simp
    from a(2) [OF that] have "0 < length (out ! k)" by simp
    with n(2) [OF k] n(3) [OF k, of 0] a(2) [OF that] show ?thesis by auto
  qed
  moreover have "out' ! K \<noteq> [] \<and> 2048 \<le> length (out' ! K ! 0)"
  proof -
    from a(3) have "0 < length (out ! K)" by simp
    with n(2) [OF a(1)] n(3) [OF a(1), of 0] a(4) show ?thesis by auto
  qed
  ultimately show ?thesis using a(1) n(1) by (simp add: full_shape_ok_def)
qed

lemma ebs_shape_ok_cong:
  assumes "shape out' = shape out" "ebs_shape_ok K out"
  shows "ebs_shape_ok K out'"
proof -
  note n = shape_nth [OF assms(1)]
  from assms(2) have a: "K < length out"
    "\<And>k. k < K \<Longrightarrow> 2 ^ (K - k - 1) \<le> length (out ! k)"
    "\<And>k i. k < K \<Longrightarrow> i < 2 ^ (K - k - 1) \<Longrightarrow> 2048 \<le> length (out ! k ! i)"
    "out ! K \<noteq> []" "2048 \<le> length (out ! K ! 0)"
    by (simp_all add: ebs_shape_ok_def)
  have "2 ^ (K - k - 1) \<le> length (out' ! k)
      \<and> (\<forall>i < 2 ^ (K - k - 1). 2048 \<le> length (out' ! k ! i))" if "k < K" for k
  proof -
    from that a(1) have k: "k < length out" by simp
    have "2048 \<le> length (out' ! k ! i)" if i: "i < 2 ^ (K - k - 1)" for i
    proof -
      from i a(2) [OF \<open>k < K\<close>] have "i < length (out ! k)" by simp
      from n(3) [OF k this] a(3) [OF \<open>k < K\<close> i] show ?thesis by simp
    qed
    with n(2) [OF k] a(2) [OF that] show ?thesis by simp
  qed
  moreover have "out' ! K \<noteq> [] \<and> 2048 \<le> length (out' ! K ! 0)"
  proof -
    from a(4) have "0 < length (out ! K)" by simp
    with n(2) [OF a(1)] n(3) [OF a(1), of 0] a(5) show ?thesis by auto
  qed
  ultimately show ?thesis using a(1) n(1) by (simp add: ebs_shape_ok_def)
qed

text \<open>The conditions on the arguments under which no access of the loops over the
  negative tables is out of range.\<close>

definition neg_args_ok :: "'a::len Parameters \<Rightarrow> nat \<Rightarrow> 'a word \<Rightarrow> bool" where
  "neg_args_ok p K msgModulus =
    (lookUpTableSize p = 2048 * 2 ^ K \<and> K < 52 \<and> 0 < to_int msgModulus
     \<and> int64_range (to_int msgModulus * lookUpTableSize p)
     \<and> to_int (2 * msgModulus) = 2 * to_int msgModulus
     \<and> 2 ^ K \<le> 2 * to_int msgModulus)"

lemma neg_luts_full_ok:
  fixes p :: "'a::len Parameters"
  assumes a: "neg_args_ok p K msgModulus"
    and n: "\<forall>k < K. length (negs ! k) = nat (to_int msgModulus div 2 ^ (k + 1))"
  shows "\<forall>k \<in> set ks. k < K \<Longrightarrow> full_shape_ok K out \<Longrightarrow>
    \<exists>out'. neg_luts_full p msgModulus negs ks out = Inr out' \<and> shape out' = shape out"
proof (induction ks arbitrary: out)
  case Nil
  show ?case by simp
next
  case (Cons k ks)
  from Cons.prems(1) have k: "k < K" by simp
  from a have h: "lookUpTableSize p = 2048 * 2 ^ K" "K < 52" "0 < to_int msgModulus"
    "int64_range (to_int msgModulus * lookUpTableSize p)"
    "to_int (2 * msgModulus) = 2 * to_int msgModulus" "2 ^ K \<le> 2 * to_int msgModulus"
    unfolding neg_args_ok_def by blast+
  from n k have nk: "length (negs ! k) = nat (to_int msgModulus div 2 ^ (k + 1))" by blast
  from neg_lutRaw_ok [OF h(1) k h(2,3,4) nk h(5,6)] obtain lutRaw where
    r: "neg_lutRaw p msgModulus k (negs ! k) = Inr lutRaw"
    and l: "length lutRaw = 2048 * 2 ^ (K - k - 1)" by blast
  from Cons.prems(2) k have s: "k < length out" "0 < length (out ! k)"
    "2048 * 2 ^ (K - k - 1) \<le> length (out ! k ! 0)"
    by (simp_all add: full_shape_ok_def)
  have "\<forall>j \<in> set [0..<length lutRaw]. j < length (out ! k ! 0)" using s(3) l by simp
  from store_poly_ok [OF s(1,2) this] obtain out1 where
    w: "store_poly out (int k) 0 (\<lambda>j. lutRaw ! j) [0..<length lutRaw] = Inr out1"
    and sh: "shape out1 = shape out" by auto
  from Cons.prems(1) have "\<forall>k \<in> set ks. k < K" by simp
  from Cons.IH [OF this full_shape_ok_cong [OF sh Cons.prems(2)]] obtain out' where
    "neg_luts_full p msgModulus negs ks out1 = Inr out'" "shape out' = shape out1" by blast
  with r w sh show ?case by simp
qed

lemma neg_luts_ebs_ok:
  fixes p :: "'a::len Parameters"
  assumes a: "neg_args_ok p K msgModulus"
    and n: "\<forall>k < K. length (negs ! k) = nat (to_int msgModulus div 2 ^ (k + 1))"
  shows "\<forall>k \<in> set ks. k < K \<Longrightarrow> ebs_shape_ok K out \<Longrightarrow>
    \<exists>out'. neg_luts_ebs p msgModulus negs ks out = Inr out' \<and> shape out' = shape out"
proof (induction ks arbitrary: out)
  case Nil
  show ?case by simp
next
  case (Cons k ks)
  from Cons.prems(1) have k: "k < K" by simp
  from a have h: "lookUpTableSize p = 2048 * 2 ^ K" "K < 52" "0 < to_int msgModulus"
    "int64_range (to_int msgModulus * lookUpTableSize p)"
    "to_int (2 * msgModulus) = 2 * to_int msgModulus" "2 ^ K \<le> 2 * to_int msgModulus"
    unfolding neg_args_ok_def by blast+
  from n k have nk: "length (negs ! k) = nat (to_int msgModulus div 2 ^ (k + 1))" by blast
  from neg_lutRaw_ok [OF h(1) k h(2,3,4) nk h(5,6)] obtain lutRaw where
    r: "neg_lutRaw p msgModulus k (negs ! k) = Inr lutRaw"
    and l: "length lutRaw = 2048 * 2 ^ (K - k - 1)" by blast
  have "int (length lutRaw) sdiv 2048 = (2048 * 2 ^ (K - k - 1)) div 2048"
    by (simp add: l sdiv_pos)
  then have ef: "nat (int (length lutRaw) sdiv 2048) = 2 ^ (K - k - 1)"
    by (simp add: nat_power_eq)
  from Cons.prems(2) k have s: "k < length out"
    "\<forall>i \<in> set [0..<2 ^ (K - k - 1)]. i < length (out ! k) \<and> 2048 \<le> length (out ! k ! i)"
    by (auto simp: ebs_shape_ok_def)
  from store_interleaved_ok [OF s] obtain out1 where
    w: "store_interleaved out (int k) lutRaw (2 ^ (K - k - 1)) [0..<2 ^ (K - k - 1)] = Inr out1"
    and sh: "shape out1 = shape out" by blast
  from Cons.prems(1) have "\<forall>k \<in> set ks. k < K" by simp
  from Cons.IH [OF this ebs_shape_ok_cong [OF sh Cons.prems(2)]] obtain out' where
    "neg_luts_ebs p msgModulus negs ks out1 = Inr out'" "shape out' = shape out1" by blast
  with r w sh show ?case by (simp add: Let_def ef)
qed


lemma to_int_unat:
  assumes "unat x < 2 ^ 63"
  shows "to_int x = int (unat x)"
proof -
  from assms have "int (unat x) < int (2 ^ 63)" by (simp only: of_nat_less_iff)
  then have a: "uint x < 2 ^ 63" by simp
  have b: "0 \<le> uint x" by simp
  from a b have "int64_range (uint x)" unfolding int64_range_def by linarith
  then show ?thesis by (simp add: to_int_def wrap64_id)
qed

lemma unat_two: "2 \<le> LENGTH('a::len) \<Longrightarrow> unat (2 :: 'a word) = 2"
proof -
  assume "2 \<le> LENGTH('a)"
  then have "(2::nat) ^ 2 \<le> 2 ^ LENGTH('a)" by (intro power_increasing) simp_all
  then have "(2::nat) < 2 ^ LENGTH('a)" by simp
  moreover from \<open>2 \<le> LENGTH('a)\<close> have "LENGTH('a) \<noteq> Suc 0" by simp
  ultimately show ?thesis by simp
qed

lemma base_loop1_ok:
  "0 < to_int bMM \<Longrightarrow> length lutRaw = 2048 \<Longrightarrow>
    \<forall>x \<in> set xs. 0 \<le> to_int x \<and> to_int x < int (length bfe) \<and> to_int x + 1 \<le> to_int bMM
       \<and> int64_range ((to_int x + 1) * 2048) \<Longrightarrow>
    \<exists>l'. base_loop1 bMM bfe xs lutRaw = Inr l' \<and> length l' = 2048"
proof (induction xs arbitrary: lutRaw)
  case Nil
  then show ?case by simp
next
  case (Cons x xs)
  from Cons.prems(3) have x: "0 \<le> to_int x" "to_int x < int (length bfe)"
    "to_int x + 1 \<le> to_int bMM" "int64_range ((to_int x + 1) * 2048)" by simp_all
  have lo: "0 \<le> to_int x * 2048" using x(1) by simp
  have "to_int x * 2048 \<le> (to_int x + 1) * 2048" by simp
  from lo this x(4) have r: "int64_range (to_int x * 2048)" by (rule int64_rangeI)
  have s: "0 \<le> DivRound (to_int x * 2048) (to_int bMM)"
    using lo Cons.prems(1) by (rule DivRound_nonneg)
  have "(to_int x + 1) * 2048 \<le> 2048 * to_int bMM" using x(3) by simp
  with Cons.prems(1) have "DivRound ((to_int x + 1) * 2048) (to_int bMM) \<le> 2048"
    by (rule DivRound_le)
  then have e: "DivRound ((to_int x + 1) * 2048) (to_int bMM) \<le> int (length lutRaw)"
    by (simp add: Cons.prems(2))
  from fill_run_ok [OF s e, of "bfe ! nat (to_int x)"] obtain l1 where
    f: "fill_run lutRaw (DivRound (to_int x * 2048) (to_int bMM))
          (DivRound ((to_int x + 1) * 2048) (to_int bMM)) (bfe ! nat (to_int x)) = Inr l1"
    and l: "length l1 = 2048" by (auto simp: Cons.prems(2))
  from Cons.prems(3) have "\<forall>x \<in> set xs. 0 \<le> to_int x \<and> to_int x < int (length bfe)
       \<and> to_int x + 1 \<le> to_int bMM \<and> int64_range ((to_int x + 1) * 2048)" by simp
  from Cons.IH [OF Cons.prems(1) l this] obtain l' where
    "base_loop1 bMM bfe xs l1 = Inr l'" "length l' = 2048" by blast
  note w2 = wrap64_id [OF x(4)]
  from f x(1,2) \<open>base_loop1 bMM bfe xs l1 = Inr l'\<close> \<open>length l' = 2048\<close> show ?case
    by (simp add: Let_def wrap64_id [OF r] w2 [simplified])
qed

lemma base_loop2_ok:
  "0 < to_int bMM \<Longrightarrow> length lutRaw = 2048 \<Longrightarrow>
    \<forall>x \<in> set xs. 0 \<le> to_int x \<and> to_int x + 1 \<le> to_int bMM
       \<and> int64_range ((to_int x + 1) * 2048)
       \<and> 0 \<le> to_int (bMM - x + bMM div 2 - 1)
       \<and> to_int (bMM - x + bMM div 2 - 1) < int (length bfe) \<Longrightarrow>
    \<exists>l'. base_loop2 bMM bfe xs lutRaw = Inr l' \<and> length l' = 2048"
proof (induction xs arbitrary: lutRaw)
  case Nil
  then show ?case by simp
next
  case (Cons x xs)
  let ?idx = "to_int (bMM - x + bMM div 2 - 1)"
  from Cons.prems(3) have x: "0 \<le> to_int x" "to_int x + 1 \<le> to_int bMM"
    "int64_range ((to_int x + 1) * 2048)" "0 \<le> ?idx" "?idx < int (length bfe)" by simp_all
  have lo: "0 \<le> to_int x * 2048" using x(1) by simp
  have "to_int x * 2048 \<le> (to_int x + 1) * 2048" by simp
  from lo this x(3) have r: "int64_range (to_int x * 2048)" by (rule int64_rangeI)
  have s: "0 \<le> DivRound (to_int x * 2048) (to_int bMM)"
    using lo Cons.prems(1) by (rule DivRound_nonneg)
  have "(to_int x + 1) * 2048 \<le> 2048 * to_int bMM" using x(2) by simp
  with Cons.prems(1) have "DivRound ((to_int x + 1) * 2048) (to_int bMM) \<le> 2048"
    by (rule DivRound_le)
  then have e: "DivRound ((to_int x + 1) * 2048) (to_int bMM) \<le> int (length lutRaw)"
    by (simp add: Cons.prems(2))
  from fill_run_ok [OF s e, of "- (bfe ! nat ?idx)"] obtain l1 where
    f: "fill_run lutRaw (DivRound (to_int x * 2048) (to_int bMM))
          (DivRound ((to_int x + 1) * 2048) (to_int bMM)) (- (bfe ! nat ?idx)) = Inr l1"
    and l: "length l1 = 2048" by (auto simp: Cons.prems(2))
  from Cons.prems(3) have "\<forall>x \<in> set xs. 0 \<le> to_int x \<and> to_int x + 1 \<le> to_int bMM
       \<and> int64_range ((to_int x + 1) * 2048)
       \<and> 0 \<le> to_int (bMM - x + bMM div 2 - 1)
       \<and> to_int (bMM - x + bMM div 2 - 1) < int (length bfe)" by simp
  from Cons.IH [OF Cons.prems(1) l this] obtain l' where
    "base_loop2 bMM bfe xs l1 = Inr l'" "length l' = 2048" by blast
  note w2 = wrap64_id [OF x(3)]
  from f x(4,5) \<open>base_loop2 bMM bfe xs l1 = Inr l'\<close> \<open>length l' = 2048\<close> show ?case
    by (simp add: Let_def wrap64_id [OF r] w2 [simplified])
qed

text \<open>The index \<open>baseMessageModulus - x + baseMessageModulus/2 - 1\<close> of the second loop does
  not wrap around and runs from \<open>baseMessageModulus - 1\<close> down to
  \<open>baseMessageModulus / 2\<close>.\<close>

lemma base_index:
  fixes bMM :: "'a::len word"
  assumes len: "2 \<le> LENGTH('a)" and i: "unat (bMM div 2) \<le> i" "i < unat bMM"
  shows "unat (bMM - word_of_nat i + bMM div 2 - 1) = unat bMM - i + unat bMM div 2 - 1"
    "unat bMM - i + unat bMM div 2 - 1 < unat bMM"
proof -
  let ?x = "word_of_nat i :: 'a word"
  have ux: "unat ?x = i" using i(2) by (intro le_unat_uoi [of _ bMM]) simp
  have le: "?x \<le> bMM" using i(2) by (simp add: word_le_nat_alt ux)
  have d: "unat (bMM - ?x) = unat bMM - i" using unat_sub [OF le] by (simp add: ux)
  have h: "unat (bMM div 2) = unat bMM div 2" by (simp only: unat_div unat_two [OF len])
  have "unat (bMM - ?x) + unat (bMM div 2) \<le> unat bMM" using i unfolding d h by linarith
  also have "\<dots> < 2 ^ LENGTH('a)" by (rule unsigned_less)
  finally have "unat (bMM - ?x + bMM div 2) = unat (bMM - ?x) + unat (bMM div 2)"
    by (simp add: unat_add_lem)
  then have a: "unat (bMM - ?x + bMM div 2) = unat bMM - i + unat bMM div 2"
    by (simp only: d h)
  with i(2) have "unat (bMM - ?x + bMM div 2) \<noteq> 0" by linarith
  then have "bMM - ?x + bMM div 2 \<noteq> 0" by auto
  from unat_minus_one [OF this] show
    "unat (bMM - ?x + bMM div 2 - 1) = unat bMM - i + unat bMM div 2 - 1" by (simp only: a)
  show "unat bMM - i + unat bMM div 2 - 1 < unat bMM" using i unfolding h by linarith
qed

lemma base_lutRaw_ok:
  fixes p :: "'a::len Parameters"
  assumes len: "2 \<le> LENGTH('a)"
    and L: "lookUpTableSize p = 2048 * 2 ^ K" and Kw: "K < LENGTH('a)"
    and B: "unat (messageModulus p div 2 ^ K) \<le> length bfe"
    and small: "unat (messageModulus p div 2 ^ K) < 2 ^ 52"
  shows "\<exists>lutRaw. base_lutRaw p bfe = Inr lutRaw \<and> length lutRaw = 2048"
proof -
  let ?bMM = "messageModulus p div 2 ^ K"
  let ?B = "unat ?bMM"
  have ef: "lookUpTableSize p sdiv 2048 = 2 ^ K" by (simp add: L sdiv_pos)
  have w: "(word_of_int (2 ^ K) :: 'a word) = 2 ^ K" by simp
  have nz: "(2 ^ K :: 'a word) \<noteq> 0" using Kw by simp
  have ti: "to_int y = int (unat y)" if "unat y \<le> ?B" for y :: "'a word"
  proof -
    from that small have "unat y < 2 ^ 52" by linarith
    also have "(2::nat) ^ 52 < 2 ^ 63" by simp
    finally show ?thesis by (rule to_int_unat)
  qed
  have tb: "to_int ?bMM = int ?B" by (rule ti) simp
  have rgx: "int64_range ((int i + 1) * 2048)" if "i < ?B" for i
  proof -
    from that small have "i + 1 < 2 ^ 52" by linarith
    then have "int (i + 1) < int (2 ^ 52)" by (simp only: of_nat_less_iff)
    then have "int i + 1 < 2 ^ 52" by simp
    then show ?thesis unfolding int64_range_def by simp
  qed
  have uw: "unat (word_of_nat i :: 'a word) = i" if "i < ?B" for i
    using that by (intro le_unat_uoi [of _ ?bMM]) simp
  show ?thesis
  proof (cases "?B = 0")
    case True
    then have "?bMM = 0" by (simp add: unat_eq_zero)
    then show ?thesis
      unfolding base_lutRaw_def ef w Let_def using nz by simp
  next
    case False
    then have "0 < ?B" by simp
    then have "0 < int ?B" by (simp only: of_nat_0_less_iff)
    then have pos: "0 < to_int ?bMM" by (simp only: tb)
    have h: "unat (?bMM div 2) = ?B div 2" by (simp only: unat_div unat_two [OF len])
    have c1: "\<forall>x \<in> set (map word_of_nat [0..<unat (?bMM div 2)] :: 'a word list).
        0 \<le> to_int x \<and> to_int x < int (length bfe) \<and> to_int x + 1 \<le> to_int ?bMM
        \<and> int64_range ((to_int x + 1) * 2048)"
    proof
      fix x :: "'a word" assume "x \<in> set (map word_of_nat [0..<unat (?bMM div 2)])"
      then obtain i where i: "x = word_of_nat i" "i < ?B div 2" by (auto simp: h)
      then have iB: "i < ?B" by linarith
      have t: "to_int x = int i" using ti [of x] uw [OF iB] iB by (simp add: i(1))
      have q1: "0 \<le> int i" by simp
      have q2: "int i < int (length bfe)" using iB B by linarith
      have q3: "int i + 1 \<le> int ?B" using iB by linarith
      show "0 \<le> to_int x \<and> to_int x < int (length bfe) \<and> to_int x + 1 \<le> to_int ?bMM
        \<and> int64_range ((to_int x + 1) * 2048)"
        unfolding t tb using q1 q2 q3 rgx [OF iB] by blast
    qed
    from base_loop1_ok [OF pos _ c1, of "replicate 2048 0"] obtain l1 where
      f1: "base_loop1 ?bMM bfe (map word_of_nat [0..<unat (?bMM div 2)]) (replicate 2048 0)
            = Inr l1" and l1: "length l1 = 2048" by auto
    have c2: "\<forall>x \<in> set (map word_of_nat [unat (?bMM div 2)..<?B] :: 'a word list).
        0 \<le> to_int x \<and> to_int x + 1 \<le> to_int ?bMM
        \<and> int64_range ((to_int x + 1) * 2048)
        \<and> 0 \<le> to_int (?bMM - x + ?bMM div 2 - 1)
        \<and> to_int (?bMM - x + ?bMM div 2 - 1) < int (length bfe)"
    proof
      fix x :: "'a word" assume "x \<in> set (map word_of_nat [unat (?bMM div 2)..<?B])"
      then obtain i where i: "x = word_of_nat i" "unat (?bMM div 2) \<le> i" "i < ?B" by auto
      have t: "to_int x = int i" using ti [of x] uw [OF i(3)] i(3) by (simp add: i(1))
      note bi = base_index [OF len i(2,3)]
      have "unat (?bMM - x + ?bMM div 2 - 1) \<le> ?B" using bi by (simp add: i(1))
      from ti [OF this] have ti': "to_int (?bMM - x + ?bMM div 2 - 1)
          = int (?B - i + ?B div 2 - 1)" using bi(1) by (simp add: i(1))
      have "?B - i + ?B div 2 - 1 < length bfe" using bi(2) B by linarith
      then have q4: "int (?B - i + ?B div 2 - 1) < int (length bfe)"
        by (simp only: of_nat_less_iff)
      have q1: "0 \<le> int i" by simp
      have q3: "int i + 1 \<le> int ?B" using i(3) by linarith
      have q5: "0 \<le> int (?B - i + ?B div 2 - 1)" by simp
      show "0 \<le> to_int x \<and> to_int x + 1 \<le> to_int ?bMM
        \<and> int64_range ((to_int x + 1) * 2048)
        \<and> 0 \<le> to_int (?bMM - x + ?bMM div 2 - 1)
        \<and> to_int (?bMM - x + ?bMM div 2 - 1) < int (length bfe)"
        unfolding t tb ti' using q1 q3 q4 q5 rgx [OF i(3)] by blast
    qed
    from base_loop2_ok [OF pos l1 c2] obtain l2 where
      "base_loop2 ?bMM bfe (map word_of_nat [unat (?bMM div 2)..<?B]) l1 = Inr l2"
      "length l2 = 2048" by blast
    with f1 show ?thesis
      unfolding base_lutRaw_def ef w Let_def using nz by simp
  qed
qed


text \<open>The conditions under which no access of the base stage is out of range: the base
  table has at least \<open>baseMessageModulus\<close> entries.\<close>

definition base_args_ok :: "'a::len Parameters \<Rightarrow> nat \<Rightarrow> 'a word \<Rightarrow> bool" where
  "base_args_ok p K msgModulus =
    (2 \<le> LENGTH('a) \<and> K < LENGTH('a)
     \<and> unat (messageModulus p div 2 ^ K) \<le> nat (to_int msgModulus) div 2 ^ K
     \<and> unat (messageModulus p div 2 ^ K) < 2 ^ 52)"

subsection \<open>The tables of a run that returns\<close>

lemma builders_tables:
  fixes p :: "'a::len Parameters"
  assumes "GenLookUpTableNegDecomposedFullAssign p f msgModulus out = Inr (negs, bfe, out')
     \<or> GenLookUpTableNegDecomposedEBSFullAssign p f msgModulus out = Inr (negs, bfe, out')"
  shows "decompose_loop (logExtendFactor p)
           (map (\<lambda>x. f (int x)) [0..<nat (to_int msgModulus)]) [] = (negs, bfe)"
  using assms
  unfolding GenLookUpTableNegDecomposedFullAssign_def GenLookUpTableNegDecomposedEBSFullAssign_def
  by (auto simp: Let_def split: if_splits prod.splits sum.splits)

lemma tables_identities:
  assumes "decompose_loop K funcEval [] = (negs, bfe)"
  shows "length negs = K"
    "\<forall>i < K. negs ! i = halve_diff ((halve_sum ^^ i) funcEval)
        \<and> length (negs ! i) = length funcEval div 2 ^ (i + 1)"
    "bfe = (halve_sum ^^ K) funcEval" "length bfe = length funcEval div 2 ^ K"
proof -
  from assms have n: "negs = map (\<lambda>i. halve_diff ((halve_sum ^^ i) funcEval)) [0..<K]"
    and b: "bfe = (halve_sum ^^ K) funcEval"
    by (simp_all add: decompose_loop_acc)
  show "length negs = K" by (simp add: n)
  show "\<forall>i < K. negs ! i = halve_diff ((halve_sum ^^ i) funcEval)
        \<and> length (negs ! i) = length funcEval div 2 ^ (i + 1)"
    by (simp add: n length_funpow_halve_sum div_mult2_eq [symmetric] mult.commute)
  show "bfe = (halve_sum ^^ K) funcEval" by (rule b)
  show "length bfe = length funcEval div 2 ^ K" unfolding b by (rule length_funpow_halve_sum)
qed

subsection \<open>When the builders return\<close>

lemma nat_div_pow: "0 \<le> m \<Longrightarrow> nat m div 2 ^ k = nat (m div 2 ^ k)"
  by (simp add: nat_div_distrib nat_power_eq)

lemma builders_return:
  fixes p :: "'a::len Parameters"
  assumes a: "neg_args_ok p K msgModulus" and b: "base_args_ok p K msgModulus"
  shows "full_shape_ok K out \<Longrightarrow>
      \<exists>negs bfe out'. GenLookUpTableNegDecomposedFullAssign p f msgModulus out
        = Inr (negs, bfe, out')"
    "ebs_shape_ok K out \<Longrightarrow>
      \<exists>negs bfe out'. GenLookUpTableNegDecomposedEBSFullAssign p f msgModulus out
        = Inr (negs, bfe, out')"
proof -
  let ?M = "to_int msgModulus"
  let ?fe = "map (\<lambda>x. f (int x)) [0..<nat ?M]"
  from a have L: "lookUpTableSize p = 2048 * 2 ^ K" and M: "0 < ?M"
    unfolding neg_args_ok_def by blast+
  from b have len: "2 \<le> LENGTH('a)" and Kw: "K < LENGTH('a)"
    and B: "unat (messageModulus p div 2 ^ K) \<le> nat ?M div 2 ^ K"
    and small: "unat (messageModulus p div 2 ^ K) < 2 ^ 52"
    unfolding base_args_ok_def by blast+
  have lef: "logExtendFactor p = K" by (rule logExtendFactor_pow [OF L])
  obtain negs bfe where d: "decompose_loop K ?fe [] = (negs, bfe)"
    by (cases "decompose_loop K ?fe []")
  note t = tables_identities [OF d]
  have nl: "\<forall>k < K. length (negs ! k) = nat (?M div 2 ^ (k + 1))"
  proof (intro allI impI)
    fix k assume "k < K"
    with t(2) have "length (negs ! k) = length ?fe div 2 ^ (k + 1)" by blast
    also have "\<dots> = nat ?M div 2 ^ (k + 1)" by simp
    also have "\<dots> = nat (?M div 2 ^ (k + 1))" using M by (intro nat_div_pow) simp
    finally show "length (negs ! k) = nat (?M div 2 ^ (k + 1))" .
  qed
  have bl: "unat (messageModulus p div 2 ^ K) \<le> length bfe" using B by (simp add: t(4))
  from base_lutRaw_ok [OF len L Kw bl small] obtain lutRaw where
    r: "base_lutRaw p bfe = Inr lutRaw" and rl: "length lutRaw = 2048" by blast
  have ks: "\<forall>k \<in> set [0..<length negs]. k < K" by (simp add: t(1))
  have nM: "\<not> ?M < 0" using M by simp
  {
    assume s: "full_shape_ok K out"
    from neg_luts_full_ok [OF a nl ks s] obtain out1 where
      n: "neg_luts_full p msgModulus negs [0..<length negs] out = Inr out1"
      and sh: "shape out1 = shape out" by blast
    from full_shape_ok_cong [OF sh s] have "K < length out1" "0 < length (out1 ! K)"
      "\<forall>j \<in> set [0..<2048]. j < length (out1 ! K ! 0)"
      by (simp_all add: full_shape_ok_def)
    from store_poly_ok [OF this] obtain out2 where
      "store_poly out1 (int K) 0 (\<lambda>j. lutRaw ! j) [0..<2048] = Inr out2" by auto
    with n r d nM show "\<exists>negs bfe out'.
        GenLookUpTableNegDecomposedFullAssign p f msgModulus out = Inr (negs, bfe, out')"
      by (simp add: GenLookUpTableNegDecomposedFullAssign_def lef)
  }
  {
    assume s: "ebs_shape_ok K out"
    from neg_luts_ebs_ok [OF a nl ks s] obtain out1 where
      n: "neg_luts_ebs p msgModulus negs [0..<length negs] out = Inr out1"
      and sh: "shape out1 = shape out" by blast
    from ebs_shape_ok_cong [OF sh s] have "K < length out1" "0 < length (out1 ! K)"
      "\<forall>j \<in> set [0..<2048]. j < length (out1 ! K ! 0)"
      by (simp_all add: ebs_shape_ok_def)
    from store_poly_ok [OF this] obtain out2 where
      "store_poly out1 (int K) 0 (\<lambda>j. lutRaw ! j) [0..<2048] = Inr out2" by auto
    with n r d nM show "\<exists>negs bfe out'.
        GenLookUpTableNegDecomposedEBSFullAssign p f msgModulus out = Inr (negs, bfe, out')"
      by (simp add: GenLookUpTableNegDecomposedEBSFullAssign_def lef)
  }
qed

text \<open>
  Claim C2, amended. For a table size \<open>2048 * 2 ^ K\<close>: whenever one of the two builders
  returns, it has run \<open>K\<close> rounds on the table of \<open>f\<close> over \<open>[0, m)\<close>; with \<open>cur\<close> the
  current table and \<open>n\<close> half its length, each round computes
  \<open>new[j] = cur[j]/2 + cur[j+n]/2\<close> and \<open>neg[j] = cur[j]/2 - cur[j+n]/2\<close> in wrap-around
  arithmetic, every operand being halved (unsigned integer division) before the sum or the
  difference is formed; the \<open>i\<close>-th negative table has length \<open>m div 2 ^ (i + 1)\<close>, the base
  table \<open>m div 2 ^ K\<close>. And each builder does return when the arithmetic of its indices
  stays in range, the base table has at least \<open>Parameters.messageModulus / 2 ^ K\<close> entries,
  and \<open>decomposedLutOut\<close> has the shape its constructor gives it.
\<close>

theorem NegDecomposed_builders_halve_operands:
  fixes p :: "'a::len Parameters"
  assumes "lookUpTableSize p = 2048 * 2 ^ K"
  shows "(\<forall>negs baseFuncEval out'.
       GenLookUpTableNegDecomposedFullAssign p f msgModulus out = Inr (negs, baseFuncEval, out')
       \<or> GenLookUpTableNegDecomposedEBSFullAssign p f msgModulus out
            = Inr (negs, baseFuncEval, out') \<longrightarrow>
       (\<exists>funcEval. funcEval = map (\<lambda>x. f (int x)) [0..<nat (to_int msgModulus)]
          \<and> length negs = K
          \<and> (\<forall>i < K. negs ! i = halve_diff ((halve_sum ^^ i) funcEval)
                \<and> length (negs ! i) = length funcEval div 2 ^ (i + 1))
          \<and> baseFuncEval = (halve_sum ^^ K) funcEval
          \<and> length baseFuncEval = length funcEval div 2 ^ K))
    \<and> (\<forall>cur :: 'a word list. \<forall>j < length cur div 2.
          halve_sum cur ! j = cur ! j div 2 + cur ! (j + length cur div 2) div 2
        \<and> halve_diff cur ! j = cur ! j div 2 - cur ! (j + length cur div 2) div 2)
    \<and> (neg_args_ok p K msgModulus \<and> base_args_ok p K msgModulus \<longrightarrow>
         (full_shape_ok K out \<longrightarrow>
            (\<exists>negs baseFuncEval out'.
               GenLookUpTableNegDecomposedFullAssign p f msgModulus out
                 = Inr (negs, baseFuncEval, out')))
       \<and> (ebs_shape_ok K out \<longrightarrow>
            (\<exists>negs baseFuncEval out'.
               GenLookUpTableNegDecomposedEBSFullAssign p f msgModulus out
                 = Inr (negs, baseFuncEval, out'))))"
proof (intro conjI)
  have lef: "logExtendFactor p = K" by (rule logExtendFactor_pow [OF assms])
  show "\<forall>negs baseFuncEval out'.
       GenLookUpTableNegDecomposedFullAssign p f msgModulus out = Inr (negs, baseFuncEval, out')
       \<or> GenLookUpTableNegDecomposedEBSFullAssign p f msgModulus out
            = Inr (negs, baseFuncEval, out') \<longrightarrow>
       (\<exists>funcEval. funcEval = map (\<lambda>x. f (int x)) [0..<nat (to_int msgModulus)]
          \<and> length negs = K
          \<and> (\<forall>i < K. negs ! i = halve_diff ((halve_sum ^^ i) funcEval)
                \<and> length (negs ! i) = length funcEval div 2 ^ (i + 1))
          \<and> baseFuncEval = (halve_sum ^^ K) funcEval
          \<and> length baseFuncEval = length funcEval div 2 ^ K)"
  proof (intro allI impI)
    fix negs bfe out'
    assume "GenLookUpTableNegDecomposedFullAssign p f msgModulus out = Inr (negs, bfe, out')
       \<or> GenLookUpTableNegDecomposedEBSFullAssign p f msgModulus out = Inr (negs, bfe, out')"
    from builders_tables [OF this] have
      "decompose_loop K (map (\<lambda>x. f (int x)) [0..<nat (to_int msgModulus)]) [] = (negs, bfe)"
      by (simp add: lef)
    from tables_identities [OF this]
    show "\<exists>funcEval. funcEval = map (\<lambda>x. f (int x)) [0..<nat (to_int msgModulus)]
          \<and> length negs = K
          \<and> (\<forall>i < K. negs ! i = halve_diff ((halve_sum ^^ i) funcEval)
                \<and> length (negs ! i) = length funcEval div 2 ^ (i + 1))
          \<and> bfe = (halve_sum ^^ K) funcEval
          \<and> length bfe = length funcEval div 2 ^ K" by blast
  qed
  show "\<forall>cur :: 'a word list. \<forall>j < length cur div 2.
          halve_sum cur ! j = cur ! j div 2 + cur ! (j + length cur div 2) div 2
        \<and> halve_diff cur ! j = cur ! j div 2 - cur ! (j + length cur div 2) div 2"
    using halve_sum_nth halve_diff_nth by blast
  show "neg_args_ok p K msgModulus \<and> base_args_ok p K msgModulus \<longrightarrow>
         (full_shape_ok K out \<longrightarrow>
            (\<exists>negs baseFuncEval out'.
               GenLookUpTableNegDecomposedFullAssign p f msgModulus out
                 = Inr (negs, baseFuncEval, out')))
       \<and> (ebs_shape_ok K out \<longrightarrow>
            (\<exists>negs baseFuncEval out'.
               GenLookUpTableNegDecomposedEBSFullAssign p f msgModulus out
                 = Inr (negs, baseFuncEval, out')))"
    using builders_return [of p K msgModulus out f] by blast
qed


text \<open>The tables that \<open>NewDecomposedLut\<close> and \<open>NewDecomposedLutEBS\<close> allocate for the
  look-up-table size 4096: a negative table and a base table, each of one polynomial of
  2048 zero coefficients.\<close>

definition decomposedLutEBS5 :: "64 LookUpTable list" where
  "decomposedLutEBS5 = [[replicate 2048 0], [replicate 2048 0]]"

lemma EBS5_builder_args:
  "lookUpTableSize CompiledEBS5 = 2048 * 2 ^ 1"
  "neg_args_ok CompiledEBS5 1 32" "base_args_ok CompiledEBS5 1 32"
  "full_shape_ok 1 decomposedLutEBS5" "ebs_shape_ok 1 decomposedLutEBS5"
proof -
  have t: "to_int (32 :: 64 word) = 32" "to_int (64 :: 64 word) = 64"
    by (simp_all add: to_int_def wrap64_id int64_range_def)
  show "lookUpTableSize CompiledEBS5 = 2048 * 2 ^ 1" by (simp add: CompiledEBS5_fields)
  show "neg_args_ok CompiledEBS5 1 32"
    by (simp add: neg_args_ok_def CompiledEBS5_fields t int64_range_def)
  have "unat ((32 :: 64 word) div 2 ^ 1) = 16" by simp
  then show "base_args_ok CompiledEBS5 1 32"
    by (simp add: base_args_ok_def CompiledEBS5_fields t)
  show "full_shape_ok 1 decomposedLutEBS5"
    by (simp add: full_shape_ok_def decomposedLutEBS5_def)
  show "ebs_shape_ok 1 decomposedLutEBS5"
    by (simp add: ebs_shape_ok_def decomposedLutEBS5_def)
qed

lemma to_int_32: "nat (to_int (32 :: 64 word)) = 32"
  by (simp add: to_int_def wrap64_id int64_range_def)

theorem NegDecomposed_builders_halve_operands_witness:
  "lookUpTableSize CompiledEBS5 = 2048 * 2 ^ 1
   \<and> neg_args_ok CompiledEBS5 1 32 \<and> base_args_ok CompiledEBS5 1 32
   \<and> full_shape_ok 1 decomposedLutEBS5 \<and> ebs_shape_ok 1 decomposedLutEBS5
   \<and> (\<exists>negs baseFuncEval out'.
         GenLookUpTableNegDecomposedFullAssign CompiledEBS5 (\<lambda>x. push_bit 59 (word_of_int x)) 32
           decomposedLutEBS5 = Inr (negs, baseFuncEval, out')
         \<and> length negs = 1 \<and> length (negs ! 0) = 16 \<and> length baseFuncEval = 16
         \<and> negs ! 0 ! 0 = - push_bit 62 1 \<and> baseFuncEval ! 0 = push_bit 62 1)
   \<and> (\<exists>negs baseFuncEval out'.
         GenLookUpTableNegDecomposedEBSFullAssign CompiledEBS5 (\<lambda>x. push_bit 59 (word_of_int x)) 32
           decomposedLutEBS5 = Inr (negs, baseFuncEval, out')
         \<and> length negs = 1 \<and> length (negs ! 0) = 16 \<and> length baseFuncEval = 16
         \<and> negs ! 0 ! 0 = - push_bit 62 1 \<and> baseFuncEval ! 0 = push_bit 62 1)"
proof -
  let ?f = "\<lambda>x. push_bit 59 (word_of_int x) :: 64 word"
  let ?fe = "map (\<lambda>x. ?f (int x)) [0..<nat (to_int (32 :: 64 word))]"
  note a = EBS5_builder_args
  note th = NegDecomposed_builders_halve_operands [OF a(1), of ?f 32 decomposedLutEBS5]
  have l: "length ?fe = 32" by (simp add: to_int_32)
  have d: "halve_diff ?fe ! 0 = - push_bit 62 1"
    by (simp add: halve_diff_nth l to_int_32)
  have s: "halve_sum ?fe ! 0 = push_bit 62 1"
    by (simp add: halve_sum_nth l to_int_32)
  have vals: "length negs = 1 \<and> length (negs ! 0) = 16 \<and> length bfe = 16
         \<and> negs ! 0 ! 0 = - push_bit 62 1 \<and> bfe ! 0 = push_bit 62 1"
    if "GenLookUpTableNegDecomposedFullAssign CompiledEBS5 ?f 32 decomposedLutEBS5
          = Inr (negs, bfe, out')
        \<or> GenLookUpTableNegDecomposedEBSFullAssign CompiledEBS5 ?f 32 decomposedLutEBS5
          = Inr (negs, bfe, out')" for negs bfe out'
  proof -
    from th that have t: "length negs = 1"
      "\<forall>i < 1. negs ! i = halve_diff ((halve_sum ^^ i) ?fe)
          \<and> length (negs ! i) = length ?fe div 2 ^ (i + 1)"
      "bfe = (halve_sum ^^ 1) ?fe" "length bfe = length ?fe div 2 ^ 1"
      by blast+
    from t(2) have "negs ! 0 = halve_diff ?fe" "length (negs ! 0) = length ?fe div 2" by simp_all
    with t(1,3,4) d s show ?thesis by (simp add: l to_int_32)
  qed
  from th a obtain n1 b1 o1 where
    r1: "GenLookUpTableNegDecomposedFullAssign CompiledEBS5 ?f 32 decomposedLutEBS5
          = Inr (n1, b1, o1)" by blast
  from th a obtain n2 b2 o2 where
    r2: "GenLookUpTableNegDecomposedEBSFullAssign CompiledEBS5 ?f 32 decomposedLutEBS5
          = Inr (n2, b2, o2)" by blast
  from vals [of n1 b1 o1] r1 have v1: "length n1 = 1 \<and> length (n1 ! 0) = 16 \<and> length b1 = 16
         \<and> n1 ! 0 ! 0 = - push_bit 62 1 \<and> b1 ! 0 = push_bit 62 1" by blast
  from vals [of n2 b2 o2] r2 have v2: "length n2 = 1 \<and> length (n2 ! 0) = 16 \<and> length b2 = 16
         \<and> n2 ! 0 ! 0 = - push_bit 62 1 \<and> b2 ! 0 = push_bit 62 1" by blast
  from a r1 v1 r2 v2 show ?thesis by blast
qed

text \<open>
  Claim C2 as stated fails: for the constant function 1 with message modulus 32 on
  \<open>ParamsEBS5\<close> both builders return, and the first entry of the base table is
  \<open>1/2 + 1/2 = 0\<close>, while half of the sum \<open>(1 + 1)/2\<close> is \<open>1\<close>.
\<close>

theorem NegDecomposed_builders_counterexample:
  "(\<exists>negs baseFuncEval out'.
      GenLookUpTableNegDecomposedFullAssign CompiledEBS5 (\<lambda>x. 1) 32 decomposedLutEBS5
        = Inr (negs, baseFuncEval, out')
      \<and> baseFuncEval ! 0 = 0)
   \<and> (\<exists>negs baseFuncEval out'.
      GenLookUpTableNegDecomposedEBSFullAssign CompiledEBS5 (\<lambda>x. 1) 32 decomposedLutEBS5
        = Inr (negs, baseFuncEval, out')
      \<and> baseFuncEval ! 0 = 0)
   \<and> claimed_new (map (\<lambda>x. 1) [0..<32]) ! 0 = (1 :: 64 word)"
proof -
  let ?f = "\<lambda>x::int. 1 :: 64 word"
  let ?fe = "map (\<lambda>x. ?f (int x)) [0..<nat (to_int (32 :: 64 word))]"
  note a = EBS5_builder_args
  have lef: "logExtendFactor CompiledEBS5 = 1" by (rule logExtendFactor_pow [OF a(1)])
  have l: "length ?fe = 32" by (simp add: to_int_32)
  have s: "halve_sum ?fe ! 0 = 0" by (simp add: halve_sum_nth l to_int_32)
  have val: "bfe ! 0 = 0"
    if "GenLookUpTableNegDecomposedFullAssign CompiledEBS5 ?f 32 decomposedLutEBS5
          = Inr (negs, bfe, out')
        \<or> GenLookUpTableNegDecomposedEBSFullAssign CompiledEBS5 ?f 32 decomposedLutEBS5
          = Inr (negs, bfe, out')" for negs bfe out'
  proof -
    from builders_tables [OF that] have "decompose_loop 1 ?fe [] = (negs, bfe)"
      by (simp only: lef)
    from tables_identities(3) [OF this] s show ?thesis by simp
  qed
  from builders_return(1) [OF a(2,3,4), of ?f] obtain n1 b1 o1 where
    r1: "GenLookUpTableNegDecomposedFullAssign CompiledEBS5 ?f 32 decomposedLutEBS5
          = Inr (n1, b1, o1)" by blast
  from builders_return(2) [OF a(2,3,5), of ?f] obtain n2 b2 o2 where
    r2: "GenLookUpTableNegDecomposedEBSFullAssign CompiledEBS5 ?f 32 decomposedLutEBS5
          = Inr (n2, b2, o2)" by blast
  have c: "claimed_new (map (\<lambda>x. 1) [0..<32]) ! 0 = (1 :: 64 word)"
    by (simp add: claimed_new_def)
  from val [of n1 b1 o1] r1 have "b1 ! 0 = 0" by blast
  moreover from val [of n2 b2 o2] r2 have "b2 ! 0 = 0" by blast
  ultimately show ?thesis using r1 r2 c by blast
qed

section \<open>Modulus switch for the compress LUT\<close>

text \<open>
  The values of \<open>float64\<close>: the finite ones as \<open>m * 2 ^ e\<close> with a signed integer \<open>m\<close>,
  the two infinities (the flag is the sign bit), and NaN. The sign of a zero is not kept;
  no operation below depends on it.
\<close>

datatype f64val = Fin int int | Inf bool | NaN

text \<open>The value of an IEEE-754 binary64 bit pattern: sign, 11 bits of biased exponent,
  52 bits of fraction.\<close>

definition f64_decode :: "float64 \<Rightarrow> f64val" where
  "f64_decode w =
    (let s = bit w 63; E = unat (take_bit 11 (drop_bit 52 w)); F = uint (take_bit 52 w)
     in if E = 2047 then (if F = 0 then Inf s else NaN)
        else if E = 0 then Fin (if s then - F else F) (- 1074)
        else Fin (if s then - (2 ^ 52 + F) else 2 ^ 52 + F) (int E - 1075))"

text \<open>The number of bits of a positive integer.\<close>

definition bit_len :: "int \<Rightarrow> nat" where
  "bit_len a = (if a \<le> 0 then 0 else Suc (log2_nat (nat a)))"

text \<open>\<open>a / 2 ^ s\<close> rounded to the nearest integer, a tie to the even one.\<close>

definition round_even :: "int \<Rightarrow> nat \<Rightarrow> int" where
  "round_even a s =
    (let q = a div 2 ^ s; r = a mod 2 ^ s
     in if 2 * r < 2 ^ s \<or> (2 * r = 2 ^ s \<and> even q) then q else q + 1)"

text \<open>The \<open>float64\<close> nearest to the exact value \<open>M * 2 ^ E\<close> (round to nearest, ties to
  even): 53 significant bits, no bit below \<open>2 ^ -1074\<close>, an infinity from \<open>2 ^ 1024\<close>
  on.\<close>

definition f64_round :: "int \<Rightarrow> int \<Rightarrow> f64val" where
  "f64_round M E =
    (let a = \<bar>M\<bar>;
         q = max (E + int (bit_len a) - 53) (- 1074);
         (m, e) = (if q \<le> E then (a, E) else (round_even a (nat (q - E)), q))
     in if 1024 < int (bit_len m) + e then Inf (M < 0)
        else Fin (if M < 0 then - m else m) e)"

text \<open>\<open>float64(x)\<close> for \<open>x\<close> of type \<open>T\<close>.\<close>

definition f64_of_uint :: "'a::len word \<Rightarrow> f64val" where
  "f64_of_uint x = f64_round (uint x) 0"

text \<open>The product of two \<open>float64\<close> values.\<close>

fun f64_mul :: "f64val \<Rightarrow> f64val \<Rightarrow> f64val" where
  "f64_mul (Fin m1 e1) (Fin m2 e2) = f64_round (m1 * m2) (e1 + e2)"
| "f64_mul (Fin m e) (Inf s) = (if m = 0 then NaN else Inf (s \<noteq> (m < 0)))"
| "f64_mul (Inf s) (Fin m e) = (if m = 0 then NaN else Inf (s \<noteq> (m < 0)))"
| "f64_mul (Inf s) (Inf t) = Inf (s \<noteq> t)"
| "f64_mul NaN _ = NaN"
| "f64_mul _ NaN = NaN"

text \<open>\<open>math.Round\<close>, to the nearest integer and half away from zero, as the integer it
  returns (it is a \<open>float64\<close>: below \<open>2 ^ 52\<close> when its argument has a fractional part);
  an infinity and NaN are returned as they are.\<close>

fun math_Round :: "f64val \<Rightarrow> int option" where
  "math_Round (Fin m e) =
    Some (if 0 \<le> e then m * 2 ^ nat e
          else let d = 2 ^ nat (- e); r = (2 * \<bar>m\<bar> + d) div (2 * d)
               in if m < 0 then - r else r)"
| "math_Round (Inf s) = None"
| "math_Round NaN = None"

text \<open>\<open>int(r * 2)\<close> for the integer \<open>r\<close> that \<open>math.Round\<close> returned: doubling a \<open>float64\<close>
  is exact, unless it overflows to an infinity. The conversion of a value that an \<open>int\<close>
  cannot hold (of an infinity or NaN too) is implementation-dependent: \<open>None\<close>.\<close>

definition int_of_doubled :: "int option \<Rightarrow> int option" where
  "int_of_doubled r =
    (case r of
       None \<Rightarrow> None
     | Some r \<Rightarrow> if int64_range (2 * r) then Some (2 * r) else None)"

text \<open>
  The evaluator fields that \<open>ModSwitchCompress\<close> reads. The declaration of \<open>Evaluator\<close>
  and its constructor are not among the sources: \<open>modSwitchConstant\<close> is a \<open>float64\<close> (it is
  multiplied with \<open>float64(x)\<close>), and its value is taken as given.
\<close>

record (overloaded) 'a Evaluator =
  Parameters :: "'a Parameters"
  modSwitchConstant :: float64

text \<open>\<open>int(math.Round(e.modSwitchConstant*float64(x))*2) % (2 * e.Parameters.polyDegree)\<close>.
  The result is \<open>None\<close> where the conversion to \<open>int\<close> is implementation-dependent.\<close>

definition ModSwitchCompress :: "'a::len Evaluator \<Rightarrow> 'a word \<Rightarrow> panic + int option" where
  "ModSwitchCompress e x =
    (let v = int_of_doubled
               (math_Round (f64_mul (f64_decode (modSwitchConstant e)) (f64_of_uint x)));
         d = wrap64 (2 * polyDegree (Parameters e))
     in if d = 0 then Inl DivideByZero
        else Inr (map_option (\<lambda>t. t smod d) v))"

text \<open>The real number a finite \<open>float64\<close> stands for, and rounding half away from zero on
  the reals.\<close>

fun f64_val :: "f64val \<Rightarrow> real" where
  "f64_val (Fin m e) =
    (if 0 \<le> e then real_of_int (m * 2 ^ nat e) else real_of_int m / 2 ^ nat (- e))"
| "f64_val (Inf s) = 0"
| "f64_val NaN = 0"

definition round_half_away :: "real \<Rightarrow> int" where
  "round_half_away r = (if r < 0 then - \<lfloor>- r + 1 / 2\<rfloor> else \<lfloor>r + 1 / 2\<rfloor>)"

text \<open>The value the specification gives: \<open>round(c * x) * 2\<close> reduced modulo \<open>2L\<close>, in exact
  arithmetic.\<close>

definition claimed_ModSwitchCompress :: "'a::len Evaluator \<Rightarrow> 'a word \<Rightarrow> int" where
  "claimed_ModSwitchCompress e x =
    (round_half_away (f64_val (f64_decode (modSwitchConstant e)) * real_of_int (uint x)) * 2)
      mod (2 * lookUpTableSize (Parameters e))"

text \<open>Modelled from the spec: the constant of an evaluator is \<open>c = 2L/Q\<close>. For
  \<open>ParamsEBS5\<close> that is \<open>2^-51\<close>.\<close>

definition EvaluatorEBS5 :: "64 Evaluator" where
  "EvaluatorEBS5 = \<lparr> Parameters = CompiledEBS5, modSwitchConstant = 0x3CC0000000000000 \<rparr>"

lemma log2_nat_bounds: "2 ^ k \<le> n \<Longrightarrow> n < 2 ^ Suc k \<Longrightarrow> log2_nat n = k"
proof (induction k arbitrary: n)
  case 0
  then have "n < 2" by simp
  then show ?case by (simp add: log2_nat.simps)
next
  case (Suc k)
  from Suc.prems have a: "2 ^ k \<le> n div 2" by simp
  from Suc.prems have b: "n div 2 < 2 ^ Suc k" by simp
  from Suc.prems have "\<not> n < 2"
  proof -
    have "(2::nat) \<le> 2 ^ Suc k" by simp
    with Suc.prems(1) show ?thesis by linarith
  qed
  then show ?case using Suc.IH [OF a b] by (simp add: log2_nat.simps [of n])
qed

lemma bit_len_bounds: "2 ^ k \<le> a \<Longrightarrow> a < 2 ^ Suc k \<Longrightarrow> bit_len a = Suc k"
proof -
  assume a: "2 ^ k \<le> a" "a < 2 ^ Suc k"
  have pos: "0 < a" using a(1) by (rule less_le_trans [rotated]) simp
  have "2 ^ k \<le> nat a" using a(1) pos by (simp add: le_nat_iff)
  moreover have "nat a < 2 ^ Suc k" using a(2) pos by (simp add: nat_less_iff)
  ultimately have "log2_nat (nat a) = k" by (rule log2_nat_bounds)
  with pos show ?thesis by (simp add: bit_len_def)
qed

lemma bit_len_0 [simp]: "bit_len 0 = 0"
  by (simp add: bit_len_def)

subsection \<open>Rounding\<close>

lemma round_half_away_int [simp]: "round_half_away (real_of_int z) = z"
proof -
  have "\<lfloor>real_of_int z + 1 / 2\<rfloor> = z" by linarith
  moreover have "\<lfloor>- real_of_int z + 1 / 2\<rfloor> = - z" by linarith
  ultimately show ?thesis by (simp add: round_half_away_def)
qed

lemma round_half_away_nonneg: "0 \<le> r \<Longrightarrow> 0 \<le> round_half_away r"
  by (simp add: round_half_away_def)

lemma floor_half_div:
  assumes "0 < d"
  shows "\<lfloor>real_of_int a / real_of_int d + 1 / 2\<rfloor> = (2 * a + d) div (2 * d)"
proof -
  have "real_of_int a / real_of_int d + 1 / 2 = real_of_int (2 * a + d) / real_of_int (2 * d)"
    using assms by (simp add: field_simps)
  then show ?thesis by (simp only: floor_divide_of_int_eq)
qed

lemma math_Round_val: "math_Round (Fin m e) = Some (round_half_away (f64_val (Fin m e)))"
proof (cases "0 \<le> e")
  case True
  have "round_half_away (real_of_int (m * 2 ^ nat e)) = m * 2 ^ nat e"
    by (rule round_half_away_int)
  with True show ?thesis by (simp del: of_int_mult of_int_power round_half_away_int)
next
  case False
  let ?d = "(2 :: int) ^ nat (- e)"
  have d: "0 < ?d" by simp
  have dr: "real_of_int ?d = 2 ^ nat (- e)" by simp
  show ?thesis
  proof (cases "m < 0")
    case True
    then have neg: "real_of_int m / 2 ^ nat (- e) < 0" by (simp add: divide_neg_pos)
    have "\<lfloor>- (real_of_int m / 2 ^ nat (- e)) + 1 / 2\<rfloor>
        = \<lfloor>real_of_int (- m) / real_of_int ?d + 1 / 2\<rfloor>" by simp
    also have "\<dots> = (2 * (- m) + ?d) div (2 * ?d)" by (rule floor_half_div [OF d])
    finally show ?thesis using True False neg
      by (simp add: round_half_away_def Let_def)
  next
    case m: False
    then have nn: "\<not> real_of_int m / 2 ^ nat (- e) < 0" by (simp add: not_less)
    have "\<lfloor>real_of_int m / 2 ^ nat (- e) + 1 / 2\<rfloor>
        = \<lfloor>real_of_int m / real_of_int ?d + 1 / 2\<rfloor>" by simp
    also have "\<dots> = (2 * m + ?d) div (2 * ?d)" by (rule floor_half_div [OF d])
    finally show ?thesis using m False nn
      by (simp add: round_half_away_def Let_def)
  qed
qed

lemma f64_val_nonneg: "0 \<le> m \<Longrightarrow> 0 \<le> f64_val (Fin m e)"
  by simp

lemma round_even_nonneg: "0 \<le> a \<Longrightarrow> 0 \<le> round_even a s"
proof -
  assume "0 \<le> a"
  then have "0 \<le> a div 2 ^ s" by (simp add: pos_imp_zdiv_nonneg_iff)
  then show ?thesis by (simp add: round_even_def Let_def)
qed

lemma f64_round_sign:
  assumes "f64_round M E = Fin m e" "0 \<le> M"
  shows "0 \<le> m"
proof -
  let ?q = "max (E + int (bit_len \<bar>M\<bar>) - 53) (- 1074)"
  from assms(2) have a: "\<bar>M\<bar> = M" "\<not> M < 0" by simp_all
  show ?thesis
  proof (cases "?q \<le> E")
    case True
    with assms show ?thesis by (auto simp: f64_round_def Let_def a split: if_splits)
  next
    case False
    with assms(1) have "m = round_even M (nat (?q - E))"
      by (auto simp: f64_round_def Let_def a split: if_splits)
    with assms(2) show ?thesis by (simp add: round_even_nonneg)
  qed
qed


text \<open>The code, for a finite non-negative constant, a finite product and a doubled rounding
  that an \<open>int\<close> holds.\<close>

lemma ModSwitchCompress_finite:
  fixes e :: "'a::len Evaluator"
  assumes c: "f64_decode (modSwitchConstant e) = Fin mc ec" "0 \<le> mc"
    and N: "0 < polyDegree (Parameters e)" "int64_range (2 * polyDegree (Parameters e))"
    and p: "f64_mul (Fin mc ec) (f64_of_uint x) = Fin mp ep"
    and r: "int64_range (2 * round_half_away (f64_val (Fin mp ep)))"
  shows "ModSwitchCompress e x
    = Inr (Some ((2 * round_half_away (f64_val (Fin mp ep))) mod (2 * polyDegree (Parameters e))))"
proof -
  let ?N = "polyDegree (Parameters e)"
  let ?R = "round_half_away (f64_val (Fin mp ep))"
  obtain mx ex where X: "f64_of_uint x = Fin mx ex"
    using p by (cases "f64_of_uint x") (auto split: if_splits)
  have "0 \<le> mx" using X by (auto simp: f64_of_uint_def intro: f64_round_sign)
  with c(2) have "0 \<le> mc * mx" by simp
  moreover from p have "f64_round (mc * mx) (ec + ex) = Fin mp ep" by (simp add: X)
  ultimately have "0 \<le> mp" by (rule f64_round_sign [rotated])
  then have R: "0 \<le> ?R" by (intro round_half_away_nonneg f64_val_nonneg)
  have w: "wrap64 (2 * ?N) = 2 * ?N" using N(2) by (rule wrap64_id)
  have "int_of_doubled (math_Round (Fin mp ep)) = Some (2 * ?R)"
    using r by (simp add: int_of_doubled_def math_Round_val del: f64_val.simps math_Round.simps)
  then show ?thesis
    using N(1) R by (simp add: ModSwitchCompress_def c(1) p w smod_pos del: f64_val.simps)
qed

subsection \<open>When the product is exact\<close>

lemma log2_nat_spec: "0 < n \<Longrightarrow> 2 ^ log2_nat n \<le> n \<and> n < 2 ^ Suc (log2_nat n)"
proof (induction n rule: log2_nat.induct)
  case (1 n)
  show ?case
  proof (cases "n < 2")
    case True
    with 1(2) have "n = 1" by simp
    then show ?thesis by (simp add: log2_nat.simps)
  next
    case False
    then have "0 < n div 2" by simp
    from 1(1) [OF False this] have "2 ^ log2_nat (n div 2) \<le> n div 2"
      "n div 2 < 2 ^ Suc (log2_nat (n div 2))" by simp_all
    then have "2 * 2 ^ log2_nat (n div 2) \<le> n" "n < 2 * 2 ^ Suc (log2_nat (n div 2))"
      by linarith+
    then show ?thesis using False by (simp add: log2_nat.simps [of n])
  qed
qed

lemma bit_len_spec:
  assumes "0 < a"
  shows "0 < bit_len a" "2 ^ (bit_len a - 1) \<le> a" "a < 2 ^ bit_len a"
proof -
  from assms have n: "0 < nat a" by simp
  note l = log2_nat_spec [OF n]
  show "0 < bit_len a" using assms by (simp add: bit_len_def)
  from l have "int (2 ^ log2_nat (nat a)) \<le> int (nat a)" by (simp only: of_nat_le_iff)
  then show "2 ^ (bit_len a - 1) \<le> a" using assms by (simp add: bit_len_def)
  from l have "int (nat a) < int (2 ^ Suc (log2_nat (nat a)))" by (simp only: of_nat_less_iff)
  then show "a < 2 ^ bit_len a" using assms by (simp add: bit_len_def)
qed

lemma bit_len_le:
  assumes "a < 2 ^ k"
  shows "bit_len a \<le> k"
proof (cases "0 < a")
  case True
  note b = bit_len_spec [OF True]
  from b(2) assms have "(2::int) ^ (bit_len a - 1) < 2 ^ k" by linarith
  then have "bit_len a - 1 < k" by simp
  with b(1) show ?thesis by linarith
next
  case False
  then show ?thesis by (simp add: bit_len_def)
qed

lemma bit_len_mult_pow:
  assumes "0 < x"
  shows "bit_len (2 ^ k * x) = k + bit_len x"
proof -
  note b = bit_len_spec [OF assms]
  from b(1) obtain j where j: "bit_len x = Suc j" by (cases "bit_len x") simp_all
  from b(2) have "2 ^ k * 2 ^ j \<le> 2 ^ k * x" by (simp add: j)
  then have lo: "2 ^ (k + j) \<le> 2 ^ k * x" by (simp add: power_add)
  from b(3) have "2 ^ k * x < 2 ^ k * 2 ^ Suc j" by (simp add: j)
  then have hi: "2 ^ k * x < 2 ^ Suc (k + j)" by (simp add: power_add)
  from bit_len_bounds [OF lo hi] show ?thesis by (simp add: j)
qed

text \<open>Below \<open>2 ^ 53\<close> the conversion to \<open>float64\<close> is exact.\<close>

lemma f64_of_uint_exact:
  assumes "uint x < 2 ^ 53"
  shows "f64_of_uint x = Fin (uint x) 0"
proof -
  have b: "bit_len (uint x) \<le> 53" using assms by (rule bit_len_le)
  then have q: "max (int (bit_len (uint x)) - 53) (- 1074) \<le> 0" by simp
  have a: "\<bar>uint x\<bar> = uint x" "\<not> uint x < 0" by simp_all
  from b have "\<not> 1024 < int (bit_len (uint x)) + 0" by simp
  with q show ?thesis
    unfolding f64_of_uint_def f64_round_def Let_def a by simp
qed

lemma f64_val_powr: "f64_val (Fin m e) = real_of_int m * 2 powr real_of_int e"
proof (cases "0 \<le> e")
  case True
  then have "2 powr real_of_int e = 2 ^ nat e"
    by (metis of_int_of_nat_eq int_nat_eq powr_realpow zero_less_numeral of_int_of_nat_eq)
  with True show ?thesis by simp
next
  case False
  then have "real_of_int e = - real (nat (- e))" by simp
  then have "2 powr real_of_int e = 1 / 2 ^ nat (- e)"
    by (simp only: powr_minus_divide powr_realpow zero_less_numeral)
  with False show ?thesis by simp
qed

lemma f64_val_shift:
  assumes "2 ^ s dvd M"
  shows "f64_val (Fin (M div 2 ^ s) (E + int s)) = f64_val (Fin M E)"
proof -
  from assms obtain t where t: "M = 2 ^ s * t" by (auto simp: dvd_def)
  have "2 powr real_of_int (E + int s) = 2 powr real_of_int E * 2 ^ s"
    by (simp add: powr_add powr_realpow)
  then show ?thesis
    unfolding f64_val_powr by (simp add: t)
qed

lemma f64_round_shift:
  assumes M: "0 \<le> M" and q: "max (E + int (bit_len M) - 53) (- 1074) = E + int s"
    and dv: "2 ^ s dvd M" and hi: "int (bit_len (M div 2 ^ s)) + (E + int s) \<le> 1024"
  shows "f64_round M E = Fin (M div 2 ^ s) (E + int s)"
proof -
  from M have a: "\<bar>M\<bar> = M" by simp
  from M have n: "(M < 0) = False" by simp
  show ?thesis
  proof (cases "s = 0")
    case True
    show ?thesis
      unfolding f64_round_def Let_def a q n using hi by (simp add: True)
  next
    case False
    then have nq: "(E + int s \<le> E) = False" by simp
    have ns: "nat (E + int s - E) = s" by simp
    from dv have md: "M mod 2 ^ s = 0" by (simp add: dvd_eq_mod_eq_0)
    have re: "round_even M s = M div 2 ^ s" unfolding round_even_def Let_def md by simp
    show ?thesis
      unfolding f64_round_def Let_def a q n nq ns re using hi by simp
  qed
qed

lemma bit_len_div_le:
  assumes "0 \<le> M"
  shows "bit_len (M div 2 ^ s) \<le> bit_len M"
proof (cases "0 < M")
  case True
  have "M div 2 ^ s \<le> M div 1" using assms by (intro zdiv_mono2) simp_all
  also have "\<dots> < 2 ^ bit_len M" using bit_len_spec(3) [OF True] by simp
  finally show ?thesis by (rule bit_len_le)
next
  case False
  with assms have "M = 0" by simp
  then show ?thesis by simp
qed

text \<open>A power of two, at most one, times an integer below \<open>2 ^ 53\<close> is a \<open>float64\<close>.\<close>

lemma f64_round_pow2:
  assumes x: "0 \<le> x" "x < 2 ^ 53" and E: "- 1074 \<le> E" "E \<le> - 52"
  shows "\<exists>m e. f64_round (2 ^ 52 * x) E = Fin m e
    \<and> f64_val (Fin m e) = f64_val (Fin (2 ^ 52) E) * real_of_int x"
proof (cases "x = 0")
  case True
  from E have "f64_round 0 E = Fin 0 E" by (simp add: f64_round_def Let_def)
  then show ?thesis by (simp add: True)
next
  case False
  with x(1) have pos: "0 < x" by simp
  let ?M = "2 ^ 52 * x"
  let ?b = "bit_len x"
  let ?s = "?b - 1"
  note b = bit_len_spec(1) [OF pos]
  have b53: "?b \<le> 53" using x(2) by (rule bit_len_le)
  have bl: "bit_len ?M = 52 + ?b" by (rule bit_len_mult_pow [OF pos])
  have blint: "int (bit_len ?M) = 52 + int ?b" unfolding bl by simp
  have q: "max (E + int (bit_len ?M) - 53) (- 1074) = E + int ?s"
    unfolding blint using b E by simp
  have "?s \<le> 52" using b53 by simp
  then have "(2::int) ^ ?s dvd 2 ^ 52" by (intro le_imp_power_dvd)
  then have dv: "(2::int) ^ ?s dvd ?M" by (rule dvd_mult2)
  have M: "0 \<le> ?M" using x(1) by simp
  have "bit_len (?M div 2 ^ ?s) \<le> bit_len ?M" using M by (rule bit_len_div_le)
  then have "int (bit_len (?M div 2 ^ ?s)) \<le> 52 + int ?b" unfolding bl by simp
  with b53 E(2) have hi: "int (bit_len (?M div 2 ^ ?s)) + (E + int ?s) \<le> 1024" by simp
  have r: "f64_round ?M E = Fin (?M div 2 ^ ?s) (E + int ?s)"
    using M q dv hi by (rule f64_round_shift)
  have "f64_val (Fin (?M div 2 ^ ?s) (E + int ?s)) = f64_val (Fin ?M E)"
    using dv by (rule f64_val_shift)
  also have "\<dots> = f64_val (Fin (2 ^ 52) E) * real_of_int x"
    unfolding f64_val_powr by simp
  finally show ?thesis using r by blast
qed

lemma unat_pos_uint: "0 < unat w \<Longrightarrow> 1 \<le> uint w"
proof -
  assume "0 < unat w"
  moreover have "uint w = int (unat w)" by simp
  ultimately show ?thesis by linarith
qed

lemma f64_decode_exp: "f64_decode w = Fin m e \<Longrightarrow> - 1074 \<le> e"
  by (auto simp: f64_decode_def Let_def dest: unat_pos_uint split: if_splits)

lemma round_half_away_le:
  assumes "0 \<le> r" "r \<le> real_of_int z"
  shows "round_half_away r \<le> z"
proof -
  from assms(2) have "r + 1 / 2 < real_of_int z + 1" by simp
  then have "\<lfloor>r + 1 / 2\<rfloor> \<le> z" by (simp only: floor_le_iff)
  with assms(1) show ?thesis by (simp add: round_half_away_def)
qed

lemma f64_val_pow2_le_1:
  assumes "E \<le> - 52"
  shows "f64_val (Fin (2 ^ 52) E) \<le> 1"
proof -
  from assms have n: "52 \<le> nat (- E)" by simp
  then have "(2::real) ^ 52 \<le> 2 ^ nat (- E)" by (intro power_increasing) simp_all
  with assms show ?thesis by simp
qed

text \<open>The code, for a constant that is a power of two, at most one, and an operand below
  \<open>2 ^ 53\<close>: both conversions and the product are exact.\<close>

lemma ModSwitchCompress_exact:
  fixes e :: "'a::len Evaluator"
  assumes c: "f64_decode (modSwitchConstant e) = Fin (2 ^ 52) ec" "ec \<le> - 52"
    and N: "0 < polyDegree (Parameters e)" "int64_range (2 * polyDegree (Parameters e))"
    and x: "uint x < 2 ^ 53"
  shows "ModSwitchCompress e x
    = Inr (Some ((2 * round_half_away (f64_val (Fin (2 ^ 52) ec) * real_of_int (uint x)))
        mod (2 * polyDegree (Parameters e))))"
proof -
  let ?v = "f64_val (Fin (2 ^ 52) ec) * real_of_int (uint x)"
  have lo: "- 1074 \<le> ec" using c(1) by (rule f64_decode_exp)
  have X: "f64_of_uint x = Fin (uint x) 0" using x by (rule f64_of_uint_exact)
  have ux: "0 \<le> uint x" by simp
  from f64_round_pow2 [OF ux x lo c(2)] obtain mp ep
    where r: "f64_round (2 ^ 52 * uint x) ec = Fin mp ep"
      and v: "f64_val (Fin mp ep) = ?v" by blast
  have p: "f64_mul (Fin (2 ^ 52) ec) (f64_of_uint x) = Fin mp ep"
    by (simp only: X f64_mul.simps add_0_right r)
  have c1: "f64_val (Fin (2 ^ 52) ec) \<le> 1" using c(2) by (rule f64_val_pow2_le_1)
  have c0: "0 \<le> f64_val (Fin (2 ^ 52) ec)" by (rule f64_val_nonneg) simp
  have uxr: "(0::real) \<le> real_of_int (uint x)" using ux by (simp only: of_int_0_le_iff)
  have v0: "0 \<le> ?v" using c0 uxr by (rule mult_nonneg_nonneg)
  from x have "uint x \<le> 2 ^ 53" by simp
  then have xr: "real_of_int (uint x) \<le> real_of_int (2 ^ 53)" by (simp only: of_int_le_iff)
  have "?v \<le> 1 * real_of_int (uint x)" using c1 uxr by (rule mult_right_mono)
  also have "\<dots> \<le> real_of_int (2 ^ 53)" using xr by (simp only: mult_1)
  finally have "round_half_away ?v \<le> 2 ^ 53" using v0 by (intro round_half_away_le)
  moreover have "0 \<le> round_half_away ?v" using v0 by (rule round_half_away_nonneg)
  ultimately have "int64_range (2 * round_half_away ?v)" by (simp add: int64_range_def)
  then have rr: "int64_range (2 * round_half_away (f64_val (Fin mp ep)))" by (simp only: v)
  have "(0::int) \<le> 2 ^ 52" by simp
  from ModSwitchCompress_finite [OF c(1) this N p rr] show ?thesis by (simp only: v)
qed


subsection \<open>Two evaluators\<close>

text \<open>Modelled from the spec: the evaluator of \<open>Params6\<close>, where \<open>L = N = 8192\<close>, has
  \<open>c = 2L/Q = 2^-50\<close>.\<close>

definition Evaluator6 :: "64 Evaluator" where
  "Evaluator6 = \<lparr> Parameters = Compiled6, modSwitchConstant = 0x3CD0000000000000 \<rparr>"

lemma EvaluatorEBS5_fields:
  "polyDegree (Parameters EvaluatorEBS5) = 2048"
  "lookUpTableSize (Parameters EvaluatorEBS5) = 4096"
  "f64_decode (modSwitchConstant EvaluatorEBS5) = Fin (2 ^ 52) (- 103)"
  by (simp_all add: EvaluatorEBS5_def CompiledEBS5_fields f64_decode_def Let_def)

lemma Evaluator6_fields:
  "polyDegree (Parameters Evaluator6) = 8192"
  "lookUpTableSize (Parameters Evaluator6) = 8192"
  "f64_decode (modSwitchConstant Evaluator6) = Fin (2 ^ 52) (- 102)"
  by (simp_all add: Evaluator6_def Compiled6_fields f64_decode_def Let_def)

text \<open>\<open>float64(2^54 + 2^50 - 1)\<close> is \<open>2^54 + 2^50\<close>, and its product with \<open>2^-51\<close> is
  \<open>8.5\<close>.\<close>

lemma f64_of_uint_rounded:
  "f64_of_uint (19140298416324607 :: 64 word) = Fin 4785074604081152 2"
proof -
  have "bit_len 19140298416324607 = 55" using bit_len_bounds [of 54 19140298416324607] by simp
  moreover have "bit_len 4785074604081152 = 53"
    using bit_len_bounds [of 52 4785074604081152] by simp
  ultimately show ?thesis
    by (simp add: f64_of_uint_def f64_round_def round_even_def Let_def)
qed

lemma product_rounded:
  "f64_mul (Fin (2 ^ 52) (- 103)) (f64_of_uint (19140298416324607 :: 64 word))
    = Fin 4785074604081152 (- 49)"
proof -
  have d: "(2::int) ^ 52 dvd 2 ^ 52 * 4785074604081152" by simp
  have v: "(2::int) ^ 52 * 4785074604081152 div 2 ^ 52 = 4785074604081152" by simp
  have b: "bit_len 4785074604081152 = 53"
    using bit_len_bounds [of 52 4785074604081152] by simp
  have bl: "bit_len (2 ^ 52 * 4785074604081152) = 52 + 53"
    unfolding b [symmetric] by (rule bit_len_mult_pow) simp
  have "f64_round (2 ^ 52 * 4785074604081152) (- 103 + 2)
      = Fin (2 ^ 52 * 4785074604081152 div 2 ^ 52) (- 103 + 2 + int 52)"
    by (rule f64_round_shift [OF _ _ d]) (simp_all only: v b bl, simp_all)
  then show ?thesis
    by (simp only: f64_of_uint_rounded f64_mul.simps v) simp
qed

lemma round_eight_and_a_half: "round_half_away (f64_val (Fin 4785074604081152 (- 49))) = 9"
  by (simp add: round_half_away_def)


text \<open>\<open>float64(2^62)\<close> is exact, and its product with \<open>2^-51\<close> is \<open>2048\<close>.\<close>

lemma product_2_62:
  "f64_mul (Fin (2 ^ 52) (- 103)) (f64_of_uint (4611686018427387904 :: 64 word))
    = Fin 4503599627370496 (- 41)"
proof -
  have b: "bit_len 4611686018427387904 = 63"
    using bit_len_bounds [of 62 4611686018427387904] by simp
  have b': "bit_len 4503599627370496 = 53"
    using bit_len_bounds [of 52 4503599627370496] by simp
  have x: "f64_of_uint (4611686018427387904 :: 64 word) = Fin 4503599627370496 10"
    using b b' by (simp add: f64_of_uint_def f64_round_def round_even_def Let_def)
  have d: "(2::int) ^ 52 dvd 2 ^ 52 * 4503599627370496" by simp
  have v: "(2::int) ^ 52 * 4503599627370496 div 2 ^ 52 = 4503599627370496" by simp
  have bl: "bit_len (2 ^ 52 * 4503599627370496) = 52 + 53"
    unfolding b' [symmetric] by (rule bit_len_mult_pow) simp
  have "f64_round (2 ^ 52 * 4503599627370496) (- 103 + 10)
      = Fin (2 ^ 52 * 4503599627370496 div 2 ^ 52) (- 103 + 10 + int 52)"
    by (rule f64_round_shift [OF _ _ d]) (simp_all only: v b' bl, simp_all)
  then show ?thesis
    by (simp only: x f64_mul.simps v) simp
qed

lemma EBS5_at_2_62: "ModSwitchCompress EvaluatorEBS5 4611686018427387904 = Inr (Some 0)"
proof -
  have "(0::int) \<le> 2 ^ 52" by simp
  from ModSwitchCompress_finite [OF EvaluatorEBS5_fields(3) this _ _ product_2_62]
  show ?thesis by (simp add: EvaluatorEBS5_fields round_half_away_def int64_range_def)
qed

lemma EBS5_at_rounded: "ModSwitchCompress EvaluatorEBS5 19140298416324607 = Inr (Some 18)"
proof -
  have "(0::int) \<le> 2 ^ 52" by simp
  from ModSwitchCompress_finite [OF EvaluatorEBS5_fields(3) this _ _ product_rounded]
  show ?thesis by (simp add: EvaluatorEBS5_fields round_half_away_def int64_range_def)
qed

lemma EBS5_claimed:
  "claimed_ModSwitchCompress EvaluatorEBS5 4611686018427387904 = 4096"
  "claimed_ModSwitchCompress EvaluatorEBS5 19140298416324607 = 16"
  by (simp_all add: claimed_ModSwitchCompress_def EvaluatorEBS5_fields round_half_away_def)

text \<open>
  Claim C3, amended. \<open>ModSwitchCompress\<close> reduces modulo \<open>2N\<close>, twice the polynomial degree,
  not modulo \<open>2L\<close>, and it computes in \<open>float64\<close>. For an evaluator of positive degree whose
  modulus-switch constant \<open>c\<close> is a finite non-negative \<open>float64\<close>: whenever the \<open>float64\<close>
  product of \<open>c\<close> and \<open>float64(x)\<close> is finite and twice its rounding is an \<open>int\<close>, the
  result is that rounding times two, modulo \<open>2N\<close>. When \<open>c\<close> is a power of two, at most
  one (as \<open>2L/Q\<close> is), and \<open>x < 2^53\<close>, both the conversion and the product are exact, and
  the result is \<open>round(c * x) * 2 mod 2N\<close> in exact arithmetic, rounding half away from
  zero; that is the value of the specification when moreover \<open>L = N\<close>.
\<close>

theorem ModSwitchCompress_mod_2N:
  fixes e :: "'a::len Evaluator" and x :: "'a word"
  assumes N: "0 < polyDegree (Parameters e)" "int64_range (2 * polyDegree (Parameters e))"
    and c: "f64_decode (modSwitchConstant e) = Fin mc ec" "0 \<le> mc"
  shows "(\<forall>mp ep. f64_mul (Fin mc ec) (f64_of_uint x) = Fin mp ep
            \<and> int64_range (round_half_away (f64_val (Fin mp ep)) * 2)
          \<longrightarrow> ModSwitchCompress e x
              = Inr (Some ((round_half_away (f64_val (Fin mp ep)) * 2)
                  mod (2 * polyDegree (Parameters e)))))
    \<and> (mc = 2 ^ 52 \<and> ec \<le> - 52 \<and> uint x < 2 ^ 53
        \<longrightarrow> ModSwitchCompress e x
              = Inr (Some ((round_half_away (f64_val (Fin mc ec) * real_of_int (uint x)) * 2)
                  mod (2 * polyDegree (Parameters e))))
          \<and> (lookUpTableSize (Parameters e) = polyDegree (Parameters e)
              \<longrightarrow> ModSwitchCompress e x = Inr (Some (claimed_ModSwitchCompress e x))))"
proof (intro conjI allI impI)
  fix mp ep
  assume "f64_mul (Fin mc ec) (f64_of_uint x) = Fin mp ep
    \<and> int64_range (round_half_away (f64_val (Fin mp ep)) * 2)"
  then have p: "f64_mul (Fin mc ec) (f64_of_uint x) = Fin mp ep"
    and r: "int64_range (2 * round_half_away (f64_val (Fin mp ep)))"
    by (simp_all only: mult.commute [of 2])
  from ModSwitchCompress_finite [OF c N p r]
  show "ModSwitchCompress e x
    = Inr (Some ((round_half_away (f64_val (Fin mp ep)) * 2) mod (2 * polyDegree (Parameters e))))"
    by (simp only: mult.commute [of 2 "round_half_away (f64_val (Fin mp ep))"])
next
  assume h: "mc = 2 ^ 52 \<and> ec \<le> - 52 \<and> uint x < 2 ^ 53"
  then have c': "f64_decode (modSwitchConstant e) = Fin (2 ^ 52) ec" using c(1) by simp
  from h have mc: "mc = 2 ^ 52" by simp
  from h have ec: "ec \<le> - 52" and x: "uint x < 2 ^ 53" by simp_all
  from ModSwitchCompress_exact [OF c' ec N x]
  show ex: "ModSwitchCompress e x
    = Inr (Some ((round_half_away (f64_val (Fin mc ec) * real_of_int (uint x)) * 2)
        mod (2 * polyDegree (Parameters e))))"
    unfolding mc
    by (simp only: mult.commute [of 2 "round_half_away (f64_val (Fin (2 ^ 52) ec) * real_of_int (uint x))"])
  assume "lookUpTableSize (Parameters e) = polyDegree (Parameters e)"
  then show "ModSwitchCompress e x = Inr (Some (claimed_ModSwitchCompress e x))"
    unfolding ex claimed_ModSwitchCompress_def c(1) by (simp only:)
qed

theorem ModSwitchCompress_mod_2N_witness:
  "ModSwitchCompress EvaluatorEBS5 19140298416324607 = Inr (Some 18)
    \<and> ModSwitchCompress EvaluatorEBS5 6755399441055744 = Inr (Some 6)
    \<and> ModSwitchCompress Evaluator6 1688849860263936 = Inr (Some 4)
    \<and> claimed_ModSwitchCompress Evaluator6 1688849860263936 = 4"
proof -
  have p: "(0::int) \<le> 2 ^ 52" by simp
  have n5: "0 < polyDegree (Parameters EvaluatorEBS5)"
    "int64_range (2 * polyDegree (Parameters EvaluatorEBS5))"
    by (simp_all add: EvaluatorEBS5_fields int64_range_def)
  have n6: "0 < polyDegree (Parameters Evaluator6)"
    "int64_range (2 * polyDegree (Parameters Evaluator6))"
    by (simp_all add: Evaluator6_fields int64_range_def)
  note t5 = ModSwitchCompress_mod_2N [OF n5 EvaluatorEBS5_fields(3) p]
  note t6 = ModSwitchCompress_mod_2N [OF n6 Evaluator6_fields(3) p]
  have r: "int64_range (round_half_away (f64_val (Fin 4785074604081152 (- 49))) * 2)"
    by (simp only: round_eight_and_a_half) (simp add: int64_range_def)
  from t5 [of 19140298416324607, THEN conjunct1, rule_format, OF conjI, OF product_rounded r]
  have a: "ModSwitchCompress EvaluatorEBS5 19140298416324607 = Inr (Some 18)"
    by (simp only: round_eight_and_a_half EvaluatorEBS5_fields) simp
  have "(2::int) ^ 52 = 2 ^ 52 \<and> (- 103 :: int) \<le> - 52
    \<and> uint (6755399441055744 :: 64 word) < 2 ^ 53" by simp
  from t5 [of 6755399441055744, THEN conjunct2, rule_format, OF this, THEN conjunct1]
  have b: "ModSwitchCompress EvaluatorEBS5 6755399441055744 = Inr (Some 6)"
    by (simp add: round_half_away_def EvaluatorEBS5_fields)
  have h: "(2::int) ^ 52 = 2 ^ 52 \<and> (- 102 :: int) \<le> - 52
    \<and> uint (1688849860263936 :: 64 word) < 2 ^ 53" by simp
  have l: "lookUpTableSize (Parameters Evaluator6) = polyDegree (Parameters Evaluator6)"
    by (simp add: Evaluator6_fields)
  from t6 [of 1688849860263936, THEN conjunct2, rule_format, OF h, THEN conjunct1]
  have c: "ModSwitchCompress Evaluator6 1688849860263936 = Inr (Some 4)"
    by (simp add: round_half_away_def Evaluator6_fields)
  from t6 [of 1688849860263936, THEN conjunct2, rule_format, OF h, THEN conjunct2,
      rule_format, OF l] c
  have d: "claimed_ModSwitchCompress Evaluator6 1688849860263936 = 4" by simp
  from a b c d show ?thesis by simp
qed

text \<open>
  Claim C3 as worded fails twice on the evaluator of \<open>ParamsEBS5\<close> (\<open>N = 2048\<close>, \<open>L = 4096\<close>,
  \<open>c = 2L/Q = 2^-51\<close>). At \<open>x = 2^62\<close> every operation is exact and \<open>round(c * x) * 2\<close> is
  \<open>4096\<close>: the code returns \<open>4096 mod 2N = 0\<close>, not \<open>4096 mod 2L = 4096\<close>. At
  \<open>x = 2^54 + 2^50 - 1\<close> the conversion \<open>float64(x)\<close> rounds up to \<open>2^54 + 2^50\<close>, the product
  is \<open>8.5\<close> and the code returns \<open>18\<close>, where \<open>round(c * x) * 2\<close> is \<open>16\<close>.
\<close>

theorem ModSwitchCompress_counterexample:
  "ModSwitchCompress EvaluatorEBS5 4611686018427387904 = Inr (Some 0)
    \<and> claimed_ModSwitchCompress EvaluatorEBS5 4611686018427387904 = 4096
    \<and> ModSwitchCompress EvaluatorEBS5 19140298416324607 = Inr (Some 18)
    \<and> claimed_ModSwitchCompress EvaluatorEBS5 19140298416324607 = 16"
  by (simp add: EBS5_at_2_62 EBS5_at_rounded EBS5_claimed)

end
